(* ===== verification/Prelude.thy ===== *)
theory Prelude
  imports Main "HOL-Library.Char_ord" "HOL-Library.List_Lexorder" "HOL-Library.Multiset"
begin

text \<open>
  What every utility of the repository shares: the bytes the C sources name by character
  constants, C strings, \<open>size_t\<close> arithmetic with its wrap-around written out, the two string
  comparisons the sources use (\<open>strcmp\<close> and a hand-written unsigned comparison), \<open>qsort\<close>, and
  generic lemmas on lists.  A C \<open>char\<close> is an Isabelle \<^typ>\<open>char\<close> (a byte); a C string is the list
  of the bytes before its terminating NUL.
\<close>

named_theorems cstring_simps "facts about C strings and their bytes"
named_theorems runtime_simps "equations that run the modelled C library"

section \<open>Bytes and C strings\<close>

type_synonym cstr = "char list"

abbreviation NUL :: char where "NUL \<equiv> CHR 0x00"
abbreviation TAB :: char where "TAB \<equiv> CHR 0x09"
abbreviation LF :: char where "LF \<equiv> CHR 0x0A"
abbreviation CR :: char where "CR \<equiv> CHR 0x0D"
abbreviation SP :: char where "SP \<equiv> CHR 0x20"
abbreviation DQ :: char where "DQ \<equiv> CHR 0x22"
abbreviation SQ :: char where "SQ \<equiv> CHR 0x27"
abbreviation BSL :: char where "BSL \<equiv> CHR 0x5C"

text \<open>The value of a byte read as \<open>unsigned char\<close>.\<close>

abbreviation ubyte :: "char \<Rightarrow> nat" where "ubyte c \<equiv> of_char c"

lemma ubyte_less_256 [simp]: "ubyte c < 256"
  using of_char_mod_256 [of c, where 'a = nat] by (metis mod_less_divisor zero_less_numeral)

lemma ubyte_inject [simp]: "ubyte c = ubyte d \<longleftrightarrow> c = d"
  by (metis char_of_char)

text \<open>A buffer read as a C string stops at its first NUL.\<close>

definition cstr_of :: "char list \<Rightarrow> cstr" where
  "cstr_of buf = takeWhile (\<lambda>c. c \<noteq> NUL) buf"

definition is_cstr :: "char list \<Rightarrow> bool" where
  "is_cstr s \<longleftrightarrow> NUL \<notin> set s"

lemma is_cstr_simps [simp, cstring_simps]:
  "is_cstr []"
  "is_cstr (c # s) \<longleftrightarrow> c \<noteq> NUL \<and> is_cstr s"
  "is_cstr (s @ t) \<longleftrightarrow> is_cstr s \<and> is_cstr t"
  by (auto simp: is_cstr_def)

lemma is_cstr_cstr_of [simp]: "is_cstr (cstr_of buf)"
  unfolding is_cstr_def cstr_of_def by (auto dest: set_takeWhileD)

lemma cstr_of_id [simp]: "is_cstr s \<Longrightarrow> cstr_of s = s"
  by (simp add: cstr_of_def is_cstr_def takeWhile_eq_all_conv) blast

text \<open>\<open>strchr\<close>: the offset of the first occurrence of a byte.\<close>

fun strchr :: "cstr \<Rightarrow> char \<Rightarrow> nat option" where
  "strchr [] c = None"
| "strchr (d # s) c = (if d = c then Some 0 else map_option Suc (strchr s c))"

lemma strchr_None [cstring_simps]: "strchr s c = None \<longleftrightarrow> c \<notin> set s"
  by (induction s) auto

lemma strchr_SomeD:
  "strchr s c = Some i \<Longrightarrow> s = take i s @ c # drop (Suc i) s \<and> c \<notin> set (take i s) \<and> i < length s"
  by (induction s arbitrary: i) (auto split: if_splits)

lemma strchr_append [cstring_simps]: "c \<notin> set p \<Longrightarrow> strchr (p @ c # q) c = Some (length p)"
  by (induction p) auto

text \<open>\<open>strrchr\<close>: the offset of the last occurrence.\<close>

fun strrchr :: "cstr \<Rightarrow> char \<Rightarrow> nat option" where
  "strrchr [] c = None"
| "strrchr (d # s) c =
     (case strrchr s c of Some i \<Rightarrow> Some (Suc i) | None \<Rightarrow> if d = c then Some 0 else None)"

lemma strrchr_None [cstring_simps]: "strrchr s c = None \<longleftrightarrow> c \<notin> set s"
  by (induction s) (auto split: option.splits)

lemma strrchr_SomeD:
  "strrchr s c = Some i \<Longrightarrow> i < length s \<and> s ! i = c \<and> c \<notin> set (drop (Suc i) s)"
proof (induction s arbitrary: i)
  case (Cons d s)
  then show ?case by (cases "strrchr s c") (auto simp: strrchr_None split: if_splits)
qed simp

lemma find_append: "find P (xs @ ys) = (case find P xs of None \<Rightarrow> find P ys | Some x \<Rightarrow> Some x)"
  by (induction xs) simp_all

section \<open>Comparing strings\<close>

text \<open>
  \<open>strcmp\<close> compares byte by byte as \<open>unsigned char\<close>; only the sign of its result is used.
\<close>

fun strcmp :: "cstr \<Rightarrow> cstr \<Rightarrow> int" where
  "strcmp [] [] = 0"
| "strcmp [] (b # bs) = -1"
| "strcmp (a # as) [] = 1"
| "strcmp (a # as) (b # bs) =
     (if a = b then strcmp as bs else if ubyte a < ubyte b then -1 else 1)"

lemma strcmp_eq_0 [simp, cstring_simps]: "strcmp s t = 0 \<longleftrightarrow> s = t"
  by (induction s t rule: strcmp.induct) auto

lemma strcmp_less_0 [simp, cstring_simps]: "strcmp s t < 0 \<longleftrightarrow> s < t"
  by (induction s t rule: strcmp.induct) (auto simp: less_char_def)

lemma strcmp_le_0 [simp, cstring_simps]: "strcmp s t \<le> 0 \<longleftrightarrow> s \<le> t"
  using strcmp_less_0 [of s t] strcmp_eq_0 [of s t] by (metis nle_le order_le_less)

section \<open>qsort\<close>

text \<open>
  \<open>qsort\<close> with a comparison function; a comparison that reflects the order of a key sorts by
  the key.  Where the keys are distinct every sorted rearrangement is the same, so the choice of
  a stable sort does not matter.
\<close>

fun insert_by :: "('a \<Rightarrow> 'a \<Rightarrow> int) \<Rightarrow> 'a \<Rightarrow> 'a list \<Rightarrow> 'a list" where
  "insert_by cmp x [] = [x]"
| "insert_by cmp x (y # ys) = (if cmp x y \<le> 0 then x # y # ys else y # insert_by cmp x ys)"

definition qsort_by :: "('a \<Rightarrow> 'a \<Rightarrow> int) \<Rightarrow> 'a list \<Rightarrow> 'a list" where
  "qsort_by cmp xs = foldr (insert_by cmp) xs []"

lemma qsort_by_key:
  assumes "\<And>a b. cmp a b \<le> 0 \<longleftrightarrow> (key a :: 'k :: linorder) \<le> key b"
  shows "qsort_by cmp xs = sort_key key xs"
proof -
  have "insert_by cmp x ys = insort_key key x ys" for x ys
    by (induction ys) (simp_all add: assms)
  then have "insert_by cmp = insort_key key" by (simp add: fun_eq_iff)
  then show ?thesis by (simp add: qsort_by_def sort_key_def)
qed

lemma sort_key_trivial: "(if length xs > 1 then sort_key f xs else xs) = sort_key f xs"
  by (cases xs; cases "tl xs") auto

section \<open>size_t\<close>

definition SIZE_MAX :: nat where "SIZE_MAX = 18446744073709551615"

text \<open>Unsigned 64-bit addition and multiplication, which wrap.\<close>

definition size_plus :: "nat \<Rightarrow> nat \<Rightarrow> nat" where
  "size_plus a b = (a + b) mod 18446744073709551616"

definition size_times :: "nat \<Rightarrow> nat \<Rightarrow> nat" where
  "size_times a b = (a * b) mod 18446744073709551616"

lemma size_plus_exact [simp]: "a + b \<le> SIZE_MAX \<Longrightarrow> size_plus a b = a + b"
  by (simp add: size_plus_def SIZE_MAX_def)

lemma size_times_exact [simp]: "a * b \<le> SIZE_MAX \<Longrightarrow> size_times a b = a * b"
  by (simp add: size_times_def SIZE_MAX_def)

end
