(* ===== verification/Runtime.thy ===== *)
theory Runtime
  imports Prelude
begin

text \<open>
  The part of the C library the utilities run on, as explicit state: the two output streams,
  \<open>errno\<close> and the allocator.  A stream accepts a bounded or unbounded number of bytes
  (\<open>room\<close>); a write that does not fit accepts what fits, sets the error flag that
  \<open>ferror\<close> reads and fails, so every point at which a write can fail first is some
  value of \<open>room\<close>.  A failing \<open>fflush\<close> is a value of its own.  The allocator grants
  \<open>mem\<close> more requests (\<open>None\<close>: all of them) and then refuses.

  The main fact of the theory is that a chain of checked writes is one write of the
  concatenated text (\<open>or_chain_writes\<close>), so that each printing function of the sources
  equals a single \<^term>\<open>c_write\<close> of a text computed by a pure function.
\<close>

section \<open>Streams, errno, allocation\<close>

record ostream =
  sent :: "char list"
  room :: "nat option"
  werrno :: nat
  flush_errno :: "nat option"
  ferr :: bool

datatype stream = Stdout | Stderr

record io =
  out :: ostream
  err :: ostream
  errno :: nat
  mem :: "nat option"
  strerror_of :: "nat \<Rightarrow> cstr"

fun stream_of :: "stream \<Rightarrow> io \<Rightarrow> ostream" where
  "stream_of Stdout s = out s"
| "stream_of Stderr s = err s"

fun upd_stream :: "stream \<Rightarrow> (ostream \<Rightarrow> ostream) \<Rightarrow> io \<Rightarrow> io" where
  "upd_stream Stdout f s = s\<lparr>out := f (out s)\<rparr>"
| "upd_stream Stderr f s = s\<lparr>err := f (err s)\<rparr>"

definition fits :: "ostream \<Rightarrow> char list \<Rightarrow> bool" where
  "fits o1 t = (case room o1 of None \<Rightarrow> True | Some n \<Rightarrow> length t \<le> n)"

definition put_bytes :: "char list \<Rightarrow> ostream \<Rightarrow> ostream" where
  "put_bytes t o1 =
     (case room o1 of
        None \<Rightarrow> o1\<lparr>sent := sent o1 @ t\<rparr>
      | Some n \<Rightarrow>
          if length t \<le> n then o1\<lparr>sent := sent o1 @ t, room := Some (n - length t)\<rparr>
          else o1\<lparr>sent := sent o1 @ take n t, room := Some 0, ferr := True\<rparr>)"

text \<open>
  \<open>fputs\<close>, \<open>fputc\<close>, \<open>fwrite\<close> and \<open>fprintf\<close> of a formatted text: 0 on success, -1
  (\<open>EOF\<close>) on failure.
\<close>

definition c_write :: "stream \<Rightarrow> char list \<Rightarrow> io \<Rightarrow> int \<times> io" where
  "c_write st t s =
     (let o1 = stream_of st s; s1 = upd_stream st (put_bytes t) s in
      if fits o1 t then (0, s1) else (-1, s1\<lparr>errno := werrno o1\<rparr>))"

definition c_fflush :: "stream \<Rightarrow> io \<Rightarrow> int \<times> io" where
  "c_fflush st s =
     (case flush_errno (stream_of st s) of
        None \<Rightarrow> (0, s)
      | Some e \<Rightarrow> (-1, (upd_stream st (\<lambda>o1. o1\<lparr>ferr := True\<rparr>) s)\<lparr>errno := e\<rparr>))"

definition c_ferror :: "stream \<Rightarrow> io \<Rightarrow> bool" where
  "c_ferror st s = ferr (stream_of st s)"

text \<open>One allocation request: granted or refused.\<close>

definition c_malloc :: "io \<Rightarrow> bool \<times> io" where
  "c_malloc s =
     (case mem s of
        None \<Rightarrow> (True, s)
      | Some n \<Rightarrow> (case n of 0 \<Rightarrow> (False, s) | Suc k \<Rightarrow> (True, s\<lparr>mem := Some k\<rparr>)))"

text \<open>
  \<open>if (f1 != 0 || f2 != 0 || ...) return -1; return 0;\<close> with the short circuit of \<open>||\<close>.
\<close>

fun or_chain :: "(io \<Rightarrow> int \<times> io) list \<Rightarrow> io \<Rightarrow> int \<times> io" where
  "or_chain [] s = (0, s)"
| "or_chain (f # fs) s = (case f s of (r, s1) \<Rightarrow> if r \<noteq> 0 then (-1, s1) else or_chain fs s1)"

text \<open>A call whose result the source throws away.\<close>

definition ignore_result :: "(io \<Rightarrow> int \<times> io) \<Rightarrow> io \<Rightarrow> io" where
  "ignore_result f s = snd (f s)"

section \<open>A chain of writes is one write\<close>

lemma c_write_Nil [simp, runtime_simps]: "c_write st [] s = (0, s)"
  by (cases st; cases s) (auto simp: c_write_def fits_def put_bytes_def Let_def split: option.split)

lemma c_write_append [runtime_simps]:
  "(case c_write st t s of (r, s1) \<Rightarrow> if r \<noteq> 0 then (-1, s1) else c_write st u s1)
     = c_write st (t @ u) s"
  by (cases st)
    (auto simp: c_write_def fits_def put_bytes_def Let_def split: option.splits)

lemma c_write_result: "c_write st t s = (r, s1) \<Longrightarrow> r = 0 \<or> r = -1"
  by (auto simp: c_write_def Let_def split: if_splits)

lemma or_chain_write [simp, runtime_simps]:
  "or_chain [c_write st t] s = c_write st t s"
  using c_write_result [where st = st and t = t and s = s] by (auto split: prod.split)

lemma or_chain_writes [simp, runtime_simps]:
  "or_chain (c_write st t # c_write st u # fs) s = or_chain (c_write st (t @ u) # fs) s"
  using c_write_append [where st = st and t = t and u = u and s = s]
    c_write_result [where st = st and t = t and s = s]
  by (auto split: prod.splits if_splits)

section \<open>Streams that never fail\<close>

definition quiet :: "stream \<Rightarrow> io \<Rightarrow> bool" where
  "quiet st s \<longleftrightarrow> room (stream_of st s) = None"

definition emit :: "stream \<Rightarrow> char list \<Rightarrow> io \<Rightarrow> io" where
  "emit st t s = upd_stream st (\<lambda>o1. o1\<lparr>sent := sent o1 @ t\<rparr>) s"

definition text_of :: "stream \<Rightarrow> io \<Rightarrow> char list" where
  "text_of st s = sent (stream_of st s)"

lemma c_write_quiet [runtime_simps]: "quiet st s \<Longrightarrow> c_write st t s = (0, emit st t s)"
  by (cases st) (auto simp: c_write_def quiet_def fits_def put_bytes_def emit_def Let_def)

lemma quiet_emit [simp, runtime_simps]: "quiet st (emit st1 t s) \<longleftrightarrow> quiet st s"
  by (cases st; cases st1) (auto simp: quiet_def emit_def)

lemma emit_emit [simp, runtime_simps]: "emit st u (emit st t s) = emit st (t @ u) s"
  by (cases st) (auto simp: emit_def)

lemma text_of_emit [simp, runtime_simps]:
  "text_of st (emit st1 t s) = (if st = st1 then text_of st s @ t else text_of st s)"
  by (cases st; cases st1) (auto simp: text_of_def emit_def)

lemma mem_emit [simp, runtime_simps]: "mem (emit st t s) = mem s"
  by (cases st) (auto simp: emit_def)

text \<open>Whatever fails, a stream holds what it held followed by a prefix of the text.\<close>

lemma c_write_other [simp]: "st \<noteq> st1 \<Longrightarrow> text_of st (snd (c_write st1 t s)) = text_of st s"
  by (cases st; cases st1) (auto simp: c_write_def text_of_def Let_def)

lemma c_write_mem [simp]: "mem (snd (c_write st t s)) = mem s"
  by (cases st) (auto simp: c_write_def Let_def)

lemma c_write_prefix:
  "\<exists>n. text_of st (snd (c_write st t s)) = text_of st s @ take n t
       \<and> (fst (c_write st t s) = 0 \<longrightarrow> take n t = t)"
proof (cases "room (stream_of st s)")
  case None
  then show ?thesis
    by (intro exI [of _ "length t"], cases st)
      (auto simp: c_write_def text_of_def fits_def put_bytes_def Let_def)
next
  case (Some n)
  then show ?thesis
    by (intro exI [of _ n], cases st)
      (auto simp: c_write_def text_of_def fits_def put_bytes_def Let_def)
qed

lemma c_malloc_mem_None [simp, runtime_simps]: "mem s = None \<Longrightarrow> c_malloc s = (True, s)"
  by (simp add: c_malloc_def)

lemma c_malloc_frame:
  "c_malloc s = (b, s1) \<Longrightarrow> out s1 = out s \<and> err s1 = err s \<and> errno s1 = errno s"
  by (auto simp: c_malloc_def split: option.splits nat.splits)

lemma c_malloc_text [simp]: "text_of st (snd (c_malloc s)) = text_of st s"
  by (cases st) (auto simp: c_malloc_def text_of_def split: option.splits nat.splits)

lemma out_ignored_write [simp]: "out (ignore_result (c_write Stderr t) s) = out s"
  by (simp add: ignore_result_def c_write_def Let_def)

lemma out_ignored_emit [simp]: "out (emit Stderr t s) = out s"
  by (simp add: emit_def)

text \<open>Stdout alone: what a sequence of writes leaves depends on stdout only.\<close>

lemma out_write: "out (snd (c_write Stdout t s)) = put_bytes t (out s)"
  "fst (c_write Stdout t s) = (if fits (out s) t then 0 else -1)"
  by (simp_all add: c_write_def Let_def)

lemma put_bytes_Nil [simp]: "put_bytes [] o1 = o1" "fits o1 []"
  by (simp_all add: put_bytes_def fits_def split: option.split)

lemma fits_append: "fits o1 (t @ u) \<longleftrightarrow> fits o1 t \<and> fits (put_bytes t o1) u"
  by (auto simp: fits_def put_bytes_def split: option.split)

lemma put_bytes_append:
  "put_bytes (t @ u) o1 = (if fits o1 t then put_bytes u (put_bytes t o1) else put_bytes t o1)"
  by (auto simp: fits_def put_bytes_def split: option.split)

lemma put_bytes_sent: "fits o1 t \<Longrightarrow> sent (put_bytes t o1) = sent o1 @ t"
  "ferr (put_bytes t o1) = (ferr o1 \<or> \<not> fits o1 t)" "flush_errno (put_bytes t o1) = flush_errno o1"
  by (auto simp: fits_def put_bytes_def split: option.splits)

text \<open>A complete write that succeeds leaves the whole text.\<close>

lemma c_write_done:
  "c_write st t s = (0, s1) \<Longrightarrow> text_of st s1 = text_of st s @ t"
  using c_write_prefix [of st t s] by auto

text \<open>A runtime in which nothing fails, for closed examples.\<close>

definition clear_stream :: ostream where
  "clear_stream =
     \<lparr>sent = [], room = None, werrno = 0, flush_errno = None, ferr = False\<rparr>"

definition clear_io :: io where
  "clear_io = \<lparr>out = clear_stream, err = clear_stream, errno = 0, mem = None,
     strerror_of = (\<lambda>_. ''error'')\<rparr>"

definition faultless :: "io \<Rightarrow> bool" where
  "faultless s \<longleftrightarrow> quiet Stdout s \<and> quiet Stderr s \<and> mem s = None
     \<and> flush_errno (out s) = None \<and> \<not> ferr (out s)"

lemma faultless_clear_io [simp]: "faultless clear_io"
  by (simp add: faultless_def clear_io_def clear_stream_def quiet_def)

lemma faultless_emit [simp]: "faultless (emit st t s) \<longleftrightarrow> faultless s"
  by (cases st) (auto simp: faultless_def quiet_def emit_def)

lemma faultlessD:
  assumes "faultless s"
  shows "quiet Stdout s" "quiet Stderr s" "mem s = None" "c_malloc s = (True, s)"
    "c_fflush Stdout s = (0, s)" "\<not> c_ferror Stdout s"
  using assms by (auto simp: faultless_def c_fflush_def c_ferror_def)

lemma ignore_result_quiet [simp]:
  "quiet st s \<Longrightarrow> ignore_result (c_write st t) s = emit st t s"
  by (simp add: ignore_result_def c_write_quiet)

section \<open>Formatting integers\<close>

definition dec_digit :: "nat \<Rightarrow> char" where "dec_digit d = char_of (48 + d)"

text \<open>\<open>%zu\<close>, \<open>%d\<close> of a nonnegative value, \<open>%ju\<close>.\<close>

fun dec :: "nat \<Rightarrow> cstr" where
  "dec n = (if n < 10 then [dec_digit n] else dec (n div 10) @ [dec_digit (n mod 10)])"

declare dec.simps [simp del]

definition hex_upper :: "nat \<Rightarrow> char" where
  "hex_upper d = (if d < 10 then char_of (48 + d) else char_of (55 + d))"

text \<open>\<open>%02X\<close> of a byte.\<close>

definition hex2_upper :: "char \<Rightarrow> cstr" where
  "hex2_upper c = [hex_upper (ubyte c div 16), hex_upper (ubyte c mod 16)]"

end
