(* ===== verification/Escaping.thy ===== *)
theory Escaping
  imports Runtime
begin

text \<open>
  The contract of the escapings the utilities print untrusted bytes with: every byte becomes
  a short run of printable ASCII from which the byte can be read back.  The contract is the
  locale \<open>byte_escape\<close>; the lemmas of the locale give unique decoding of whole strings,
  printability and a length bound.  The three escapings of the sources (backslash doubled;
  quote and backslash behind a backslash; quote and backslash in hexadecimal) interpret it.
\<close>

section \<open>Reading an escaped text back\<close>

definition printable :: "char \<Rightarrow> bool" where
  "printable c \<longleftrightarrow> 32 \<le> ubyte c \<and> ubyte c \<le> 126"

definition hexval :: "char \<Rightarrow> nat option" where
  "hexval c =
     (if 48 \<le> ubyte c \<and> ubyte c \<le> 57 then Some (ubyte c - 48)
      else if 65 \<le> ubyte c \<and> ubyte c \<le> 70 then Some (ubyte c - 55) else None)"

fun unescape1 :: "char list \<Rightarrow> (char \<times> char list) option" where
  "unescape1 [] = None"
| "unescape1 (c # r) =
     (if c \<noteq> BSL then Some (c, r)
      else (case r of
          [] \<Rightarrow> None
        | d # r1 \<Rightarrow>
            if d = BSL \<or> d = DQ then Some (d, r1)
            else if d = CHR ''x'' then
              (case r1 of
                 h # l # r2 \<Rightarrow>
                   (case (hexval h, hexval l) of
                      (Some a, Some b) \<Rightarrow> Some (char_of (16 * a + b), r2)
                    | _ \<Rightarrow> None)
               | _ \<Rightarrow> None)
            else None))"

lemma unescape1_shrinks: "unescape1 t = Some (c, r) \<Longrightarrow> length r < length t"
  by (cases t) (auto split: if_splits list.splits option.splits)

function unescape :: "char list \<Rightarrow> char list option" where
  "unescape t =
     (if t = [] then Some []
      else (case unescape1 t of
              None \<Rightarrow> None
            | Some (c, r) \<Rightarrow> map_option (Cons c) (unescape r)))"
  by pat_completeness auto
termination
  by (relation "measure length") (auto dest: unescape1_shrinks)

declare unescape.simps [simp del]

lemma unescape_Nil [simp]: "unescape [] = Some []"
  by (simp add: unescape.simps)

lemma unescape_step: "unescape1 t = Some (c, r) \<Longrightarrow> unescape t = map_option (Cons c) (unescape r)"
  by (cases "t = []") (simp_all add: unescape.simps [of t] del: unescape1.simps(2))

section \<open>The contract\<close>

locale byte_escape =
  fixes esc :: "char \<Rightarrow> char list"
  assumes unescape1_esc: "unescape1 (esc c @ r) = Some (c, r)"
    and printable_esc: "d \<in> set (esc c) \<Longrightarrow> printable d"
    and length_esc: "length (esc c) \<le> 4"
begin

lemma esc_not_Nil: "esc c \<noteq> []"
  using unescape1_esc [of c "[]"] by auto

lemma unescape_esc: "unescape (concat (map esc s)) = Some s"
  by (induction s) (simp_all add: unescape_step [OF unescape1_esc])

lemma unescape_esc_append: "unescape (concat (map esc s) @ t) = map_option ((@) s) (unescape t)"
  by (cases "unescape t"; induction s) (simp_all add: unescape_step [OF unescape1_esc])

lemma esc_inject: "concat (map esc s) = concat (map esc t) \<longleftrightarrow> s = t"
  by (metis option.inject unescape_esc)

lemma printable_escaped: "d \<in> set (concat (map esc s)) \<Longrightarrow> printable d"
  by (auto dest: printable_esc)

lemma length_escaped: "length (concat (map esc s)) \<le> 4 * length s"
proof (induction s)
  case (Cons c s)
  then show ?case using length_esc [of c] by simp
qed simp

end

section \<open>The escapings of the sources\<close>

definition hex_escape :: "char \<Rightarrow> char list" where
  "hex_escape c = BSL # CHR ''x'' # hex2_upper c"

definition esc_bytes :: "char \<Rightarrow> char list" where
  "esc_bytes c = (if c = BSL then [BSL, BSL] else if printable c then [c] else hex_escape c)"

definition esc_quoted :: "char \<Rightarrow> char list" where
  "esc_quoted c =
     (if c = DQ then [BSL, DQ] else if c = BSL then [BSL, BSL]
      else if printable c then [c] else hex_escape c)"

definition esc_hex :: "char \<Rightarrow> char list" where
  "esc_hex c = (if c = DQ \<or> c = BSL \<or> \<not> printable c then hex_escape c else [c])"

lemma ubyte_hex_upper: "d < 16 \<Longrightarrow> ubyte (hex_upper d) = (if d < 10 then 48 + d else 55 + d)"
  by (simp add: hex_upper_def)

lemma hexval_hex_upper [simp]: "d < 16 \<Longrightarrow> hexval (hex_upper d) = Some d"
  by (auto simp: hexval_def ubyte_hex_upper)

lemma nibbles [simp]: "ubyte c div 16 < 16" "ubyte c mod 16 < 16"
  by (rule less_mult_imp_div_less) simp_all

lemma printable_hex_upper [simp]: "d < 16 \<Longrightarrow> printable (hex_upper d)"
  by (simp add: printable_def ubyte_hex_upper)

lemma unescape1_hex_escape: "unescape1 (hex_escape c @ r) = Some (c, r)"
  by (simp add: hex_escape_def hex2_upper_def)

lemma printable_special [simp]: "printable BSL" "printable DQ" "printable CHR ''x''"
  by (simp_all add: printable_def)

lemma printable_hex_escape: "d \<in> set (hex_escape c) \<Longrightarrow> printable d"
  by (auto simp: hex_escape_def hex2_upper_def)

lemma length_hex_escape: "length (hex_escape c) = 4"
  by (simp add: hex_escape_def hex2_upper_def)

lemmas escape_facts = unescape1_hex_escape printable_hex_escape length_hex_escape

interpretation bytes_esc: byte_escape esc_bytes
  by unfold_locales (auto simp: esc_bytes_def escape_facts split: if_splits)

interpretation quoted_esc: byte_escape esc_quoted
  by unfold_locales (auto simp: esc_quoted_def escape_facts split: if_splits)

interpretation hex_esc: byte_escape esc_hex
  by unfold_locales (auto simp: esc_hex_def escape_facts split: if_splits)

lemma printable_not_control:
  "printable d \<Longrightarrow> d \<noteq> LF \<and> d \<noteq> TAB \<and> d \<noteq> NUL \<and> d \<noteq> CR"
  by (auto simp: printable_def)

end
