(* ===== verification/Sysdiff_Text.thy ===== *)
theory Sysdiff_Text
  imports Escaping
begin

text \<open>
  The output side of \<open>src/sysdiff.c\<close>: the checked stdio wrappers, the two escapings (the one
  of diagnostics and the one of values, which also shields the separator of changed lines),
  the completion of stdout and the three kinds of diff records.  Each printing function is
  shown to be one write of a text given by a pure function; the escaping of values is shown
  to decode to the value, to be printable and to contain no separator.
\<close>

section \<open>The code\<close>

definition USAGE_TEXT :: cstr where
  "USAGE_TEXT =
     ''usage: sysdiff --help|--version|compare BEFORE_SNAPSHOT AFTER_SNAPSHOT'' @ [LF]"

definition EIO :: nat where "EIO = 5"

definition fputc_checked :: "char \<Rightarrow> stream \<Rightarrow> io \<Rightarrow> int \<times> io" where
  "fputc_checked ch st s = (case c_write st [ch] s of (r, s1) \<Rightarrow> (if r = -1 then -1 else 0, s1))"

definition fputs_checked :: "cstr \<Rightarrow> stream \<Rightarrow> io \<Rightarrow> int \<times> io" where
  "fputs_checked text st s =
     (case c_write st text s of (r, s1) \<Rightarrow> (if r = -1 then -1 else 0, s1))"

definition checked_size_add :: "nat \<Rightarrow> nat \<Rightarrow> nat option" where
  "checked_size_add left right =
     (if left > SIZE_MAX - right then None else Some (size_plus left right))"

definition checked_size_mul :: "nat \<Rightarrow> nat \<Rightarrow> nat option" where
  "checked_size_mul left right =
     (if right \<noteq> 0 \<and> left > SIZE_MAX div right then None else Some (size_times left right))"

fun put_escaped_bytes :: "stream \<Rightarrow> cstr \<Rightarrow> io \<Rightarrow> int \<times> io" where
  "put_escaped_bytes st [] s = (0, s)"
| "put_escaped_bytes st (ch # p) s =
     (case (if ch = BSL then fputs_checked [BSL, BSL] st s
            else if ubyte ch \<ge> 0x20 \<and> ubyte ch \<le> 0x7e then fputc_checked ch st s
            else c_write st (BSL # CHR ''x'' # hex2_upper ch) s) of
        (r, s1) \<Rightarrow> if r \<noteq> 0 then (-1, s1) else put_escaped_bytes st p s1)"

fun put_escaped_value :: "stream \<Rightarrow> cstr \<Rightarrow> io \<Rightarrow> int \<times> io" where
  "put_escaped_value st [] s = (0, s)"
| "put_escaped_value st (ch # p) s =
     (if take 3 (ch # p) = '' ->'' then
        (case fputs_checked ('' -'' @ [BSL] @ ''x3E'') st s of
           (r, s1) \<Rightarrow> if r \<noteq> 0 then (-1, s1) else put_escaped_value st (drop 2 p) s1)
      else
        (case (if ch = BSL then fputs_checked [BSL, BSL] st s
               else if ubyte ch \<ge> 0x20 \<and> ubyte ch \<le> 0x7e then fputc_checked ch st s
               else c_write st (BSL # CHR ''x'' # hex2_upper ch) s) of
           (r, s1) \<Rightarrow> if r \<noteq> 0 then (-1, s1) else put_escaped_value st p s1))"

definition emit_write_error :: "io \<Rightarrow> int \<times> io" where
  "emit_write_error s =
     (let e = (if errno s = 0 then EIO else errno s) in
      (2, ignore_result
            (c_write Stderr (''sysdiff: stdout write error: '' @ strerror_of s e @ [LF])) s))"

definition complete_stdout :: "int \<Rightarrow> io \<Rightarrow> int \<times> io" where
  "complete_stdout status s =
     (case c_fflush Stdout s of
        (r, s1) \<Rightarrow> if r \<noteq> 0 \<or> c_ferror Stdout s1 then emit_write_error s1 else (status, s1))"

definition print_usage :: "stream \<Rightarrow> io \<Rightarrow> int \<times> io" where
  "print_usage st s = fputs_checked USAGE_TEXT st s"

definition diag_puts_escaped :: "cstr \<Rightarrow> io \<Rightarrow> io" where
  "diag_puts_escaped text s = ignore_result (put_escaped_bytes Stderr text) s"

definition emit_added :: "cstr \<Rightarrow> cstr \<Rightarrow> io \<Rightarrow> int \<times> io" where
  "emit_added key val1 =
     or_chain [fputs_checked ''+ '' Stdout, fputs_checked key Stdout,
       fputc_checked (CHR ''='') Stdout, put_escaped_value Stdout val1, fputc_checked LF Stdout]"

definition emit_removed :: "cstr \<Rightarrow> cstr \<Rightarrow> io \<Rightarrow> int \<times> io" where
  "emit_removed key val1 =
     or_chain [fputs_checked ''- '' Stdout, fputs_checked key Stdout,
       fputc_checked (CHR ''='') Stdout, put_escaped_value Stdout val1, fputc_checked LF Stdout]"

definition emit_changed :: "cstr \<Rightarrow> cstr \<Rightarrow> cstr \<Rightarrow> io \<Rightarrow> int \<times> io" where
  "emit_changed key old_value new_value =
     or_chain [fputs_checked ''~ '' Stdout, fputs_checked key Stdout,
       fputs_checked '': '' Stdout, put_escaped_value Stdout old_value,
       fputs_checked '' -> '' Stdout, put_escaped_value Stdout new_value,
       fputc_checked LF Stdout]"

section \<open>Checked arithmetic\<close>

text \<open>
  The checked additions and multiplications of \<open>size_t\<close> return the exact result, and
  refuse precisely the operands whose exact result does not fit in 64 bits.
\<close>

theorem checked_size_exact:
  assumes "a \<le> SIZE_MAX" and "b \<le> SIZE_MAX"
  shows "checked_size_add a b = (if a + b \<le> SIZE_MAX then Some (a + b) else None)
       \<and> checked_size_mul a b = (if a * b \<le> SIZE_MAX then Some (a * b) else None)"
proof
  show "checked_size_add a b = (if a + b \<le> SIZE_MAX then Some (a + b) else None)"
    using assms by (auto simp: checked_size_add_def)
  show "checked_size_mul a b = (if a * b \<le> SIZE_MAX then Some (a * b) else None)"
  proof (cases "b = 0")
    case False
    then have "a > SIZE_MAX div b \<longleftrightarrow> \<not> a * b \<le> SIZE_MAX"
      by (simp add: div_less_iff_less_mult not_le)
    with False show ?thesis by (simp add: checked_size_mul_def)
  qed (simp add: checked_size_mul_def)
qed

theorem checked_size_exact_witness:
  "checked_size_add 18446744073709551615 1 = None \<and> checked_size_mul 65536 16 = Some 1048576"
  using checked_size_exact [of 18446744073709551615 1] checked_size_exact [of 65536 16]
  by (simp add: SIZE_MAX_def)

section \<open>Escaped texts\<close>

fun esc_value :: "char list \<Rightarrow> char list" where
  "esc_value [] = []"
| "esc_value (c # p) =
     (if take 3 (c # p) = '' ->'' then '' -'' @ [BSL] @ ''x3E'' @ esc_value (drop 2 p)
      else esc_bytes c @ esc_value p)"

text \<open>The wrappers add nothing to the writes they check.\<close>

lemma fputc_checked_write [simp]: "fputc_checked ch st = c_write st [ch]"
  by (rule ext) (auto simp: fputc_checked_def split: prod.split dest: c_write_result)

lemma fputs_checked_write [simp]: "fputs_checked text st = c_write st text"
  by (rule ext) (auto simp: fputs_checked_def split: prod.split dest: c_write_result)

lemma escaped_byte_write:
  "(if ch = BSL then c_write st [BSL, BSL] s
    else if ubyte ch \<ge> 0x20 \<and> ubyte ch \<le> 0x7e then c_write st [ch] s
    else c_write st (BSL # CHR ''x'' # hex2_upper ch) s) = c_write st (esc_bytes ch) s"
  by (simp add: esc_bytes_def printable_def hex_escape_def)

lemma put_escaped_bytes_write:
  "put_escaped_bytes st p s = c_write st (concat (map esc_bytes p)) s"
proof (induction p arbitrary: s)
  case (Cons ch p)
  have "put_escaped_bytes st (ch # p) s =
      (case c_write st (esc_bytes ch) s of
         (r, s1) \<Rightarrow> if r \<noteq> 0 then (-1, s1) else c_write st (concat (map esc_bytes p)) s1)"
    by (simp add: escaped_byte_write Cons.IH cong: if_cong)
  then show ?case by (simp add: c_write_append)
qed simp

lemma put_escaped_value_write: "put_escaped_value st p s = c_write st (esc_value p) s"
proof (induction p arbitrary: s rule: esc_value.induct)
  case (2 ch p)
  show ?case
  proof (cases "take 3 (ch # p) = '' ->''")
    case True
    then have "put_escaped_value st (ch # p) s =
        (case c_write st ('' -'' @ [BSL] @ ''x3E'') s of
           (r, s1) \<Rightarrow> if r \<noteq> 0 then (-1, s1) else c_write st (esc_value (drop 2 p)) s1)"
      by (simp add: "2.IH"(1) del: append.simps cong: if_cong)
    with True show ?thesis by (simp only: c_write_append) simp
  next
    case False
    have "put_escaped_value st (ch # p) s =
        (case c_write st (esc_bytes ch) s of
           (r, s1) \<Rightarrow> if r \<noteq> 0 then (-1, s1) else c_write st (esc_value p) s1)"
      unfolding put_escaped_value.simps if_not_P [OF False]
      by (simp add: escaped_byte_write "2.IH"(2) [OF False] cong: if_cong)
    also have "\<dots> = c_write st (esc_bytes ch @ esc_value p) s"
      by (rule c_write_append)
    finally show ?thesis
      unfolding esc_value.simps if_not_P [OF False] .
  qed
qed simp

lemma diag_puts_escaped_write:
  "diag_puts_escaped text = ignore_result (c_write Stderr (concat (map esc_bytes text)))"
  by (rule ext) (simp add: diag_puts_escaped_def ignore_result_def put_escaped_bytes_write)

text \<open>The records, as the text each emitter writes.\<close>

definition added_line :: "cstr \<Rightarrow> cstr \<Rightarrow> char list" where
  "added_line key v = ''+ '' @ key @ ''='' @ esc_value v @ [LF]"

definition removed_line :: "cstr \<Rightarrow> cstr \<Rightarrow> char list" where
  "removed_line key v = ''- '' @ key @ ''='' @ esc_value v @ [LF]"

definition changed_line :: "cstr \<Rightarrow> cstr \<Rightarrow> cstr \<Rightarrow> char list" where
  "changed_line key v w = ''~ '' @ key @ '': '' @ esc_value v @ '' -> '' @ esc_value w @ [LF]"

lemma put_escaped_value_action: "put_escaped_value st p = c_write st (esc_value p)"
  by (rule ext) (rule put_escaped_value_write)

lemma emit_writes:
  "emit_added key v = c_write Stdout (added_line key v)"
  "emit_removed key v = c_write Stdout (removed_line key v)"
  "emit_changed key v w = c_write Stdout (changed_line key v w)"
  by (rule ext, simp add: emit_added_def emit_removed_def emit_changed_def added_line_def
      removed_line_def changed_line_def put_escaped_value_action del: or_chain.simps)+

section \<open>Values are printable, decodable and free of the separator\<close>

lemma unescape1_plain: "c \<noteq> BSL \<Longrightarrow> unescape (c # r) = map_option (Cons c) (unescape r)"
  by (rule unescape_step) simp

lemma unescape_arrow: "unescape ('' -'' @ [BSL] @ ''x3E'' @ r) = map_option ((@) '' ->'') (unescape r)"
proof -
  have "unescape1 (BSL # ''x3E'' @ r) = Some (CHR ''>'', r)"
    by (simp add: hexval_def char_of_eq_iff)
  then have "unescape (BSL # ''x3E'' @ r) = map_option (Cons (CHR ''>'')) (unescape r)"
    by (rule unescape_step)
  then show ?thesis
    by (cases "unescape r") (simp_all add: unescape1_plain)
qed

lemma take3_split: "take 3 t = [a, b, c] \<Longrightarrow> t = a # b # c # drop 3 t"
  by (metis append_take_drop_id append_Cons append_Nil)

lemma unescape_esc_value: "unescape (esc_value p) = Some p"
proof (induction p rule: esc_value.induct)
  case (2 ch p)
  show ?case
  proof (cases "take 3 (ch # p) = '' ->''")
    case True
    then have p: "ch # p = '' ->'' @ drop 2 p" using take3_split [of "ch # p"] by simp
    have "unescape (esc_value (ch # p)) = map_option ((@) '' ->'') (unescape (esc_value (drop 2 p)))"
      unfolding esc_value.simps if_P [OF True] by (rule unescape_arrow)
    also have "\<dots> = Some ('' ->'' @ drop 2 p)"
      by (simp add: "2.IH"(1) [OF True])
    finally show ?thesis by (simp only: p)
  next
    case False
    then show ?thesis
      by (simp only: esc_value.simps if_False "2.IH"(2) [OF False]
          unescape_step [OF bytes_esc.unescape1_esc] option.map)
  qed
qed simp

lemma esc_value_inject [simp]: "esc_value v = esc_value w \<longleftrightarrow> v = w"
  by (metis option.inject unescape_esc_value)

lemma printable_esc_value: "d \<in> set (esc_value p) \<Longrightarrow> printable d"
proof (induction p rule: esc_value.induct)
  case (2 ch p)
  have "printable (CHR ''-'')" "printable SP" "printable (CHR ''3'')" "printable (CHR ''E'')"
    by (simp_all add: printable_def)
  with 2 show ?case
    by (auto dest: bytes_esc.printable_esc split: if_splits simp del: take_Suc_Cons)
qed simp

text \<open>The three bytes that start a separator, and a text that holds them nowhere.\<close>

fun arrow_free :: "char list \<Rightarrow> bool" where
  "arrow_free [] = True"
| "arrow_free (c # p) = (take 3 (c # p) \<noteq> '' ->'' \<and> arrow_free p)"

lemma arrow_free_no_split: "arrow_free (a @ '' ->'' @ b) = False"
  by (induction a) auto

lemma arrow_free_skip: "SP \<notin> set a \<Longrightarrow> arrow_free (a @ t) = arrow_free t"
  by (induction a) auto

lemma hex_upper_not_SP: "d < 16 \<Longrightarrow> hex_upper d \<noteq> SP"
proof
  assume "d < 16" and "hex_upper d = SP"
  then have "ubyte (hex_upper d) = 32" by simp
  with \<open>d < 16\<close> show False by (simp add: ubyte_hex_upper split: if_splits)
qed

lemma SP_esc_bytes: "SP \<in> set (esc_bytes c) \<longleftrightarrow> c = SP"
  by (auto simp: esc_bytes_def hex_escape_def hex2_upper_def printable_def hex_upper_not_SP
      dest: sym [of SP])

lemma esc_value_head:
  assumes "esc_value p = x # t" and "x \<noteq> SP" and "x \<noteq> BSL"
  shows "\<exists>q. p = x # q \<and> t = esc_value q"
proof (cases p)
  case (Cons c q)
  have "take 3 (c # q) \<noteq> '' ->''" using assms Cons by auto
  then have e: "esc_bytes c @ esc_value q = x # t"
    using assms(1) unfolding Cons esc_value.simps by (simp only: if_False)
  then have "esc_bytes c = [c]"
    using assms(3) by (auto simp: esc_bytes_def hex_escape_def split: if_splits)
  with e Cons show ?thesis by simp
qed (use assms in simp)

lemma arrow_free_esc_value: "arrow_free (esc_value p)"
proof (induction p rule: esc_value.induct)
  case (2 c p)
  show ?case
  proof (cases "take 3 (c # p) = '' ->''")
    case True
    have "arrow_free ('' -'' @ [BSL] @ ''x3E'' @ esc_value (drop 2 p))"
      using "2.IH"(1) [OF True] by simp
    then show ?thesis
      unfolding esc_value.simps if_P [OF True] .
  next
    case na: False
    have "arrow_free (esc_bytes c @ esc_value p)"
    proof (cases "c = SP")
      case True
      have "take 3 (SP # esc_value p) \<noteq> '' ->''"
      proof
        assume "take 3 (SP # esc_value p) = '' ->''"
        then obtain t where "esc_value p = CHR ''-'' # CHR ''>'' # t"
          using take3_split [of "SP # esc_value p"] by force
        then obtain q where "p = CHR ''-'' # q" "esc_value q = CHR ''>'' # t"
          by (auto dest: esc_value_head)
        then obtain q2 where "p = CHR ''-'' # CHR ''>'' # q2"
          by (auto dest: esc_value_head)
        with na True show False by simp
      qed
      moreover have "esc_bytes SP = [SP]" by (simp add: esc_bytes_def printable_def)
      ultimately show ?thesis
        unfolding True using "2.IH"(2) [OF na] by simp
    next
      case False
      then show ?thesis
        using "2.IH"(2) [OF na] by (simp add: arrow_free_skip SP_esc_bytes)
    qed
    then show ?thesis
      unfolding esc_value.simps if_not_P [OF na] .
  qed
qed simp

end
