(* ===== verification/Lines.thy ===== *)
theory Lines
  imports Prelude
begin

text \<open>
  Cutting a text into lines, each with its newline (\<open>lines_of\<close>): the reference the line readers
  and the parsers of printed records are stated with.
\<close>

section \<open>Lines of a text\<close>

fun split_line :: "char list \<Rightarrow> char list \<times> char list" where
  "split_line [] = ([], [])"
| "split_line (c # cs) =
     (if c = LF then ([LF], cs) else (c # fst (split_line cs), snd (split_line cs)))"

lemma split_line_append: "fst (split_line bs) @ snd (split_line bs) = bs"
  by (induction bs) auto

lemma split_line_length: "length (fst (split_line bs)) + length (snd (split_line bs)) = length bs"
  using split_line_append [of bs] by (metis length_append)

lemma split_line_set: "set bs = set (fst (split_line bs)) \<union> set (snd (split_line bs))"
  using split_line_append [of bs] by (metis set_append)

lemma split_line_nonempty: "bs \<noteq> [] \<Longrightarrow> fst (split_line bs) \<noteq> []"
  by (cases bs) auto

function lines_of :: "char list \<Rightarrow> char list list" where
  "lines_of bs = (if bs = [] then [] else fst (split_line bs) # lines_of (snd (split_line bs)))"
  by pat_completeness auto
termination
proof (relation "measure length")
  fix bs :: "char list" assume "bs \<noteq> []"
  then have "0 < length (fst (split_line bs))" by (simp add: split_line_nonempty)
  with split_line_length [of bs] show "(snd (split_line bs), bs) \<in> measure length"
    by (simp del: length_greater_0_conv)
qed simp

declare lines_of.simps [simp del]

lemma lines_of_Nil [simp]: "lines_of [] = []"
  by (simp add: lines_of.simps)

lemma lines_of_step: "bs \<noteq> [] \<Longrightarrow> lines_of bs = fst (split_line bs) # lines_of (snd (split_line bs))"
  by (simp add: lines_of.simps [of bs])

lemma concat_lines_of: "concat (lines_of bs) = bs"
proof (induction bs rule: lines_of.induct)
  case (1 bs)
  then show ?case by (cases "bs = []") (simp_all add: lines_of_step split_line_append)
qed

lemma lines_of_concat:
  assumes "\<forall>c \<in> set ls. \<exists>b. c = b @ [LF] \<and> LF \<notin> set b"
  shows "lines_of (concat ls) = ls"
  using assms
proof (induction ls)
  case (Cons c ls)
  then obtain b where c: "c = b @ [LF]" "LF \<notin> set b" by auto
  have "split_line (b @ [LF] @ t) = (b @ [LF], t)" for t
    using c(2) by (induction b) auto
  from this [of "concat ls"] c have "split_line (concat (c # ls)) = (c, concat ls)" by simp
  moreover have "concat (c # ls) \<noteq> []" using c by simp
  ultimately show ?case using Cons by (simp add: lines_of_step del: concat.simps)
qed simp

end
