(* ===== verification/Sysdiff_Spec.thy ===== *)
theory Sysdiff_Spec
  imports Sysdiff_Parse Lines
begin

text \<open>
  What a well-formed snapshot is, stated on the bytes of the file without the reader
  (\<open>snapshot_spec\<close>), and the proof that the parser of \<open>src/sysdiff.c\<close> accepts exactly these
  and returns their entries sorted by key.
\<close>

section \<open>Well-formed snapshots\<close>

definition key_ok :: "cstr \<Rightarrow> bool" where
  "key_ok k \<longleftrightarrow> k \<noteq> [] \<and> (\<forall>c \<in> set k. is_key_byte c) \<and> CHR ''.'' \<in> set k
     \<and> hd k \<noteq> CHR ''/'' \<and> last k \<noteq> CHR ''.'' \<and> (\<nexists>a b. k = a @ ''..'' @ b)"

definition is_entry_line :: "char list \<Rightarrow> bool" where
  "is_entry_line l \<longleftrightarrow> \<not> is_blank_line l \<and> \<not> is_comment_line l"

definition line_entry :: "char list \<Rightarrow> entry" where
  "line_entry l = \<lparr>ent_key = takeWhile (\<lambda>c. c \<noteq> CHR ''='') l,
                   ent_val = tl (dropWhile (\<lambda>c. c \<noteq> CHR ''='') l)\<rparr>"

definition line_ok :: "char list \<Rightarrow> bool" where
  "line_ok l \<longleftrightarrow> length l \<le> SYSDIFF_MAX_LINE_BYTES
     \<and> (is_entry_line l \<longrightarrow> CHR ''='' \<in> set l \<and> key_ok (ent_key (line_entry l)))"

definition text_lines :: "char list \<Rightarrow> char list list" where
  "text_lines bs = map strip_line_ending (lines_of bs)"

definition text_entries :: "char list \<Rightarrow> entry list" where
  "text_entries bs = map line_entry (filter is_entry_line (text_lines bs))"

definition snapshot_spec :: "char list \<Rightarrow> entry list option" where
  "snapshot_spec bs =
     (if NUL \<notin> set bs \<and> length bs \<le> SYSDIFF_MAX_SNAPSHOT_BYTES
         \<and> (\<forall>l \<in> set (text_lines bs). line_ok l)
         \<and> length (text_entries bs) \<le> SYSDIFF_MAX_SNAPSHOT_ENTRIES
         \<and> distinct (map ent_key (text_entries bs))
      then Some (sort_key ent_key (text_entries bs)) else None)"

lemma text_lines_Nil [simp]: "text_lines [] = []"
  by (simp add: text_lines_def)

lemma text_entries_Nil [simp]: "text_entries [] = []"
  by (simp add: text_entries_def)

lemma text_lines_step:
  "bs \<noteq> [] \<Longrightarrow>
     text_lines bs = strip_line_ending (fst (split_line bs)) # text_lines (snd (split_line bs))"
  by (simp add: text_lines_def lines_of_step)

lemma text_entries_step:
  "bs \<noteq> [] \<Longrightarrow> text_entries bs =
     (if is_entry_line (strip_line_ending (fst (split_line bs)))
      then [line_entry (strip_line_ending (fst (split_line bs)))] else [])
     @ text_entries (snd (split_line bs))"
  by (simp add: text_entries_def text_lines_step)

section \<open>The key syntax\<close>

definition has_dotdot :: "cstr \<Rightarrow> bool" where
  "has_dotdot k \<longleftrightarrow> (\<exists>a b. k = a @ ''..'' @ b)"

lemma has_dotdot_simps [simp]:
  "\<not> has_dotdot []"
  "has_dotdot (c # k) \<longleftrightarrow> has_dotdot k \<or> c = CHR ''.'' \<and> k \<noteq> [] \<and> hd k = CHR ''.''"
  by (auto simp: has_dotdot_def Cons_eq_append_conv neq_Nil_conv) blast

lemma is_key_byte_dot [simp]: "is_key_byte (CHR ''.'')"
  by (simp add: is_key_byte_def)

lemma valid_key_loop_iff:
  "valid_key_loop prev d k \<longleftrightarrow>
     (\<forall>c \<in> set k. is_key_byte c) \<and> (d \<or> CHR ''.'' \<in> set k)
     \<and> \<not> has_dotdot k \<and> \<not> (prev = Some (CHR ''.'') \<and> k \<noteq> [] \<and> hd k = CHR ''.'')"
  by (induction prev d k rule: valid_key_loop.induct) auto

lemma is_valid_key_iff: "is_valid_key k \<longleftrightarrow> key_ok k"
  by (auto simp: is_valid_key_def key_ok_def valid_key_loop_iff has_dotdot_def)

lemma key_byte_not_special:
  "is_key_byte c \<Longrightarrow> c \<noteq> CHR ''='' \<and> c \<noteq> CHR '':'' \<and> c \<noteq> SP \<and> c \<noteq> NUL \<and> c \<noteq> LF \<and> c \<noteq> TAB
     \<and> c \<noteq> CHR ''#'' \<and> c \<noteq> CR"
  by (auto simp: is_key_byte_def)

section \<open>Reading one line\<close>

text \<open>Whatever fails: a line that is returned is the next line of the file.\<close>

lemma read_line_loop_OK:
  assumes "read_line_loop e cs b t s = (LINE_OK, b1, cs1, t1, s1)" and "t \<le> SYSDIFF_MAX_SNAPSHOT_BYTES"
  shows "content b1 = content b @ fst (split_line cs) \<and> cs1 = snd (split_line cs)
    \<and> t1 = t + length (fst (split_line cs)) \<and> t1 \<le> SYSDIFF_MAX_SNAPSHOT_BYTES
    \<and> NUL \<notin> set (fst (split_line cs)) \<and> content b1 \<noteq> []
    \<and> (LF \<notin> set (fst (split_line cs)) \<longrightarrow> \<not> e)"
  using assms
proof (induction cs arbitrary: b t s)
  case Nil
  then show ?case by (auto split: if_splits)
next
  case (Cons ch cs)
  show ?case
  proof (cases "t \<ge> SYSDIFF_MAX_SNAPSHOT_BYTES \<or> ch = NUL
      \<or> (ch \<noteq> LF \<and> length (content b) > SYSDIFF_MAX_LINE_BYTES)")
    case True
    with Cons.prems show ?thesis by (auto split: if_splits)
  next
    case False
    with Cons.prems obtain b2 s2 where g: "grow_line b s = (Some b2, s2)"
      by (auto split: if_splits prod.splits option.splits)
    note c = grow_line_content [OF g]
    show ?thesis
    proof (cases "ch = LF")
      case True
      with Cons.prems False g c show ?thesis by (auto simp: Let_def)
    next
      case nl: False
      with Cons.prems False g
      have "read_line_loop e cs (b2\<lparr>content := content b2 @ [ch]\<rparr>) (t + 1) s2
          = (LINE_OK, b1, cs1, t1, s1)" "t + 1 \<le> SYSDIFF_MAX_SNAPSHOT_BYTES"
        by (auto simp: Let_def)
      from Cons.IH [OF this] nl False c show ?thesis by auto
    qed
  qed
qed

lemma read_line_loop_EOF:
  "read_line_loop e cs b t s = (LINE_EOF, b1, cs1, t1, s1) \<Longrightarrow> content b = [] \<Longrightarrow>
     cs = [] \<and> \<not> e \<and> s1 = s"
proof (induction cs arbitrary: b t s)
  case (Cons ch cs)
  have "read_line_loop e cs b t s \<noteq> (LINE_EOF, b1, cs1, t1, s1)" if "content b \<noteq> []" for b t s
    using that
    by (induction cs arbitrary: b t s)
      (auto simp: Let_def split: if_splits prod.splits option.splits)
  with Cons.prems show ?case
    by (auto simp: Let_def split: if_splits prod.splits option.splits)
qed (auto split: if_splits)

text \<open>The buffer always has room for one byte more than it holds, within 128 KiB.\<close>

definition buffer_ok :: "linebuf \<Rightarrow> bool" where
  "buffer_ok b \<longleftrightarrow> (content b = [] \<and> lcap b = 0)
     \<or> (length (content b) < lcap b \<and> 2 \<le> lcap b \<and> lcap b \<le> 131076)"

lemma grow_line_ok:
  assumes "buffer_ok b" and "length (content b) \<le> 65537" and "grow_line b s = (r, s1)"
  shows "s1 = snd (c_malloc s) \<or> s1 = s"
    and "r = None \<Longrightarrow> \<not> fst (c_malloc s)"
    and "r = Some b1 \<Longrightarrow>
           length (content b) + 1 < lcap b1 \<and> lcap b1 \<le> 131076 \<and> content b1 = content b"
  using assms
  by (auto simp: grow_line_def buffer_ok_def SIZE_MAX_def size_times_def checked_size_mul_def
      Let_def split: if_splits prod.splits)

lemma read_line_loop_buffer:
  assumes "read_line_loop e cs b t s = (st, b1, cs1, t1, s1)"
    and "buffer_ok b" and "length (content b) \<le> 65537"
  shows "length (content b1) \<le> 65538 \<and> buffer_ok b1"
  using assms
proof (induction cs arbitrary: b t s)
  case Nil
  then show ?case by (auto split: if_splits)
next
  case (Cons ch cs)
  show ?case
  proof (cases "t \<ge> SYSDIFF_MAX_SNAPSHOT_BYTES \<or> ch = NUL
      \<or> (ch \<noteq> LF \<and> length (content b) > SYSDIFF_MAX_LINE_BYTES)")
    case True
    with Cons.prems show ?thesis by (auto split: if_splits)
  next
    case False
    obtain r s2 where g: "grow_line b s = (r, s2)" by (cases "grow_line b s")
    note ok = grow_line_ok [OF Cons.prems(2,3) g]
    show ?thesis
    proof (cases r)
      case None
      with Cons.prems False g show ?thesis by (auto split: if_splits)
    next
      case (Some b2)
      let ?b = "b2\<lparr>content := content b2 @ [ch]\<rparr>"
      have b: "buffer_ok ?b" using ok(3) [OF Some] by (auto simp: buffer_ok_def)
      show ?thesis
      proof (cases "ch = LF")
        case True
        with Cons.prems False g Some have "b1 = ?b" by (auto simp: Let_def)
        with b ok(3) [OF Some] Cons.prems(3) show ?thesis by simp
      next
        case nl: False
        then have "length (content ?b) \<le> 65537"
          using False ok(3) [OF Some] by (simp add: SYSDIFF_MAX_LINE_BYTES_def)
        moreover from Cons.prems(1) False g Some nl
        have "read_line_loop e cs ?b (t + 1) s2 = (st, b1, cs1, t1, s1)"
          by (auto simp: Let_def)
        ultimately show ?thesis using Cons.IH b by blast
      qed
    qed
  qed
qed

text \<open>
  Memory safety of the line reader: whatever it returns, the bytes it has stored and the
  terminating NUL it stores behind a complete line lie inside the allocation, which never
  exceeds 131076 bytes.
\<close>

theorem read_line_in_bounds:
  assumes "read_line f total_bytes s = (LINE_OK, b, f1, total_bytes1, s1)"
  shows "length (content b) < lcap b \<and> lcap b \<le> 131076 \<and> length (content b) \<le> 65538"
proof -
  from assms obtain cs where
    r: "read_line_loop (rd_error f) (rest f) \<lparr>content = [], lcap = 0\<rparr> total_bytes s
          = (LINE_OK, b, cs, total_bytes1, s1)"
    by (auto simp: read_line_def split: prod.splits)
  have "content b \<noteq> []"
  proof -
    have "st = LINE_OK \<Longrightarrow> read_line_loop e cs c t s = (st, b1, cs1, t1, s1) \<Longrightarrow> content b1 \<noteq> []"
      for st e cs c t s b1 cs1 t1 s1
      by (induction cs arbitrary: c t s)
        (auto simp: Let_def split: if_splits prod.splits option.splits)
    with r show ?thesis by blast
  qed
  moreover have "length (content b) \<le> 65538 \<and> buffer_ok b"
    by (rule read_line_loop_buffer [OF r]) (simp_all add: buffer_ok_def)
  ultimately show ?thesis by (auto simp: buffer_ok_def)
qed

theorem read_line_in_bounds_witness:
  "\<exists>b f1 t1 s1. read_line \<lparr>rest = ''a=b'', rd_error = False, close_errno = None\<rparr> 0 clear_io
       = (LINE_OK, b, f1, t1, s1) \<and> length (content b) < lcap b \<and> lcap b \<le> 131076"
proof -
  have "\<exists>b f1 t1 s1. read_line \<lparr>rest = ''a=b'', rd_error = False, close_errno = None\<rparr> 0 clear_io
       = (LINE_OK, b, f1, t1, s1)"
    by (simp add: read_line_def grow_line_def clear_io_def SYSDIFF_MAX_SNAPSHOT_BYTES_def
        SYSDIFF_MAX_LINE_BYTES_def checked_size_mul_def SIZE_MAX_def c_malloc_def Let_def)
  then show ?thesis using read_line_in_bounds by blast
qed

text \<open>When the allocator grants every request, a good line is read.\<close>

lemma read_line_loop_complete:
  assumes "mem s = None" and "buffer_ok b" and "length (content b) \<le> 65537"
    and "content b @ cs \<noteq> []" and "NUL \<notin> set (fst (split_line cs))"
    and "LF \<in> set cs \<or> \<not> e"
    and "t + length (fst (split_line cs)) \<le> SYSDIFF_MAX_SNAPSHOT_BYTES"
    and "length (content b) + length (filter (\<lambda>c. c \<noteq> LF) (fst (split_line cs))) \<le> 65537"
  shows "\<exists>b1. read_line_loop e cs b t s =
     (LINE_OK, b1, snd (split_line cs), t + length (fst (split_line cs)), s)"
  using assms
proof (induction cs arbitrary: b t)
  case Nil
  then show ?case by auto
next
  case (Cons ch cs)
  obtain r s2 where g: "grow_line b s = (r, s2)" by (cases "grow_line b s")
  note ok = grow_line_ok [OF Cons.prems(2,3) g]
  have s2: "s2 = s" using ok(1) Cons.prems(1) by auto
  obtain b2 where r: "r = Some b2" using ok(2) Cons.prems(1) by (cases r) auto
  let ?b = "b2\<lparr>content := content b2 @ [ch]\<rparr>"
  have pass: "\<not> t \<ge> SYSDIFF_MAX_SNAPSHOT_BYTES" "ch \<noteq> NUL"
    "\<not> (ch \<noteq> LF \<and> length (content b) > SYSDIFF_MAX_LINE_BYTES)"
    using Cons.prems by (auto simp: SYSDIFF_MAX_LINE_BYTES_def split: if_splits)
  show ?case
  proof (cases "ch = LF")
    case True
    with pass g r s2 show ?thesis by (simp add: Let_def)
  next
    case False
    have b: "buffer_ok ?b" using ok(3) [OF r] by (auto simp: buffer_ok_def)
    have "\<exists>b1. read_line_loop e cs ?b (t + 1) s =
        (LINE_OK, b1, snd (split_line cs), t + 1 + length (fst (split_line cs)), s)"
    proof (rule Cons.IH)
      show "length (content ?b) \<le> 65537"
        using Cons.prems(8) False ok(3) [OF r] by simp
    qed (use Cons.prems False ok(3) [OF r] b in auto)
    with pass g r s2 False show ?thesis by (simp add: Let_def)
  qed
qed

end
