(* ===== verification/Sysdiff_Correct.thy ===== *)
theory Sysdiff_Correct
  imports Sysdiff_Spec
begin

text \<open>
  The parser of \<open>src/sysdiff.c\<close> against \<open>snapshot_spec\<close>: soundness under every fault of the
  runtime, completeness when nothing fails, and what is left on stdout.
\<close>

section \<open>Diagnostics leave stdout alone\<close>

lemma out_diag_puts_escaped [simp]: "out (diag_puts_escaped t s) = out s"
  by (simp add: diag_puts_escaped_write)

lemma out_diag_at [simp]: "out (diag_at path n msg s) = out s"
  by (simp add: diag_at_def)

lemma out_c_malloc: "c_malloc s = (ok, s1) \<Longrightarrow> out s1 = out s"
  by (auto dest: c_malloc_frame)

lemma out_validate_no_duplicates [simp]: "out (snd (validate_no_duplicates path snap s)) = out s"
  by (simp add: validate_no_duplicates_def split: option.split)

lemma out_copy_range: "copy_range text n s = (r, s1) \<Longrightarrow> out s1 = out s"
  by (auto simp: copy_range_def split: if_splits option.splits prod.splits dest: out_c_malloc)

lemma out_grow_line: "grow_line b s = (r, s1) \<Longrightarrow> out s1 = out s"
  by (auto simp: grow_line_def Let_def split: if_splits prod.splits dest: out_c_malloc)

lemma out_snapshot_append: "snapshot_append snap k v s = (r, snap1, s1) \<Longrightarrow> out s1 = out s"
  by (auto simp: snapshot_append_def Let_def split: if_splits prod.splits dest: out_c_malloc)

lemma out_read_line_loop:
  "read_line_loop e cs b t s = (st, b1, cs1, t1, s1) \<Longrightarrow> out s1 = out s"
proof (induction cs arbitrary: b t s)
  case (Cons ch cs)
  show ?case
  proof (cases "grow_line b s")
    case (Pair r s2)
    have "out s2 = out s" by (rule out_grow_line [OF Pair])
    with Cons Pair show ?thesis
      by (auto simp: Let_def split: if_splits option.splits)
  qed
qed (auto split: if_splits)

lemma out_read_line: "read_line f t s = (st, b, f1, t1, s1) \<Longrightarrow> out s1 = out s"
  by (auto simp: read_line_def split: prod.splits dest: out_read_line_loop)

lemma out_parse_line: "parse_line path n raw snap s = (r, s1) \<Longrightarrow> out s1 = out s"
  by (auto simp: parse_line_def Let_def dest!: out_copy_range out_snapshot_append
      split: if_splits option.splits prod.splits AppendStatus.splits)

lemma out_parse_lines: "parse_lines path f n t snap s = (r, s1) \<Longrightarrow> out s1 = out s"
proof (induction path f n t snap s arbitrary: r s1 rule: parse_lines.induct)
  case (1 path f n t snap s)
  obtain st b f1 t1 s2 where rl: "read_line f t s = (st, b, f1, t1, s2)"
    by (cases "read_line f t s")
  obtain q s3 where pl: "parse_line path (n + 1) (content b) snap s2 = (q, s3)"
    by (cases "parse_line path (n + 1) (content b) snap s2")
  note o2 = out_read_line [OF rl] and o3 = out_parse_line [OF pl]
  have "st = LINE_OK \<Longrightarrow> q = Some snap1 \<Longrightarrow>
      parse_lines path f1 (n + 1) t1 snap1 s3 = (r, s1) \<Longrightarrow> out s1 = out s3" for snap1
    using "1.IH" rl pl by simp
  with "1.prems" rl pl o2 o3 show ?case
    by (subst (asm) parse_lines.simps) (auto split: if_splits option.splits)
qed

lemma out_parse_snapshot: "out (snd (snd (parse_snapshot fopen path snap s))) = out s"
  by (auto simp: parse_snapshot_def Let_def dest!: out_parse_lines
      split: sum.split option.split prod.split)
    (metis out_validate_no_duplicates snd_conv)+

section \<open>One line\<close>

definition snap_ok :: "snapshot \<Rightarrow> bool" where
  "snap_ok snap \<longleftrightarrow> length (items snap) \<le> cap snap \<and> cap snap \<le> SYSDIFF_MAX_SNAPSHOT_ENTRIES"

lemma items_no_snapshot [simp]: "items no_snapshot = []"
  by (simp add: no_snapshot_def)

lemma snap_ok_no_snapshot [simp]: "snap_ok no_snapshot"
  by (simp add: snap_ok_def no_snapshot_def)

lemma snapshot_append_cases:
  assumes "snapshot_append snap k v s = (r, snap1, s1)" and "snap_ok snap"
  shows "r = APPEND_OK \<Longrightarrow> items snap1 = items snap @ [\<lparr>ent_key = k, ent_val = v\<rparr>] \<and> snap_ok snap1"
    and "r = APPEND_ENTRY_LIMIT \<Longrightarrow> length (items snap) \<ge> SYSDIFF_MAX_SNAPSHOT_ENTRIES"
    and "r = APPEND_ALLOC_ERROR \<Longrightarrow> \<not> fst (c_malloc s)"
    and "mem s = None \<Longrightarrow> s1 = s"
proof -
  have c: "cap snap \<le> 65536"
    using assms(2) by (simp add: snap_ok_def SYSDIFF_MAX_SNAPSHOT_ENTRIES_def)
  then have m: "size_times (cap snap) 2 = cap snap * 2"
    by (simp add: size_times_def)
  have m2: "checked_size_mul n 16 = Some (n * 16)" if "n \<le> 65536" for n
    using that by (simp add: SIZE_MAX_def size_times_def checked_size_mul_def)
  note u = snapshot_append_def snap_ok_def Let_def SYSDIFF_MAX_SNAPSHOT_ENTRIES_def SIZE_MAX_def m m2
  show "r = APPEND_OK \<Longrightarrow> items snap1 = items snap @ [\<lparr>ent_key = k, ent_val = v\<rparr>] \<and> snap_ok snap1"
    "r = APPEND_ENTRY_LIMIT \<Longrightarrow> length (items snap) \<ge> SYSDIFF_MAX_SNAPSHOT_ENTRIES"
    "r = APPEND_ALLOC_ERROR \<Longrightarrow> \<not> fst (c_malloc s)"
    "mem s = None \<Longrightarrow> s1 = s"
    using assms by (auto simp: u split: if_splits prod.splits)
qed

lemma copy_range_cases:
  assumes "copy_range xs n s = (r, s1)"
  shows "r = Some x \<Longrightarrow> x = take n xs"
    and "n \<le> SYSDIFF_MAX_LINE_BYTES \<Longrightarrow> mem s = None \<Longrightarrow> r = Some (take n xs) \<and> s1 = s"
  using assms
  by (auto simp: copy_range_def checked_size_add_def SYSDIFF_MAX_LINE_BYTES_def SIZE_MAX_def
      split: if_splits prod.splits)

lemma strchr_entry:
  assumes "strchr l (CHR ''='') = Some k"
  shows "line_entry l = \<lparr>ent_key = take k l, ent_val = drop (Suc k) l\<rparr>" and "CHR ''='' \<in> set l"
    and "k < length l"
proof -
  from strchr_SomeD [OF assms] obtain a b where
    l: "l = a @ CHR ''='' # b" and a: "CHR ''='' \<notin> set a" and k: "k = length a"
    by (metis length_take less_imp_le_nat min.absorb2)
  from a have "takeWhile (\<lambda>c. c \<noteq> CHR ''='') l = a"
    and "dropWhile (\<lambda>c. c \<noteq> CHR ''='') l = CHR ''='' # b"
    unfolding l by (auto simp: takeWhile_append dropWhile_append)
  then show "line_entry l = \<lparr>ent_key = take k l, ent_val = drop (Suc k) l\<rparr>"
    by (simp add: line_entry_def l k)
  show "CHR ''='' \<in> set l" "k < length l" by (simp_all add: l k)
qed

lemma parse_line_sound:
  assumes "parse_line path n raw snap s = (Some snap1, s1)" and "snap_ok snap"
  defines "l \<equiv> strip_line_ending raw"
  shows "line_ok l \<and> snap_ok snap1
    \<and> items snap1 = items snap @ (if is_entry_line l then [line_entry l] else [])"
proof (cases "is_entry_line l")
  case False
  with assms show ?thesis
    by (auto simp: parse_line_def is_entry_line_def line_ok_def Let_def split: if_splits)
next
  case True
  with assms(1) have len: "length l \<le> SYSDIFF_MAX_LINE_BYTES"
    by (auto simp: parse_line_def l_def Let_def split: if_splits)
  with assms(1) True obtain i where i: "strchr l (CHR ''='') = Some i"
    by (auto simp: parse_line_def is_entry_line_def l_def Let_def split: option.splits if_splits)
  from assms(1) True len i obtain k v s2 s3 s4 where
    ok: "is_valid_key (take i l)" and k: "copy_range l i s = (Some k, s2)"
    and v: "copy_range (drop (i + 1) l) (length l - i - 1) s2 = (Some v, s3)"
    and app: "snapshot_append snap k v s3 = (APPEND_OK, snap1, s4)"
    by (auto simp: parse_line_def is_entry_line_def l_def [symmetric] Let_def
        split: option.splits if_splits prod.splits AppendStatus.splits)
  have "k = take i l" "v = drop (Suc i) l"
    using copy_range_cases(1) [OF k] copy_range_cases(1) [OF v] by auto
  with snapshot_append_cases(1) [OF app assms(2)] strchr_entry [OF i] ok len
  show ?thesis by (simp add: True line_ok_def is_valid_key_iff)
qed

lemma parse_line_complete:
  fixes raw :: "char list"
  assumes "mem s = None" and "snap_ok snap"
  defines "l \<equiv> strip_line_ending raw"
  assumes "line_ok l" and "is_entry_line l \<Longrightarrow> length (items snap) < SYSDIFF_MAX_SNAPSHOT_ENTRIES"
  shows "\<exists>snap1. parse_line path n raw snap s = (Some snap1, s)"
proof (cases "is_entry_line l")
  case False
  with assms(4) show ?thesis
    by (auto simp: parse_line_def is_entry_line_def line_ok_def l_def Let_def)
next
  case True
  with assms(4) obtain i where i: "strchr l (CHR ''='') = Some i"
    by (cases "strchr l (CHR ''='')") (auto simp: line_ok_def strchr_None)
  note e = strchr_entry [OF i]
  from assms(4) True have len: "length l \<le> SYSDIFF_MAX_LINE_BYTES" and ok: "is_valid_key (take i l)"
    by (simp_all add: line_ok_def is_valid_key_iff e(1))
  then have pos: "i \<noteq> 0" by (auto simp: is_valid_key_def split: if_splits)
  have k: "copy_range l i s = (Some (take i l), s)"
    using copy_range_cases(2) [where n = i and xs = l and s = s] e(3) len assms(1)
    by (cases "copy_range l i s") auto
  have v: "copy_range (drop (i + 1) l) (length l - i - 1) s = (Some (drop (Suc i) l), s)"
    using copy_range_cases(2) [where n = "length l - i - 1" and xs = "drop (i + 1) l" and s = s]
      len assms(1)
    by (cases "copy_range (drop (i + 1) l) (length l - i - 1) s") auto
  obtain r snap1 s1 where app:
    "snapshot_append snap (take i l) (drop (Suc i) l) s = (r, snap1, s1)"
    by (cases "snapshot_append snap (take i l) (drop (Suc i) l) s")
  note c = snapshot_append_cases [OF app assms(2)]
  have "r = APPEND_OK" "s1 = s"
    using c assms(1) assms(5) [OF True] by (cases r; auto)+
  with app k v pos len i ok True show ?thesis
    by (auto simp: parse_line_def l_def [symmetric] is_entry_line_def Let_def)
qed

section \<open>All lines\<close>

lemma split_line_LF: "LF \<notin> set (fst (split_line cs)) \<Longrightarrow> snd (split_line cs) = [] \<and> LF \<notin> set cs"
  by (induction cs) (auto split: if_splits)

lemma split_line_form:
  "fst (split_line cs) = filter (\<lambda>c. c \<noteq> LF) (fst (split_line cs)) @ (if LF \<in> set cs then [LF] else [])"
  by (induction cs) auto

lemma strip_line_ending_length:
  "length (filter (\<lambda>c. c \<noteq> LF) (fst (split_line cs)))
     \<le> length (strip_line_ending (fst (split_line cs))) + 1"
proof -
  obtain l where l: "l = filter (\<lambda>c. c \<noteq> LF) (fst (split_line cs))" by simp
  then have "LF \<notin> set l" by simp
  then have "l \<noteq> [] \<Longrightarrow> last l \<noteq> LF" using last_in_set by metis
  then show ?thesis
    by (subst (2) split_line_form) (auto simp: strip_line_ending_def Let_def l [symmetric])
qed

lemma parse_lines_sound:
  assumes "parse_lines path f n t snap s = (Some snap1, s1)"
    and "t \<le> SYSDIFF_MAX_SNAPSHOT_BYTES" and "snap_ok snap"
  shows "\<not> rd_error f \<and> NUL \<notin> set (rest f) \<and> t + length (rest f) \<le> SYSDIFF_MAX_SNAPSHOT_BYTES
    \<and> (\<forall>l \<in> set (text_lines (rest f)). line_ok l) \<and> snap_ok snap1
    \<and> items snap1 = items snap @ text_entries (rest f)"
  using assms
proof (induction path f n t snap s arbitrary: snap1 s1 rule: parse_lines.induct)
  case (1 path f n t snap s)
  obtain st b f1 t1 s2 where rl: "read_line f t s = (st, b, f1, t1, s2)"
    by (cases "read_line f t s")
  then have loop: "read_line_loop (rd_error f) (rest f) \<lparr>content = [], lcap = 0\<rparr> t s
      = (st, b, rest f1, t1, s2)" and f1: "rd_error f1 = rd_error f"
    by (auto simp: read_line_def split: prod.splits)
  from "1.prems"(1) rl have "st = LINE_EOF \<or> st = LINE_OK"
    by (subst (asm) parse_lines.simps) (auto split: if_splits)
  then show ?case
  proof
    assume "st = LINE_EOF"
    with loop have "rest f = []" "\<not> rd_error f"
      using read_line_loop_EOF by (metis linebuf.select_convs(1))+
    with "1.prems" rl \<open>st = LINE_EOF\<close> show ?thesis
      by (subst (asm) parse_lines.simps) simp
  next
    assume st: "st = LINE_OK"
    note ok = read_line_loop_OK [OF loop [unfolded st] "1.prems"(2), simplified]
    then have ne: "rest f \<noteq> []" by auto
    obtain q s3 where pl: "parse_line path (n + 1) (content b) snap s2 = (q, s3)"
      by (cases "parse_line path (n + 1) (content b) snap s2")
    with "1.prems"(1) rl st obtain snap2 where q: "q = Some snap2"
      and rec: "parse_lines path f1 (n + 1) t1 snap2 s3 = (Some snap1, s1)"
      by (subst (asm) parse_lines.simps) (auto split: option.splits)
    note ps = parse_line_sound [OF pl [unfolded q] "1.prems"(3)]
    have "\<not> rd_error f1 \<and> NUL \<notin> set (rest f1) \<and> t1 + length (rest f1) \<le> SYSDIFF_MAX_SNAPSHOT_BYTES
      \<and> (\<forall>l \<in> set (text_lines (rest f1)). line_ok l) \<and> snap_ok snap1
      \<and> items snap1 = items snap2 @ text_entries (rest f1)"
      by (rule "1.IH" [OF rl [symmetric] refl refl refl _ st pl [symmetric] q rec])
        (use st ok ps in auto)
    with ps ok f1 ne split_line_length [of "rest f"] split_line_set [of "rest f"] show ?thesis
      by (auto simp: text_lines_step text_entries_step split: if_splits)
  qed
qed

lemma read_line_loop_at_EOF: "read_line_loop False [] \<lparr>content = [], lcap = 0\<rparr> t s
    = (LINE_EOF, \<lparr>content = [], lcap = 0\<rparr>, [], t, s)"
  by simp

lemma parse_lines_complete:
  assumes "mem s = None" and "snap_ok snap" and "\<not> rd_error f" and "NUL \<notin> set (rest f)"
    and "t + length (rest f) \<le> SYSDIFF_MAX_SNAPSHOT_BYTES"
    and "\<forall>l \<in> set (text_lines (rest f)). line_ok l"
    and "length (items snap) + length (text_entries (rest f)) \<le> SYSDIFF_MAX_SNAPSHOT_ENTRIES"
  shows "\<exists>snap1. parse_lines path f n t snap s = (Some snap1, s)"
  using assms
proof (induction "rest f" arbitrary: f n t snap rule: length_induct)
  case 1
  note IH = "1.hyps" [rule_format, OF _ refl]
  show ?case
  proof (cases "rest f = []")
    case True
    then have "read_line f t s = (LINE_EOF, \<lparr>content = [], lcap = 0\<rparr>, f\<lparr>rest := []\<rparr>, t, s)"
      using "1.prems" by (simp add: read_line_def)
    then show ?thesis by (subst parse_lines.simps) simp
  next
    case ne: False
    let ?raw = "fst (split_line (rest f))" and ?cs = "snd (split_line (rest f))"
    let ?l = "strip_line_ending ?raw" and ?f1 = "f\<lparr>rest := ?cs\<rparr>"
    note len = split_line_length [of "rest f"] and sets = split_line_set [of "rest f"]
    from "1.prems"(6) ne have lok: "line_ok ?l" by (simp add: text_lines_step)
    have "\<exists>b. read_line_loop (rd_error f) (rest f) \<lparr>content = [], lcap = 0\<rparr> t s =
        (LINE_OK, b, ?cs, t + length ?raw, s)"
    proof (rule read_line_loop_complete)
      have "length ?l \<le> 65536" using lok by (simp add: line_ok_def SYSDIFF_MAX_LINE_BYTES_def)
      then show "length (content \<lparr>content = [], lcap = 0\<rparr>)
          + length (filter (\<lambda>c. c \<noteq> LF) ?raw) \<le> 65537"
        using strip_line_ending_length [of "rest f"] by simp
    qed (use "1.prems" ne len sets in \<open>auto simp: buffer_ok_def\<close>)
    then obtain b where
      loop: "read_line_loop (rd_error f) (rest f) \<lparr>content = [], lcap = 0\<rparr> t s =
        (LINE_OK, b, ?cs, t + length ?raw, s)" by blast
    then have rl: "read_line f t s = (LINE_OK, b, ?f1, t + length ?raw, s)"
      by (simp add: read_line_def)
    have b: "content b = ?raw"
      using read_line_loop_OK [OF loop] "1.prems"(5) by simp
    have room: "is_entry_line ?l \<Longrightarrow> length (items snap) < SYSDIFF_MAX_SNAPSHOT_ENTRIES"
      using "1.prems"(7) ne by (simp add: text_entries_step)
    from parse_line_complete [OF "1.prems"(1,2) lok room]
    obtain snap2 where pl: "parse_line path (n + 1) ?raw snap s = (Some snap2, s)" by blast
    note ps = parse_line_sound [OF pl "1.prems"(2)]
    have "\<exists>snap1. parse_lines path ?f1 (n + 1) (t + length ?raw) snap2 s = (Some snap1, s)"
    proof (rule IH)
      show "length (rest ?f1) < length (rest f)"
        using read_line_shrinks [OF rl] .
      show "length (items snap2) + length (text_entries (rest ?f1)) \<le> SYSDIFF_MAX_SNAPSHOT_ENTRIES"
        using "1.prems"(7) ps ne by (simp add: text_entries_step split: if_splits)
    qed (use "1.prems" ps ne len sets in \<open>auto simp: text_lines_step\<close>)
    with rl pl b show ?thesis by (subst parse_lines.simps) simp
  qed
qed

section \<open>One snapshot\<close>

lemma sorted_keys_distinct_iff:
  "sorted (map ent_key es) \<Longrightarrow> duplicate_key es = None \<longleftrightarrow> distinct (map ent_key es)"
proof (induction es rule: duplicate_key.induct)
  case (1 a b es)
  then show ?case by (auto simp: less_le_not_le dest: order_antisym)
qed auto

lemma sort_if_long:
  "(if length (items sn) > 1 then sn\<lparr>items := sort_key ent_key (items sn)\<rparr> else sn)
     = sn\<lparr>items := sort_key ent_key (items sn)\<rparr>"
  using sort_key_trivial [of "items sn" ent_key] by (auto split: if_splits)

lemma distinct_sort_key: "distinct (map f (sort_key f xs)) \<longleftrightarrow> distinct (map f xs)"
  by (metis mset_map mset_eq_imp_distinct_iff mset_sort)

lemma duplicate_key_sort:
  "duplicate_key (sort_key ent_key es) = None \<longleftrightarrow> distinct (map ent_key es)"
  by (simp add: sorted_keys_distinct_iff distinct_sort_key)

text \<open>
  Nothing that goes wrong makes the parser accept what is not a snapshot: whichever
  allocation, read or close fails, a status of 0 comes with exactly the entries of a
  well-formed file, sorted by key, any other outcome is status 2 with an empty snapshot, and
  stdout is never written to.
\<close>

lemma parse_snapshot_accepts:
  assumes "parse_snapshot fopen path no_snapshot s = (status, snap, s1)"
  shows "(status = 0 \<or> status = 2) \<and> out s1 = out s
    \<and> (status = 2 \<longrightarrow> snap = no_snapshot)
    \<and> (status = 0 \<longrightarrow> (\<exists>f. fopen path = Inr f \<and> \<not> rd_error f \<and> close_errno f = None
          \<and> snapshot_spec (rest f) = Some (items snap)))"
proof (cases "status = 0")
  case False
  with assms have "status = 2 \<and> snap = no_snapshot"
    by (auto simp: parse_snapshot_def snapshot_free_def Let_def
        split: sum.splits option.splits prod.splits if_splits)
  with out_parse_snapshot [of fopen path no_snapshot s] assms show ?thesis by simp
next
  case True
  with assms obtain f snap1 s2 where f: "fopen path = Inr f" "close_errno f = None"
    and p: "parse_lines path f 0 0 no_snapshot s = (Some snap1, s2)"
    and snap: "items snap = sort_key ent_key (items snap1)"
    and dup: "duplicate_key (sort_key ent_key (items snap1)) = None"
    unfolding parse_snapshot_def validate_no_duplicates_def Let_def sort_if_long
    by (auto split: sum.splits option.splits prod.splits if_splits)
  from parse_lines_sound [OF p] have ok: "\<not> rd_error f \<and> NUL \<notin> set (rest f)
    \<and> length (rest f) \<le> SYSDIFF_MAX_SNAPSHOT_BYTES \<and> (\<forall>l \<in> set (text_lines (rest f)). line_ok l)
    \<and> snap_ok snap1 \<and> items snap1 = text_entries (rest f)"
    by simp
  then have "snapshot_spec (rest f) = Some (items snap)"
    using dup snap by (auto simp: snapshot_spec_def snap_ok_def duplicate_key_sort)
  with True f ok out_parse_snapshot [of fopen path no_snapshot s] assms show ?thesis by auto
qed

lemma parse_snapshot_complete:
  assumes "mem s = None" and "fopen path = Inr f" and "\<not> rd_error f" and "close_errno f = None"
    and "snapshot_spec (rest f) = Some es"
  shows "\<exists>snap. parse_snapshot fopen path no_snapshot s = (0, snap, s) \<and> items snap = es"
proof -
  from assms(3,5) obtain snap1 where p: "parse_lines path f 0 0 no_snapshot s = (Some snap1, s)"
    using parse_lines_complete [where f = f and s = s and snap = no_snapshot and t = 0
        and path = path and n = 0] assms(1)
    by (auto simp: snapshot_spec_def split: if_splits)
  from parse_lines_sound [OF p] have "items snap1 = text_entries (rest f)"
    by simp
  with assms(5) have "duplicate_key (sort_key ent_key (items snap1)) = None"
    and "es = sort_key ent_key (items snap1)"
    by (simp_all add: duplicate_key_sort snapshot_spec_def split: if_splits)
  with p assms(2,4) show ?thesis
    unfolding parse_snapshot_def Let_def sort_if_long by (simp add: validate_no_duplicates_def)
qed

text \<open>
  C5. The parser is complete: with memory to spare, it returns 0 for a readable file exactly
  when the bytes of the file are a well-formed snapshot (key syntax, separators, no NUL, the
  limits on lines, bytes and entries, no duplicate key), and no read or close error occurred.
\<close>

theorem parse_snapshot_exact:
  assumes "mem s = None" and "fopen path = Inr f"
  shows "fst (parse_snapshot fopen path no_snapshot s) = 0 \<longleftrightarrow>
    \<not> rd_error f \<and> close_errno f = None \<and> snapshot_spec (rest f) \<noteq> None"
proof
  assume "fst (parse_snapshot fopen path no_snapshot s) = 0"
  then obtain snap s1 where "parse_snapshot fopen path no_snapshot s = (0, snap, s1)"
    by (cases "parse_snapshot fopen path no_snapshot s") auto
  from parse_snapshot_accepts [OF this] assms(2)
  show "\<not> rd_error f \<and> close_errno f = None \<and> snapshot_spec (rest f) \<noteq> None" by auto
next
  assume "\<not> rd_error f \<and> close_errno f = None \<and> snapshot_spec (rest f) \<noteq> None"
  with parse_snapshot_complete [where fopen = fopen and path = path, OF assms] show "fst (parse_snapshot fopen path no_snapshot s) = 0"
    by fastforce
qed

text \<open>
  Which sorting algorithm \<open>qsort\<close> is does not matter: any rearrangement that is sorted by key
  has the same duplicate, and without duplicates it is the same list.
\<close>

lemma qsort_any:
  assumes "mset es1 = mset es" and "sorted (map ent_key es1)"
  shows "(duplicate_key es1 = None \<longleftrightarrow> duplicate_key (sort_key ent_key es) = None)
    \<and> (duplicate_key es1 = None \<longrightarrow> es1 = sort_key ent_key es)"
proof -
  have d: "distinct (map ent_key es1) \<longleftrightarrow> distinct (map ent_key es)"
    by (metis assms(1) mset_map mset_eq_imp_distinct_iff)
  have "distinct (map ent_key es1) \<Longrightarrow> es1 = sort_key ent_key es"
  proof -
    assume "distinct (map ent_key es1)"
    then have "inj_on ent_key (set es1)" by (simp add: distinct_map)
    moreover have "set es1 = set es" by (metis assms(1) set_mset_mset)
    ultimately show "es1 = sort_key ent_key es"
      using sort_key_inj_key_eq [OF assms(1) [symmetric] _ assms(2)] by simp
  qed
  with d show ?thesis
    by (simp add: duplicate_key_sort sorted_keys_distinct_iff [OF assms(2)])
qed

section \<open>Properties of the parser\<close>

definition sample_file :: "char list \<Rightarrow> cfile" where
  "sample_file bs = \<lparr>rest = bs, rd_error = False, close_errno = None\<rparr>"

lemma sample_spec:
  "snapshot_spec (''b.b=2'' @ [LF] @ ''a.a=1'') =
     Some [\<lparr>ent_key = ''a.a'', ent_val = ''1''\<rparr>, \<lparr>ent_key = ''b.b'', ent_val = ''2''\<rparr>]"
proof -
  have "lines_of (''b.b=2'' @ [LF] @ ''a.a=1'') = [''b.b=2'' @ [LF], ''a.a=1'']"
    by (simp add: lines_of.simps)
  then have l: "text_lines (''b.b=2'' @ [LF] @ ''a.a=1'') = [''b.b=2'', ''a.a=1'']"
    by (simp add: text_lines_def strip_line_ending_def)
  have e: "is_entry_line ''b.b=2''" "is_entry_line ''a.a=1''"
    by (simp_all add: is_entry_line_def is_blank_line_def is_comment_line_def skip_blanks_def)
  have k: "key_ok ''b.b''" "key_ok ''a.a''"
    by (simp_all add: is_valid_key_iff [symmetric] is_valid_key_def is_key_byte_def)
  show ?thesis
    by (simp add: snapshot_spec_def text_entries_def l e line_ok_def line_entry_def k
        SYSDIFF_MAX_SNAPSHOT_BYTES_def SYSDIFF_MAX_LINE_BYTES_def
        SYSDIFF_MAX_SNAPSHOT_ENTRIES_def less_char_def del: append.simps)
qed

text \<open>
  C4. Nothing that goes wrong makes the parser accept what is not a snapshot: whichever
  allocation, read or close fails, a status of 0 comes with exactly the entries of a
  well-formed file, sorted by key, any other outcome is status 2 with an empty snapshot, and
  stdout is never written to.
\<close>

theorem parse_snapshot_sound:
  assumes "parse_snapshot fopen path no_snapshot s = (status, snap, s1)"
  shows "(status = 0 \<or> status = 2) \<and> out s1 = out s
    \<and> (status = 2 \<longrightarrow> snap = no_snapshot)
    \<and> (status = 0 \<longrightarrow> (\<exists>f. fopen path = Inr f \<and> \<not> rd_error f \<and> close_errno f = None
          \<and> snapshot_spec (rest f) = Some (items snap)))"
  by (rule parse_snapshot_accepts [OF assms])

lemma sample_parse:
  assumes "snapshot_spec bs = Some es"
  shows "\<exists>snap. parse_snapshot (\<lambda>_. Inr (sample_file bs)) path no_snapshot clear_io
    = (0, snap, clear_io) \<and> items snap = es"
proof (rule parse_snapshot_complete)
  show "(\<lambda>_. Inr (sample_file bs)) path = Inr (sample_file bs)" by simp
  show "snapshot_spec (rest (sample_file bs)) = Some es" using assms by (simp add: sample_file_def)
qed (simp_all add: sample_file_def clear_io_def)

theorem parse_snapshot_sound_witness:
  "\<exists>snap. parse_snapshot (\<lambda>_. Inr (sample_file (''b.b=2'' @ [LF] @ ''a.a=1''))) ''f'' no_snapshot clear_io
     = (0, snap, clear_io)
   \<and> snapshot_spec (''b.b=2'' @ [LF] @ ''a.a=1'') = Some (items snap)"
  using sample_parse [OF sample_spec, of "''f''"] parse_snapshot_sound
  by (auto simp: sample_file_def) (metis (no_types, lifting) Inr_inject cfile.select_convs(1))

theorem parse_snapshot_exact_witness:
  "fst (parse_snapshot (\<lambda>_. Inr (sample_file (''b.b=2'' @ [LF] @ ''a.a=1''))) ''f'' no_snapshot clear_io) = 0"
proof (subst parse_snapshot_exact)
  show "mem clear_io = None" by (simp add: clear_io_def)
  show "(\<lambda>_. Inr (sample_file (''b.b=2'' @ [LF] @ ''a.a=1''))) ''f''
      = Inr (sample_file (''b.b=2'' @ [LF] @ ''a.a=1''))" by (rule refl)
  show "\<not> rd_error (sample_file (''b.b=2'' @ [LF] @ ''a.a=1''))
      \<and> close_errno (sample_file (''b.b=2'' @ [LF] @ ''a.a=1'')) = None
      \<and> snapshot_spec (rest (sample_file (''b.b=2'' @ [LF] @ ''a.a=1''))) \<noteq> None"
    using sample_spec by (simp add: sample_file_def del: append.simps)
qed

section \<open>Round trip\<close>

definition render_snapshot :: "entry list \<Rightarrow> char list" where
  "render_snapshot es = concat (map (\<lambda>e. ent_key e @ ''='' @ ent_val e @ [LF]) es)"

definition renderable :: "entry \<Rightarrow> bool" where
  "renderable e \<longleftrightarrow> key_ok (ent_key e) \<and> NUL \<notin> set (ent_val e) \<and> LF \<notin> set (ent_val e)
     \<and> (ent_val e = [] \<or> last (ent_val e) \<noteq> CR)
     \<and> length (ent_key e) + length (ent_val e) < SYSDIFF_MAX_LINE_BYTES"

lemma renderable_line:
  assumes "renderable e"
  defines "l \<equiv> ent_key e @ ''='' @ ent_val e"
  shows "strip_line_ending (l @ [LF]) = l" and "is_entry_line l" and "line_ok l"
    and "line_entry l = e" and "NUL \<notin> set l" and "LF \<notin> set l"
proof -
  from assms have k: "ent_key e \<noteq> []" "\<forall>c \<in> set (ent_key e). is_key_byte c" "key_ok (ent_key e)"
    by (simp_all add: renderable_def key_ok_def)
  then have h: "is_key_byte (hd (ent_key e))" by simp
  have ks: "c \<in> set (ent_key e) \<Longrightarrow> c \<noteq> CHR ''='' \<and> c \<noteq> NUL \<and> c \<noteq> LF" for c
    using k(2) key_byte_not_special by blast
  show e: "line_entry l = e"
    using ks by (auto simp: l_def line_entry_def takeWhile_append dropWhile_append
        intro!: entry.equality)
  have "last l \<noteq> CR" using assms by (auto simp: l_def renderable_def)
  then show "strip_line_ending (l @ [LF]) = l"
    by (simp add: strip_line_ending_def)
  show ent: "is_entry_line l"
    using key_byte_not_special [OF h] k(1)
    by (cases "ent_key e") (auto simp: is_entry_line_def is_blank_line_def is_comment_line_def
        skip_blanks_def l_def)
  show "line_ok l"
    using assms k(3) e by (simp add: line_ok_def renderable_def l_def)
  show "NUL \<notin> set l" "LF \<notin> set l"
    using ks assms by (auto simp: l_def renderable_def)
qed

lemma render_lines:
  assumes "\<forall>e \<in> set es. renderable e"
  shows "text_lines (render_snapshot es) = map (\<lambda>e. ent_key e @ ''='' @ ent_val e) es"
proof -
  have "lines_of (render_snapshot es) = map (\<lambda>e. ent_key e @ ''='' @ ent_val e @ [LF]) es"
    unfolding render_snapshot_def
  proof (rule lines_of_concat, safe)
    fix c assume "c \<in> set (map (\<lambda>e. ent_key e @ ''='' @ ent_val e @ [LF]) es)"
    then obtain e where e: "e \<in> set es" "c = (ent_key e @ ''='' @ ent_val e) @ [LF]" by auto
    with assms renderable_line(6) show "\<exists>b. c = b @ [LF] \<and> LF \<notin> set b" by blast
  qed
  moreover have "strip_line_ending (ent_key e @ ''='' @ ent_val e @ [LF]) = ent_key e @ ''='' @ ent_val e"
    if "e \<in> set es" for e
    using renderable_line(1) [of e] assms that by simp
  ultimately show ?thesis by (simp add: text_lines_def)
qed

lemma render_spec:
  assumes "\<forall>e \<in> set es. renderable e" and "distinct (map ent_key es)"
    and "length es \<le> SYSDIFF_MAX_SNAPSHOT_ENTRIES"
    and "length (render_snapshot es) \<le> SYSDIFF_MAX_SNAPSHOT_BYTES"
  shows "snapshot_spec (render_snapshot es) = Some (sort_key ent_key es)"
proof -
  note l = render_lines [OF assms(1)]
  have "filter is_entry_line (text_lines (render_snapshot es)) = text_lines (render_snapshot es)"
    unfolding l using assms(1) renderable_line(2) by (auto simp: filter_id_conv)
  then have e: "text_entries (render_snapshot es) = es"
    unfolding text_entries_def using assms(1) renderable_line(4)
    by (auto simp: l o_def intro!: map_idI)
  have "NUL \<notin> set (render_snapshot es)"
    using assms(1) renderable_line(5) by (auto simp: render_snapshot_def)
  moreover have "\<forall>l \<in> set (text_lines (render_snapshot es)). line_ok l"
    using assms(1) renderable_line(3) by (auto simp: l)
  ultimately show ?thesis using assms by (simp add: snapshot_spec_def e)
qed

text \<open>
  C6. Round trip: entries written one per line as \<open>key=value\<close> (within the limits, keys of the
  key syntax and distinct, values without NUL, LF or a final CR) are parsed back as the same
  entries, sorted by key.
\<close>

theorem parse_render_snapshot:
  assumes "\<forall>e \<in> set es. renderable e" and "distinct (map ent_key es)"
    and "length es \<le> SYSDIFF_MAX_SNAPSHOT_ENTRIES"
    and "length (render_snapshot es) \<le> SYSDIFF_MAX_SNAPSHOT_BYTES"
    and "fopen path = Inr (sample_file (render_snapshot es))" and "mem s = None"
  shows "\<exists>snap. parse_snapshot fopen path no_snapshot s = (0, snap, s)
    \<and> items snap = sort_key ent_key es"
proof (rule parse_snapshot_complete [where fopen = fopen and path = path, OF assms(6,5)])
  show "snapshot_spec (rest (sample_file (render_snapshot es))) = Some (sort_key ent_key es)"
    using render_spec [OF assms(1-4)] by (simp add: sample_file_def)
qed (simp_all add: sample_file_def)

theorem parse_render_snapshot_witness:
  "\<exists>snap. parse_snapshot (\<lambda>_. Inr (sample_file (''a.a=1'' @ [LF]))) ''f'' no_snapshot clear_io
     = (0, snap, clear_io) \<and> items snap = [\<lparr>ent_key = ''a.a'', ent_val = ''1''\<rparr>]"
proof -
  have "key_ok ''a.a''"
    by (simp add: is_valid_key_iff [symmetric] is_valid_key_def is_key_byte_def)
  then show ?thesis
    using parse_render_snapshot [where es = "[\<lparr>ent_key = ''a.a'', ent_val = ''1''\<rparr>]" and path = "''f''"
        and fopen = "\<lambda>_. Inr (sample_file (''a.a=1'' @ [LF]))" and s = clear_io]
    by (simp add: renderable_def render_snapshot_def SYSDIFF_MAX_SNAPSHOT_BYTES_def
        SYSDIFF_MAX_LINE_BYTES_def SYSDIFF_MAX_SNAPSHOT_ENTRIES_def clear_io_def)
qed

end
