(* ===== verification/Sysdiff_Diff.thy ===== *)
theory Sysdiff_Diff
  imports Sysdiff_Correct
begin

text \<open>
  The comparison of \<open>src/sysdiff.c\<close>: the merge of two sorted snapshots into diff records, the
  command \<open>compare\<close> and \<open>main\<close>.  The merge is shown to write the records of the difference of
  the two finite maps, in key order; the text of the records is shown to be readable back, and
  the records read to turn the first map into the second.
\<close>

section \<open>The code\<close>

text \<open>
  The loop of \<open>emit_diff\<close>; the two lists are what is left of the snapshots from
  \<open>before_i\<close> and \<open>after_i\<close> on, and \<open>None\<close> is the exit through \<open>emit_write_error\<close>.
\<close>

fun emit_diff_loop :: "entry list \<Rightarrow> entry list \<Rightarrow> bool \<Rightarrow> io \<Rightarrow> bool option \<times> io" where
  "emit_diff_loop [] [] changed s = (Some changed, s)"
| "emit_diff_loop [] (a # as) changed s =
     (case emit_added (ent_key a) (ent_val a) s of
        (r, s1) \<Rightarrow> if r \<noteq> 0 then (None, s1) else emit_diff_loop [] as True s1)"
| "emit_diff_loop (b # bs) [] changed s =
     (case emit_removed (ent_key b) (ent_val b) s of
        (r, s1) \<Rightarrow> if r \<noteq> 0 then (None, s1) else emit_diff_loop bs [] True s1)"
| "emit_diff_loop (b # bs) (a # as) changed s =
     (let cmp = strcmp (ent_key b) (ent_key a) in
      if cmp = 0 then
        (if strcmp (ent_val b) (ent_val a) \<noteq> 0 then
           (case emit_changed (ent_key b) (ent_val b) (ent_val a) s of
              (r, s1) \<Rightarrow> if r \<noteq> 0 then (None, s1) else emit_diff_loop bs as True s1)
         else emit_diff_loop bs as changed s)
      else if cmp < 0 then
        (case emit_removed (ent_key b) (ent_val b) s of
           (r, s1) \<Rightarrow> if r \<noteq> 0 then (None, s1) else emit_diff_loop bs (a # as) True s1)
      else
        (case emit_added (ent_key a) (ent_val a) s of
           (r, s1) \<Rightarrow> if r \<noteq> 0 then (None, s1) else emit_diff_loop (b # bs) as True s1))"

definition emit_diff :: "snapshot \<Rightarrow> snapshot \<Rightarrow> io \<Rightarrow> int \<times> io" where
  "emit_diff before after s =
     (case emit_diff_loop (items before) (items after) False s of
        (None, s1) \<Rightarrow> emit_write_error s1
      | (Some changed, s1) \<Rightarrow>
          (if \<not> changed then
             (case fputs_checked (''no changes'' @ [LF]) Stdout s1 of
                (r, s2) \<Rightarrow> if r \<noteq> 0 then emit_write_error s2
                           else complete_stdout (if changed then 1 else 0) s2)
           else complete_stdout (if changed then 1 else 0) s1))"

text \<open>\<open>opens n\<close> is how the \<open>n\<close>-th call of \<open>fopen\<close> answers for each path.\<close>

definition compare_snapshots ::
  "(nat \<Rightarrow> cstr \<Rightarrow> nat + cfile) \<Rightarrow> cstr \<Rightarrow> cstr \<Rightarrow> io \<Rightarrow> int \<times> io" where
  "compare_snapshots opens before_path after_path s =
     (case parse_snapshot (opens 0) before_path no_snapshot s of
        (status, before, s1) \<Rightarrow>
          (if status \<noteq> 0 then (status, s1)
           else (case parse_snapshot (opens 1) after_path no_snapshot s1 of
                   (status1, after, s2) \<Rightarrow>
                     if status1 \<noteq> 0 then (status1, s2) else emit_diff before after s2)))"

definition ignore_sigpipe_for_stdout :: "nat option \<Rightarrow> io \<Rightarrow> int \<times> io" where
  "ignore_sigpipe_for_stdout sig_err s =
     (case sig_err of
        None \<Rightarrow> (0, s)
      | Some signal_errno \<Rightarrow>
          (2, ignore_result (c_write Stderr (''sysdiff: cannot ignore SIGPIPE: ''
                @ strerror_of s signal_errno @ [LF])) s))"

definition main ::
  "nat option \<Rightarrow> (nat \<Rightarrow> cstr \<Rightarrow> nat + cfile) \<Rightarrow> cstr list \<Rightarrow> io \<Rightarrow> int \<times> io" where
  "main sig_err opens argv s =
     (let argc = length argv;
          finish = (\<lambda>f s. case f s of
             (r, s1) \<Rightarrow> if r \<noteq> 0 then emit_write_error s1 else complete_stdout 0 s1) in
      if argc < 1 then
        (2, ignore_result (c_write Stderr (''sysdiff: invalid argument vector'' @ [LF])) s)
      else
        (case ignore_sigpipe_for_stdout sig_err s of
           (sigpipe_status, s1) \<Rightarrow>
             if sigpipe_status \<noteq> 0 then (sigpipe_status, s1)
             else if argc = 1 then finish (print_usage Stdout) s1
             else if argc = 2 \<and> strcmp (argv ! 1) ''--help'' = 0
             then finish (print_usage Stdout) s1
             else if argc = 2 \<and> strcmp (argv ! 1) ''--version'' = 0
             then finish (fputs_checked (''sysdiff 0.1.0'' @ [LF]) Stdout) s1
             else if strcmp (argv ! 1) ''compare'' = 0 then
               (if argc \<noteq> 4 then
                  (2, ignore_result (print_usage Stderr)
                        (ignore_result (c_write Stderr
                           (''sysdiff: compare requires BEFORE_SNAPSHOT and AFTER_SNAPSHOT''
                            @ [LF])) s1))
                else compare_snapshots opens (argv ! 2) (argv ! 3) s1)
             else
               (2, ignore_result (print_usage Stderr)
                     (ignore_result (c_write Stderr [LF])
                       (diag_puts_escaped (argv ! 1)
                         (ignore_result (c_write Stderr ''sysdiff: unknown command: '') s1))))))"

section \<open>The difference of two maps\<close>

datatype change = Added cstr cstr | Removed cstr cstr | Changed cstr cstr cstr

definition key_change :: "(cstr \<rightharpoonup> cstr) \<Rightarrow> (cstr \<rightharpoonup> cstr) \<Rightarrow> cstr \<Rightarrow> change list" where
  "key_change m1 m2 k =
     (case m1 k of
        None \<Rightarrow> (case m2 k of None \<Rightarrow> [] | Some w \<Rightarrow> [Added k w])
      | Some v \<Rightarrow> (case m2 k of
                     None \<Rightarrow> [Removed k v]
                   | Some w \<Rightarrow> if v = w then [] else [Changed k v w]))"

definition map_diff :: "(cstr \<rightharpoonup> cstr) \<Rightarrow> (cstr \<rightharpoonup> cstr) \<Rightarrow> change list" where
  "map_diff m1 m2 = concat (map (key_change m1 m2) (sorted_list_of_set (dom m1 \<union> dom m2)))"

definition entry_map :: "entry list \<Rightarrow> (cstr \<rightharpoonup> cstr)" where
  "entry_map es = map_of (map (\<lambda>e. (ent_key e, ent_val e)) es)"

fun change_line :: "change \<Rightarrow> char list" where
  "change_line (Added k w) = added_line k w"
| "change_line (Removed k v) = removed_line k v"
| "change_line (Changed k v w) = changed_line k v w"

definition diff_text :: "change list \<Rightarrow> char list" where
  "diff_text cs = (if cs = [] then ''no changes'' @ [LF] else concat (map change_line cs))"

text \<open>The merge, without the printing.\<close>

fun merge_changes :: "entry list \<Rightarrow> entry list \<Rightarrow> change list" where
  "merge_changes [] as = map (\<lambda>a. Added (ent_key a) (ent_val a)) as"
| "merge_changes (b # bs) [] = map (\<lambda>a. Removed (ent_key a) (ent_val a)) (b # bs)"
| "merge_changes (b # bs) (a # as) =
     (if ent_key b = ent_key a then
        (if ent_val b = ent_val a then [] else [Changed (ent_key b) (ent_val b) (ent_val a)])
        @ merge_changes bs as
      else if ent_key b < ent_key a
      then Removed (ent_key b) (ent_val b) # merge_changes bs (a # as)
      else Added (ent_key a) (ent_val a) # merge_changes (b # bs) as)"

section \<open>The merge computes the difference\<close>

lemma write_then_flag:
  "(case c_write st t s of (r, s1) \<Rightarrow> if r \<noteq> 0 then (None, s1) else
      (case c_write st u s1 of (r, s2) \<Rightarrow> if r \<noteq> 0 then (None, s2) else (Some x, s2)))
   = (case c_write st (t @ u) s of (r, s1) \<Rightarrow> if r \<noteq> 0 then (None, s1) else (Some x, s1))"
  using c_write_append [where st = st and t = t and u = u and s = s]
    c_write_result [where st = st and t = t and s = s]
  by (auto split: prod.splits if_splits)

lemma emit_diff_loop_write:
  "emit_diff_loop bs as changed s =
     (case c_write Stdout (concat (map change_line (merge_changes bs as))) s of
        (r, s1) \<Rightarrow> if r \<noteq> 0 then (None, s1)
                   else (Some (changed \<or> merge_changes bs as \<noteq> []), s1))"
proof (induction bs as changed s rule: emit_diff_loop.induct)
  case (1 changed s)
  then show ?case by simp
next
  case (2 a as changed s)
  then show ?case
    by (cases "c_write Stdout (added_line (ent_key a) (ent_val a)) s")
      (auto simp: emit_writes write_then_flag [symmetric] split: prod.split)
next
  case (3 b bs changed s)
  have "merge_changes bs [] = map (\<lambda>a. Removed (ent_key a) (ent_val a)) bs" by (cases bs) simp_all
  with 3 show ?case
    by (cases "c_write Stdout (removed_line (ent_key b) (ent_val b)) s")
      (auto simp: emit_writes write_then_flag [symmetric] split: prod.split)
next
  case (4 b bs a as changed s)
  show ?case
  proof (cases "ent_key b = ent_key a")
    case True
    with 4(1,2) show ?thesis
      by (cases "c_write Stdout (changed_line (ent_key b) (ent_val b) (ent_val a)) s")
        (auto simp: emit_writes write_then_flag [symmetric] Let_def split: prod.split)
  next
    case False
    with 4(3,4) show ?thesis
      by (cases "c_write Stdout (added_line (ent_key a) (ent_val a)) s";
          cases "c_write Stdout (removed_line (ent_key b) (ent_val b)) s")
        (auto simp: emit_writes write_then_flag [symmetric] Let_def split: prod.split)
  qed
qed

lemma emit_diff_write:
  "emit_diff before after s =
     (let cs = merge_changes (items before) (items after) in
      case c_write Stdout (diff_text cs) s of
        (r, s1) \<Rightarrow> if r \<noteq> 0 then emit_write_error s1
                   else complete_stdout (if cs = [] then 0 else 1) s1)"
  by (auto simp: emit_diff_def emit_diff_loop_write diff_text_def Let_def split: prod.splits)

lemma sorted_list_of_set_min:
  "finite A \<Longrightarrow> \<forall>x \<in> A. k < x \<Longrightarrow> sorted_list_of_set (insert k A) = k # sorted_list_of_set A"
  by (subst sorted_list_of_set_insert) (auto simp: insort_is_Cons order_less_imp_le)

lemma entry_map_Nil [simp]: "entry_map [] = Map.empty"
  by (simp add: entry_map_def)

lemma entry_map_Cons: "entry_map (e # es) = (entry_map es)(ent_key e \<mapsto> ent_val e)"
  by (simp add: entry_map_def)

lemma dom_entry_map [simp]: "dom (entry_map es) = ent_key ` set es"
  by (simp add: entry_map_def dom_map_of_conv_image_fst image_image)

lemma entry_map_None: "entry_map es k = None \<longleftrightarrow> k \<notin> ent_key ` set es"
  by (metis domIff dom_entry_map)

definition keys_ok :: "entry list \<Rightarrow> bool" where
  "keys_ok es \<longleftrightarrow> sorted_wrt (<) (map ent_key es)"

lemma keys_ok_simps [simp]:
  "keys_ok []"
  "keys_ok (e # es) \<longleftrightarrow> (\<forall>x \<in> set es. ent_key e < ent_key x) \<and> keys_ok es"
  by (simp_all add: keys_ok_def)

lemma map_diff_step:
  assumes "\<forall>x \<in> ent_key ` (set bs \<union> set as). k < x"
    and "\<And>j. j \<noteq> k \<Longrightarrow> m1 j = entry_map bs j" and "\<And>j. j \<noteq> k \<Longrightarrow> m2 j = entry_map as j"
    and "m1 k \<noteq> None \<or> m2 k \<noteq> None"
  shows "map_diff m1 m2 = key_change m1 m2 k @ map_diff (entry_map bs) (entry_map as)"
proof -
  let ?A = "ent_key ` (set bs \<union> set as)"
  have "j \<in> dom m1 \<union> dom m2 \<longleftrightarrow> j \<in> insert k ?A" for j
    using assms(4) assms(2,3) [of j] entry_map_None [of bs j] entry_map_None [of as j]
    unfolding Un_iff insert_iff domIff image_Un by (cases "j = k") simp_all
  then have d: "dom m1 \<union> dom m2 = insert k ?A" by (rule set_eqI)
  have "finite ?A" by simp
  from sorted_list_of_set_min [OF this assms(1)]
  have l: "sorted_list_of_set (dom m1 \<union> dom m2) = k # sorted_list_of_set ?A"
    unfolding d .
  have m: "map (key_change m1 m2) (sorted_list_of_set ?A)
      = map (key_change (entry_map bs) (entry_map as)) (sorted_list_of_set ?A)"
  proof (rule map_cong [OF refl])
    fix j assume "j \<in> set (sorted_list_of_set ?A)"
    then have "j \<in> ?A" by simp
    with assms(1) have "k < j" by blast
    then have "j \<noteq> k" by simp
    show "key_change m1 m2 j = key_change (entry_map bs) (entry_map as) j"
      unfolding key_change_def assms(2) [OF \<open>j \<noteq> k\<close>] assms(3) [OF \<open>j \<noteq> k\<close>]
      by (rule refl)
  qed
  show ?thesis
    unfolding map_diff_def l dom_entry_map image_Un [symmetric] list.map m concat.simps ..
qed

lemma map_diff_Added:
  assumes "\<forall>x \<in> set bs \<union> set as. ent_key a < ent_key x"
  shows "map_diff (entry_map bs) (entry_map (a # as))
    = Added (ent_key a) (ent_val a) # map_diff (entry_map bs) (entry_map as)"
proof -
  have "entry_map bs (ent_key a) = None" using assms by (auto simp: entry_map_None)
  with map_diff_step [where k = "ent_key a" and bs = bs and as = as and ?m1.0 = "entry_map bs"
      and ?m2.0 = "entry_map (a # as)"] assms show ?thesis
    by (simp add: entry_map_Cons key_change_def)
qed

lemma map_diff_Removed:
  assumes "\<forall>x \<in> set bs \<union> set as. ent_key b < ent_key x"
  shows "map_diff (entry_map (b # bs)) (entry_map as)
    = Removed (ent_key b) (ent_val b) # map_diff (entry_map bs) (entry_map as)"
proof -
  have "entry_map as (ent_key b) = None" using assms by (auto simp: entry_map_None)
  with map_diff_step [where k = "ent_key b" and bs = bs and as = as and ?m1.0 = "entry_map (b # bs)"
      and ?m2.0 = "entry_map as"] assms show ?thesis
    by (simp add: entry_map_Cons key_change_def)
qed

lemma map_diff_both:
  assumes "\<forall>x \<in> set bs \<union> set as. ent_key b < ent_key x" and "ent_key b = ent_key a"
  shows "map_diff (entry_map (b # bs)) (entry_map (a # as))
    = (if ent_val b = ent_val a then [] else [Changed (ent_key b) (ent_val b) (ent_val a)])
      @ map_diff (entry_map bs) (entry_map as)"
  using map_diff_step [where k = "ent_key b" and bs = bs and as = as and ?m1.0 = "entry_map (b # bs)"
      and ?m2.0 = "entry_map (a # as)"] assms
  by (simp add: entry_map_Cons key_change_def)

lemma merge_is_map_diff:
  "keys_ok bs \<Longrightarrow> keys_ok as \<Longrightarrow> merge_changes bs as = map_diff (entry_map bs) (entry_map as)"
proof (induction bs as rule: merge_changes.induct)
  case (1 as)
  from "1.prems"(2) show ?case
  proof (induction as)
    case (Cons a as)
    then show ?case using map_diff_Added [of "[]" as a] by simp
  qed (simp add: map_diff_def)
next
  case (2 b bs)
  have "map (\<lambda>a. Removed (ent_key a) (ent_val a)) bs = map_diff (entry_map bs) (entry_map [])"
    if "keys_ok bs" for bs
    using that
  proof (induction bs)
    case (Cons b bs)
    then show ?case using map_diff_Removed [of bs "[]" b] by simp
  qed (simp add: map_diff_def)
  from this [OF "2.prems"(1)] show ?case by simp
next
  case (3 b bs a as)
  consider "ent_key b = ent_key a" | "ent_key b < ent_key a" | "ent_key a < ent_key b"
    by (rule linorder_cases)
  then show ?case
  proof cases
    case 1
    then have "\<forall>x \<in> set bs \<union> set as. ent_key b < ent_key x" using "3.prems" by auto
    from map_diff_both [OF this 1] 1 "3.IH"(1) "3.prems" show ?thesis by simp
  next
    case 2
    then have "\<forall>x \<in> set bs \<union> set (a # as). ent_key b < ent_key x" using "3.prems" by auto
    moreover have "ent_key b \<noteq> ent_key a" using 2 by simp
    ultimately show ?thesis using map_diff_Removed 2 "3.IH"(2) "3.prems" by simp
  next
    case 3
    then have "\<forall>x \<in> set (b # bs) \<union> set as. ent_key a < ent_key x" using "3.prems" by auto
    moreover have "ent_key b \<noteq> ent_key a" "\<not> ent_key b < ent_key a" using 3 by auto
    ultimately show ?thesis using map_diff_Added 3 "3.IH"(3) "3.prems" by simp
  qed
qed

section \<open>The records read back\<close>

fun split_arrow :: "char list \<Rightarrow> (char list \<times> char list) option" where
  "split_arrow [] = None"
| "split_arrow (c # p) =
     (if take 4 (c # p) = '' -> '' then Some ([], drop 3 p)
      else map_option (\<lambda>(a, b). (c # a, b)) (split_arrow p))"

definition parse_change :: "char list \<Rightarrow> change option" where
  "parse_change line =
     (case butlast line of
        m # _ # r \<Rightarrow>
          (if m = CHR ''~'' then
             (case strchr r (CHR '':'') of
                None \<Rightarrow> None
              | Some i \<Rightarrow>
                  (case split_arrow (drop (i + 2) r) of
                     None \<Rightarrow> None
                   | Some (a, b) \<Rightarrow>
                       (case (unescape a, unescape b) of
                          (Some v, Some w) \<Rightarrow> Some (Changed (take i r) v w)
                        | _ \<Rightarrow> None)))
           else
             (case strchr r (CHR ''='') of
                None \<Rightarrow> None
              | Some i \<Rightarrow>
                  map_option ((if m = CHR ''+'' then Added else Removed) (take i r))
                    (unescape (drop (i + 1) r))))
      | _ \<Rightarrow> None)"

definition parse_diff :: "char list \<Rightarrow> change list option" where
  "parse_diff t =
     (if t = ''no changes'' @ [LF] then Some []
      else those (map parse_change (lines_of t)))"

fun change_key :: "change \<Rightarrow> cstr" where
  "change_key (Added k w) = k"
| "change_key (Removed k v) = k"
| "change_key (Changed k v w) = k"

text \<open>The first \<open>" -> "\<close> of an escaped pair is the separator the code wrote.\<close>

lemma split_arrow_esc:
  "arrow_free a \<Longrightarrow> split_arrow (a @ '' -> '' @ b) = Some (a, b)"
proof (induction a)
  case (Cons c a)
  have "take 4 (c # a @ '' -> '' @ b) \<noteq> '' -> ''"
  proof
    assume t: "take 4 (c # a @ '' -> '' @ b) = '' -> ''"
    have "take 3 (c # a) \<noteq> '' ->''" using Cons.prems by simp
    with t show False
      by (cases a; cases "tl a") auto
  qed
  with Cons show ?case by simp
qed simp

lemma key_no_special:
  "key_ok k \<Longrightarrow> CHR ''='' \<notin> set k \<and> CHR '':'' \<notin> set k \<and> LF \<notin> set k"
  using key_byte_not_special by (auto simp: key_ok_def)

lemma parse_change_line: "key_ok (change_key c) \<Longrightarrow> parse_change (change_line c) = Some c"
proof (cases c)
  case (Added k w)
  assume "key_ok (change_key c)"
  then have "CHR ''='' \<notin> set k" using key_no_special Added by simp
  with Added show ?thesis
    by (simp add: parse_change_def added_line_def butlast_append strchr_append unescape_esc_value)
next
  case (Removed k v)
  assume "key_ok (change_key c)"
  then have "CHR ''='' \<notin> set k" using key_no_special Removed by simp
  with Removed show ?thesis
    by (simp add: parse_change_def removed_line_def butlast_append strchr_append unescape_esc_value)
next
  case (Changed k v w)
  assume "key_ok (change_key c)"
  then have "CHR '':'' \<notin> set k" using key_no_special Changed by simp
  moreover have "split_arrow (esc_value v @ '' -> '' @ esc_value w) = Some (esc_value v, esc_value w)"
    by (rule split_arrow_esc [OF arrow_free_esc_value])
  ultimately show ?thesis using Changed
    by (simp add: parse_change_def changed_line_def butlast_append strchr_append unescape_esc_value)
qed

lemma printable_key_byte: "is_key_byte c \<Longrightarrow> printable c"
  by (auto simp: is_key_byte_def printable_def)

lemma change_line_form:
  assumes "key_ok (change_key c)"
  shows "\<exists>b. change_line c = b @ [LF] \<and> (\<forall>d \<in> set b. printable d)"
proof -
  have k: "d \<in> set (change_key c) \<Longrightarrow> printable d" for d
    using assms by (auto simp: key_ok_def intro: printable_key_byte)
  have p: "printable (CHR ''+'')" "printable SP" "printable (CHR ''='')" "printable (CHR ''-'')"
    "printable (CHR ''~'')" "printable (CHR '':'')" "printable (CHR ''>'')"
    by (simp_all add: printable_def)
  show ?thesis
    by (intro exI [of _ "butlast (change_line c)"], cases c)
      (use k in \<open>auto simp: added_line_def removed_line_def changed_line_def butlast_append p
         dest: printable_esc_value\<close>)
qed

lemma those_map_Some: "(\<And>x. x \<in> set xs \<Longrightarrow> f (g x) = Some x) \<Longrightarrow> those (map f (map g xs)) = Some xs"
  by (induction xs) auto

lemma parse_diff_text:
  assumes "\<forall>c \<in> set cs. key_ok (change_key c)"
  shows "parse_diff (diff_text cs) = Some cs"
proof (cases cs)
  case (Cons c ds)
  have "\<exists>b. l = b @ [LF] \<and> LF \<notin> set b" if "l \<in> set (map change_line cs)" for l
    using that assms change_line_form printable_not_control by (auto; metis)
  then have l: "lines_of (diff_text cs) = map change_line cs"
    using Cons lines_of_concat [of "map change_line cs"] by (simp add: diff_text_def)
  moreover have "diff_text cs \<noteq> ''no changes'' @ [LF]"
    using Cons by (cases c) (auto simp: diff_text_def added_line_def removed_line_def changed_line_def)
  ultimately show ?thesis
    using assms by (simp add: parse_diff_def those_map_Some parse_change_line del: map_map append.simps)
qed (simp add: parse_diff_def diff_text_def)

section \<open>The difference as a patch\<close>

fun apply_change :: "change \<Rightarrow> (cstr \<rightharpoonup> cstr) \<Rightarrow> (cstr \<rightharpoonup> cstr)" where
  "apply_change (Added k w) m = m(k \<mapsto> w)"
| "apply_change (Removed k v) m = m(k := None)"
| "apply_change (Changed k v w) m = m(k \<mapsto> w)"

lemma fold_changes:
  "fold apply_change (concat (map (key_change m1 m2) ks)) m k
     = (if k \<in> set ks \<and> m1 k \<noteq> m2 k then m2 k else m k)"
proof (induction ks arbitrary: m)
  case (Cons j ks)
  have "fold apply_change (key_change m1 m2 j) m = (if m1 j \<noteq> m2 j then m(j := m2 j) else m)"
    by (auto simp: key_change_def split: option.split)
  with Cons show ?case by auto
qed simp

lemma map_diff_patch:
  assumes "finite (dom m1)" and "finite (dom m2)"
  shows "fold apply_change (map_diff m1 m2) m1 = m2"
proof
  fix k
  have "k \<notin> dom m1 \<union> dom m2 \<Longrightarrow> m1 k = m2 k" by (auto simp: domIff)
  with assms show "fold apply_change (map_diff m1 m2) m1 k = m2 k"
    unfolding map_diff_def fold_changes by auto
qed

lemma map_diff_empty:
  assumes "finite (dom m1)" and "finite (dom m2)"
  shows "map_diff m1 m2 = [] \<longleftrightarrow> m1 = m2"
proof
  assume "map_diff m1 m2 = []"
  with map_diff_patch [OF assms] show "m1 = m2" by simp
next
  assume "m1 = m2"
  then show "map_diff m1 m2 = []"
    by (auto simp: map_diff_def key_change_def split: option.split)
qed

lemma key_change_key: "c \<in> set (key_change m1 m2 k) \<Longrightarrow> change_key c = k"
  by (auto simp: key_change_def split: option.splits if_splits)

lemma map_diff_keys: "finite (dom m1) \<Longrightarrow> finite (dom m2) \<Longrightarrow>
    c \<in> set (map_diff m1 m2) \<Longrightarrow> change_key c \<in> dom m1 \<union> dom m2"
  by (auto simp: map_diff_def dest: key_change_key)

section \<open>The snapshots of well-formed files\<close>

lemma snapshot_spec_keys:
  assumes "snapshot_spec bs = Some es"
  shows "keys_ok es" and "\<forall>e \<in> set es. key_ok (ent_key e)"
proof -
  from assms have d: "distinct (map ent_key (text_entries bs))"
    and es: "es = sort_key ent_key (text_entries bs)"
    and ok: "\<forall>l \<in> set (text_lines bs). line_ok l"
    by (auto simp: snapshot_spec_def split: if_splits)
  have "distinct (map ent_key es)" "sorted (map ent_key es)"
    using d by (simp_all add: es distinct_sort_key)
  then show "keys_ok es" by (simp add: keys_ok_def strict_sorted_iff)
  show "\<forall>e \<in> set es. key_ok (ent_key e)"
    using ok by (auto simp: es text_entries_def line_ok_def)
qed

definition file_map :: "char list \<Rightarrow> (cstr \<rightharpoonup> cstr) option" where
  "file_map bs = map_option entry_map (snapshot_spec bs)"

text \<open>
  C1. When nothing fails, comparing two well-formed snapshots writes the records of the
  difference of the two maps, in the order of their keys (or \<open>no changes\<close>), and exits with 0
  when the maps are equal and 1 when they are not; the text written can be read back, and the
  records read turn the first map into the second.
\<close>

theorem compare_snapshots_correct:
  assumes "faultless s"
    and "opens 0 p1 = Inr f1" and "\<not> rd_error f1" and "close_errno f1 = None"
    and "file_map (rest f1) = Some m1"
    and "opens 1 p2 = Inr f2" and "\<not> rd_error f2" and "close_errno f2 = None"
    and "file_map (rest f2) = Some m2"
  shows "\<exists>t. compare_snapshots opens p1 p2 s = (if m1 = m2 then 0 else 1, emit Stdout t s)
    \<and> t = diff_text (map_diff m1 m2)
    \<and> (\<exists>cs. parse_diff t = Some cs \<and> fold apply_change cs m1 = m2)"
proof -
  have snap: "\<exists>snap. parse_snapshot (opens n) p no_snapshot s = (0, snap, s)
      \<and> snapshot_spec (rest f) = Some (items snap)"
    if "opens n p = Inr f" "\<not> rd_error f" "close_errno f = None" "file_map (rest f) = Some m" for n p f m
    using parse_snapshot_complete [where fopen = "opens n" and path = p, OF faultlessD(3) [OF assms(1)] that(1,2,3)] that(4)
    by (auto simp: file_map_def)
  from snap [OF assms(2,3,4,5)] snap [OF assms(6,7,8,9)] obtain b a where
    b: "parse_snapshot (opens 0) p1 no_snapshot s = (0, b, s)" "snapshot_spec (rest f1) = Some (items b)"
    and a: "parse_snapshot (opens 1) p2 no_snapshot s = (0, a, s)" "snapshot_spec (rest f2) = Some (items a)"
    by blast
  note kb = snapshot_spec_keys [OF b(2)] and ka = snapshot_spec_keys [OF a(2)]
  have m: "m1 = entry_map (items b)" "m2 = entry_map (items a)"
    using assms(5,9) a(2) b(2) by (simp_all add: file_map_def)
  have fin: "finite (dom m1)" "finite (dom m2)" by (simp_all add: m)
  have cs: "merge_changes (items b) (items a) = map_diff m1 m2"
    using merge_is_map_diff [OF kb(1) ka(1)] by (simp add: m)
  let ?t = "diff_text (map_diff m1 m2)"
  have "compare_snapshots opens p1 p2 s = emit_diff b a s"
    using b a by (simp add: compare_snapshots_def del: One_nat_def)
  also have "\<dots> = complete_stdout (if m1 = m2 then 0 else 1) (emit Stdout ?t s)"
    using faultlessD(1) [OF assms(1)]
    by (simp add: emit_diff_write cs c_write_quiet map_diff_empty [OF fin])
  also have "\<dots> = (if m1 = m2 then 0 else 1, emit Stdout ?t s)"
    using faultlessD(5,6) [where s = "emit Stdout ?t s"] assms(1) by (simp add: complete_stdout_def)
  finally have r: "compare_snapshots opens p1 p2 s = (if m1 = m2 then 0 else 1, emit Stdout ?t s)" .
  have "\<forall>c \<in> set (map_diff m1 m2). key_ok (change_key c)"
    using map_diff_keys [OF fin] kb(2) ka(2) by (fastforce simp: m)
  from r parse_diff_text [OF this] map_diff_patch [OF fin] show ?thesis by auto
qed

section \<open>Faults\<close>

lemma complete_stdout_status:
  assumes "complete_stdout n s = (status, s1)"
  shows "status = 2 \<or> status = n \<and> s1 = s \<and> \<not> ferr (out s) \<and> flush_errno (out s) = None"
  using assms by (auto simp: complete_stdout_def c_fflush_def c_ferror_def emit_write_error_def
      Let_def split: option.splits if_splits prod.splits)

lemma write_complete_status:
  assumes "(case c_write Stdout t s of (r, s1) \<Rightarrow>
      if r \<noteq> 0 then emit_write_error s1 else complete_stdout n s1) = (status, s2)" and "n \<noteq> 2"
  shows "status = 2 \<or> status = n \<and> text_of Stdout s2 = text_of Stdout s @ t
    \<and> \<not> ferr (out s2) \<and> flush_errno (out s2) = None"
proof (cases "c_write Stdout t s")
  case (Pair r s1)
  with c_write_prefix [of Stdout t s] complete_stdout_status [of n s1 status s2] assms(1)
  show ?thesis by (auto simp: emit_write_error_def Let_def split: if_splits)
qed

text \<open>
  The exit status can be trusted whatever fails: a status other than 2 means that both
  files were read completely and are well-formed, that the whole text of their difference has
  been accepted by stdout and flushed, and the status is 0 exactly when the maps are equal.
\<close>

lemma compare_snapshots_accepts:
  assumes "compare_snapshots opens p1 p2 s = (status, s1)" and "status \<noteq> 2"
  shows "\<exists>f1 f2 m1 m2. opens 0 p1 = Inr f1 \<and> opens 1 p2 = Inr f2
    \<and> \<not> rd_error f1 \<and> \<not> rd_error f2 \<and> file_map (rest f1) = Some m1 \<and> file_map (rest f2) = Some m2
    \<and> status = (if m1 = m2 then 0 else 1)
    \<and> text_of Stdout s1 = text_of Stdout s @ diff_text (map_diff m1 m2)
    \<and> \<not> ferr (out s1) \<and> flush_errno (out s1) = None"
proof -
  obtain st1 b s2 where b: "parse_snapshot (opens 0) p1 no_snapshot s = (st1, b, s2)"
    by (cases "parse_snapshot (opens 0) p1 no_snapshot s")
  obtain st2 a s3 where a: "parse_snapshot (opens 1) p2 no_snapshot s2 = (st2, a, s3)"
    by (cases "parse_snapshot (opens 1) p2 no_snapshot s2")
  note B = parse_snapshot_accepts [OF b] and A = parse_snapshot_accepts [OF a]
  from assms B A have st: "st1 = 0" "st2 = 0" and e: "emit_diff b a s3 = (status, s1)"
    using a b by (auto simp: compare_snapshots_def simp del: One_nat_def split: if_splits)
  from B st obtain f1 where f1: "opens 0 p1 = Inr f1" "\<not> rd_error f1"
    "snapshot_spec (rest f1) = Some (items b)" by auto
  from A st obtain f2 where f2: "opens 1 p2 = Inr f2" "\<not> rd_error f2"
    "snapshot_spec (rest f2) = Some (items a)" by auto
  let ?m1 = "entry_map (items b)" and ?m2 = "entry_map (items a)"
  have cs: "merge_changes (items b) (items a) = map_diff ?m1 ?m2"
    by (rule merge_is_map_diff [OF snapshot_spec_keys(1) [OF f1(3)] snapshot_spec_keys(1) [OF f2(3)]])
  have "status = 2 \<or> status = (if map_diff ?m1 ?m2 = [] then 0 else 1)
    \<and> text_of Stdout s1 = text_of Stdout s3 @ diff_text (map_diff ?m1 ?m2)
    \<and> \<not> ferr (out s1) \<and> flush_errno (out s1) = None"
    by (rule write_complete_status) (use e in \<open>auto simp: emit_diff_write cs Let_def\<close>)
  moreover have "text_of Stdout s3 = text_of Stdout s"
    using A B by (simp add: text_of_def)
  moreover have "map_diff ?m1 ?m2 = [] \<longleftrightarrow> ?m1 = ?m2" by (rule map_diff_empty) simp_all
  ultimately show ?thesis
    using assms(2) f1 f2 by (auto simp: file_map_def)
qed

text \<open>
  C3. Fail closed: when either file cannot be opened or read, or is not a well-formed
  snapshot, the comparison exits with 2 and stdout is left untouched.
\<close>

theorem compare_snapshots_fail_closed:
  assumes "\<not> (\<exists>f1 f2. opens 0 p1 = Inr f1 \<and> opens 1 p2 = Inr f2 \<and> \<not> rd_error f1 \<and> \<not> rd_error f2
      \<and> file_map (rest f1) \<noteq> None \<and> file_map (rest f2) \<noteq> None)"
    and "compare_snapshots opens p1 p2 s = (status, s1)"
  shows "status = 2 \<and> out s1 = out s"
proof -
  obtain st1 b s2 where b: "parse_snapshot (opens 0) p1 no_snapshot s = (st1, b, s2)"
    by (cases "parse_snapshot (opens 0) p1 no_snapshot s")
  obtain st2 a s3 where a: "parse_snapshot (opens 1) p2 no_snapshot s2 = (st2, a, s3)"
    by (cases "parse_snapshot (opens 1) p2 no_snapshot s2")
  note B = parse_snapshot_accepts [OF b] and A = parse_snapshot_accepts [OF a]
  have "\<not> (st1 = 0 \<and> st2 = 0)"
    using A B assms(1) by (fastforce simp: file_map_def simp del: One_nat_def)
  with A B a b assms(2) show ?thesis
    by (auto simp: compare_snapshots_def simp del: One_nat_def split: if_splits)
qed

text \<open>
  The command line: the only statuses are 0, 1 and 2, 1 is given only by the comparison of
  two well-formed, different snapshots, and 0 without a comparison means that the whole text
  asked for was accepted by stdout.
\<close>

theorem sysdiff_main_status:
  assumes "main sig_err opens argv s = (status, s1)"
  shows "status \<in> {0, 1, 2}
    \<and> (status = 1 \<longrightarrow> length argv = 4 \<and> argv ! 1 = ''compare''
         \<and> compare_snapshots opens (argv ! 2) (argv ! 3) s = (1, s1))
    \<and> (status = 0 \<longrightarrow>
         length argv = 4 \<and> argv ! 1 = ''compare''
           \<and> compare_snapshots opens (argv ! 2) (argv ! 3) s = (0, s1)
       \<or> (length argv = 1 \<or> length argv = 2 \<and> argv ! 1 = ''--help'')
           \<and> text_of Stdout s1 = text_of Stdout s @ USAGE_TEXT
       \<or> length argv = 2 \<and> argv ! 1 = ''--version''
           \<and> text_of Stdout s1 = text_of Stdout s @ ''sysdiff 0.1.0'' @ [LF])"
proof -
  have cmp: "compare_snapshots opens p1 p2 s = (status, s1) \<Longrightarrow> status \<in> {0, 1, 2}" for p1 p2
    using compare_snapshots_accepts [of opens p1 p2 s status s1]
    by (cases "status = 2") (auto split: if_splits)
  have fin: "(case c_write Stdout t s of (r, s1) \<Rightarrow>
      if r \<noteq> 0 then emit_write_error s1 else complete_stdout 0 s1) = (status, s1) \<Longrightarrow>
      status = 2 \<or> status = 0 \<and> text_of Stdout s1 = text_of Stdout s @ t" for t
    using write_complete_status [where t = t and s = s and n = 0 and status = status and ?s2.0 = s1]
    by auto
  show ?thesis
  proof (cases "length argv < 1 \<or> sig_err \<noteq> None")
    case True
    then have "fst (main sig_err opens argv s) = 2"
      by (cases "length argv < 1"; cases sig_err)
        (simp_all add: main_def ignore_sigpipe_for_stdout_def)
    with assms show ?thesis by simp
  next
    case False
    obtain s2 where s2: "s2 = snd (main sig_err opens argv s)" by simp
    with False have m: "main sig_err opens argv s =
      (if length argv = 1 \<or> length argv = 2 \<and> argv ! 1 = ''--help'' then
         (case c_write Stdout USAGE_TEXT s of (r, s1) \<Rightarrow>
            if r \<noteq> 0 then emit_write_error s1 else complete_stdout 0 s1)
       else if length argv = 2 \<and> argv ! 1 = ''--version'' then
         (case c_write Stdout (''sysdiff 0.1.0'' @ [LF]) s of (r, s1) \<Rightarrow>
            if r \<noteq> 0 then emit_write_error s1 else complete_stdout 0 s1)
       else if argv ! 1 = ''compare'' \<and> length argv = 4
       then compare_snapshots opens (argv ! 2) (argv ! 3) s
       else (2, s2))"
      by (auto simp: main_def ignore_sigpipe_for_stdout_def print_usage_def Let_def)
    show ?thesis
      using assms fin [of USAGE_TEXT] fin [of "''sysdiff 0.1.0'' @ [LF]"] cmp unfolding m
      by (auto split: if_splits)
  qed
qed

section \<open>Properties of the comparison\<close>

text \<open>
  C2. The exit status can be trusted whatever fails: a status other than 2 means that both
  files were read completely and are well-formed, that the whole text of their difference has
  been accepted by stdout and flushed, and the status is 0 exactly when the maps are equal.
\<close>

theorem compare_snapshots_sound:
  assumes "compare_snapshots opens p1 p2 s = (status, s1)" and "status \<noteq> 2"
  shows "\<exists>f1 f2 m1 m2. opens 0 p1 = Inr f1 \<and> opens 1 p2 = Inr f2
    \<and> \<not> rd_error f1 \<and> \<not> rd_error f2 \<and> file_map (rest f1) = Some m1 \<and> file_map (rest f2) = Some m2
    \<and> status = (if m1 = m2 then 0 else 1)
    \<and> text_of Stdout s1 = text_of Stdout s @ diff_text (map_diff m1 m2)
    \<and> \<not> ferr (out s1) \<and> flush_errno (out s1) = None"
  by (rule compare_snapshots_accepts [OF assms])

abbreviation sample_a :: "char list" where "sample_a \<equiv> ''b.b=2'' @ [LF] @ ''a.a=1''"
abbreviation sample_opens :: "nat \<Rightarrow> cstr \<Rightarrow> nat + cfile" where
  "sample_opens \<equiv> (\<lambda>n p. Inr (sample_file (if p = ''a'' then sample_a else [])))"

lemma sample_maps:
  "file_map sample_a = Some [''a.a'' \<mapsto> ''1'', ''b.b'' \<mapsto> ''2'']" "file_map [] = Some Map.empty"
proof -
  have "snapshot_spec [] = Some []" by (simp add: snapshot_spec_def)
  then show "file_map [] = Some Map.empty" by (simp add: file_map_def)
  show "file_map sample_a = Some [''a.a'' \<mapsto> ''1'', ''b.b'' \<mapsto> ''2'']"
    unfolding file_map_def sample_spec by (auto simp: entry_map_Cons)
qed

lemma sample_opens:
  "sample_opens 0 ''a'' = Inr (sample_file sample_a)" "sample_opens 1 ''b'' = Inr (sample_file [])"
  by simp_all

lemma sample_file_simps [simp]:
  "rest (sample_file bs) = bs" "\<not> rd_error (sample_file bs)" "close_errno (sample_file bs) = None"
  by (simp_all add: sample_file_def)

lemma sample_differ: "[''a.a'' \<mapsto> ''1'', ''b.b'' \<mapsto> ''2''] \<noteq> (Map.empty :: cstr \<rightharpoonup> cstr)"
  by (metis fun_upd_same option.distinct(1))

lemma sample_compare:
  "\<exists>t. compare_snapshots sample_opens ''a'' ''b'' clear_io = (1, emit Stdout t clear_io)"
proof -
  obtain b where b: "parse_snapshot (sample_opens 0) ''a'' no_snapshot clear_io = (0, b, clear_io)"
    "items b = [\<lparr>ent_key = ''a.a'', ent_val = ''1''\<rparr>, \<lparr>ent_key = ''b.b'', ent_val = ''2''\<rparr>]"
    using parse_snapshot_complete [where fopen = "sample_opens 0" and path = "''a''" and s = clear_io
      and f = "sample_file sample_a"] sample_spec by (auto simp: clear_io_def simp del: append.simps)
  obtain a where a: "parse_snapshot (sample_opens 1) ''b'' no_snapshot clear_io = (0, a, clear_io)"
    "items a = []"
    using parse_snapshot_complete [where fopen = "sample_opens 1" and path = "''b''" and s = clear_io
      and f = "sample_file []" and es = "[]"] by (auto simp: clear_io_def snapshot_spec_def)
  show ?thesis
    using a b faultlessD [OF faultless_clear_io] faultlessD(5,6) [where s = "emit Stdout t clear_io" for t]
    by (simp add: compare_snapshots_def emit_diff_write c_write_quiet complete_stdout_def
        del: One_nat_def) blast
qed

theorem compare_snapshots_correct_witness:
  "\<exists>t. compare_snapshots sample_opens ''a'' ''b'' clear_io = (1, emit Stdout t clear_io)
     \<and> (\<exists>cs. parse_diff t = Some cs \<and> fold apply_change cs [''a.a'' \<mapsto> ''1'', ''b.b'' \<mapsto> ''2''] = Map.empty)"
proof -
  let ?m = "[''a.a'' \<mapsto> ''1'', ''b.b'' \<mapsto> ''2''] :: cstr \<rightharpoonup> cstr"
  have "\<exists>t. compare_snapshots sample_opens ''a'' ''b'' clear_io
        = (if ?m = Map.empty then 0 else 1, emit Stdout t clear_io)
      \<and> t = diff_text (map_diff ?m Map.empty)
      \<and> (\<exists>cs. parse_diff t = Some cs \<and> fold apply_change cs ?m = Map.empty)"
    by (rule compare_snapshots_correct [where opens = sample_opens and ?p1.0 = "''a''" and ?p2.0 = "''b''"
        and ?f1.0 = "sample_file sample_a" and ?f2.0 = "sample_file []"])
      (simp_all add: sample_maps del: append.simps)
  with sample_differ show ?thesis by auto
qed

theorem compare_snapshots_sound_witness:
  "\<exists>t. compare_snapshots sample_opens ''a'' ''b'' clear_io = (1, emit Stdout t clear_io)
     \<and> t = diff_text (map_diff [''a.a'' \<mapsto> ''1'', ''b.b'' \<mapsto> ''2''] Map.empty)"
proof -
  obtain status s1 where r: "compare_snapshots sample_opens ''a'' ''b'' clear_io = (status, s1)"
    by (cases "compare_snapshots sample_opens ''a'' ''b'' clear_io")
  have c: "\<exists>t. (status, s1) = (1, emit Stdout t clear_io)"
    using r sample_compare by auto
  then have "status \<noteq> 2" by auto
  from compare_snapshots_sound [OF r this] c r sample_maps show ?thesis
    by (auto simp: text_of_def clear_io_def clear_stream_def simp del: append.simps)
      (auto simp: emit_def)
qed

theorem compare_snapshots_fail_closed_witness:
  "\<exists>s1. compare_snapshots (\<lambda>n p. Inl 2) ''a'' ''b'' clear_io = (2, s1) \<and> out s1 = out clear_io"
proof -
  obtain status s1 where r: "compare_snapshots (\<lambda>n p. Inl 2) ''a'' ''b'' clear_io = (status, s1)"
    by (cases "compare_snapshots (\<lambda>n p. Inl 2) ''a'' ''b'' clear_io")
  with compare_snapshots_fail_closed [OF _ r] show ?thesis by simp
qed

theorem sysdiff_main_status_witness:
  "\<exists>s1. main None (\<lambda>n p. Inl 2) [''sysdiff'', ''--version''] clear_io = (0, s1)
     \<and> text_of Stdout s1 = ''sysdiff 0.1.0'' @ [LF]"
proof -
  have "main None (\<lambda>n p. Inl 2) [''sysdiff'', ''--version''] clear_io
      = (0, emit Stdout (''sysdiff 0.1.0'' @ [LF]) clear_io)"
    using faultlessD [where s = "emit Stdout (''sysdiff 0.1.0'' @ [LF]) clear_io"]
      faultlessD(1) [OF faultless_clear_io]
    by (simp add: main_def ignore_sigpipe_for_stdout_def c_write_quiet complete_stdout_def
        del: append.simps)
  from sysdiff_main_status [OF this] this show ?thesis
    by (auto simp: text_of_def clear_io_def clear_stream_def)
qed

text \<open>
  The separator of a changed line.  The first \<open>" -> "\<close> is always the one the code wrote, but it
  need not be the only one: a new value that starts with \<open>"-> "\<close> makes a second one together
  with the last blank of the separator.
\<close>

lemma two_separators:
  "changed_line ''k.k'' ''a'' ''-> x'' = ''~ k.k: a'' @ '' ->'' @ '' -> x'' @ [LF]"
  by (simp add: changed_line_def esc_bytes_def printable_def)

end
