(* ===== verification/Numbers.thy ===== *)
theory Numbers
  imports Runtime
begin

text \<open>
  Decimal numerals as the sources read and print them: the value of a run of digits, and the
  round trip with the formatting of \<open>Runtime\<close> (\<open>%zu\<close>).  Shared by every utility that parses a
  limit, a depth, a descriptor number or a duration.
\<close>

section \<open>Digits\<close>

definition is_digit :: "char \<Rightarrow> bool" where
  "is_digit c \<longleftrightarrow> ubyte (CHR ''0'') \<le> ubyte c \<and> ubyte c \<le> ubyte (CHR ''9'')"

definition digit_value :: "char \<Rightarrow> nat" where "digit_value c = ubyte c - 48"

definition dec_value :: "cstr \<Rightarrow> nat" where
  "dec_value t = foldl (\<lambda>v c. 10 * v + digit_value c) 0 t"

lemma dec_value_Nil [simp]: "dec_value [] = 0"
  by (simp add: dec_value_def)

lemma dec_value_snoc [simp]: "dec_value (t @ [c]) = 10 * dec_value t + digit_value c"
  by (simp add: dec_value_def)

lemma dec_value_single [simp]: "dec_value [c] = digit_value c"
  by (simp add: dec_value_def)

lemma digit_value_less: "is_digit c \<Longrightarrow> digit_value c < 10"
  by (auto simp: is_digit_def digit_value_def)

lemma dec_digit_simps [simp]:
  "d < 10 \<Longrightarrow> is_digit (dec_digit d)" "d < 10 \<Longrightarrow> digit_value (dec_digit d) = d"
  by (auto simp: is_digit_def digit_value_def dec_digit_def)

lemma dec_digit_value: "is_digit c \<Longrightarrow> dec_digit (digit_value c) = c"
  by (auto simp: is_digit_def digit_value_def dec_digit_def)

lemma dec_not_Nil [simp]: "dec n \<noteq> []"
  by (subst dec.simps) auto

lemma dec_digits: "c \<in> set (dec n) \<Longrightarrow> is_digit c"
  by (induction n rule: dec.induct) (subst (asm) (2) dec.simps, auto split: if_splits)

lemma dec_value_dec [simp]: "dec_value (dec n) = n"
proof (induction n rule: dec.induct)
  case (1 n)
  then show ?case by (subst dec.simps) simp
qed

lemma dec_inject [simp]: "dec m = dec n \<longleftrightarrow> m = n"
  by (metis dec_value_dec)

lemma hd_dec: "hd (dec n) = CHR ''0'' \<longleftrightarrow> n = 0"
proof (induction n rule: dec.induct)
  case (1 n)
  have "dec_digit d = CHR ''0'' \<longleftrightarrow> d = 0" if "d < 10" for d
  proof -
    have "digit_value (CHR ''0'') = 0" by (simp add: digit_value_def)
    moreover have "dec_digit 0 = CHR ''0''" by (simp add: dec_digit_def char_of_eq_iff)
    ultimately show ?thesis using dec_digit_simps(2) [OF that] by auto
  qed
  with 1 show ?case by (subst dec.simps) auto
qed

text \<open>A numeral without leading zero is the one \<open>dec\<close> prints.\<close>

lemma dec_of_value:
  assumes "\<forall>c \<in> set t. is_digit c" and "t \<noteq> []" and "hd t \<noteq> CHR ''0'' \<or> length t = 1"
  shows "dec (dec_value t) = t"
  using assms
proof (induction t rule: rev_induct)
  case (snoc c t)
  show ?case
  proof (cases "t = []")
    case True
    with snoc.prems digit_value_less [of c] dec_digit_value [of c] show ?thesis
      by (subst dec.simps) simp
  next
    case False
    with snoc have t: "dec (dec_value t) = t" by auto
    have "hd t \<noteq> CHR ''0''" using snoc.prems False by auto
    then have "dec_value t \<noteq> 0" using hd_dec [of "dec_value t"] t by simp
    then have "\<not> 10 * dec_value t + digit_value c < 10" by simp
    moreover have d: "digit_value c < 10" using snoc.prems digit_value_less by simp
    ultimately show ?thesis
      using t d dec_digit_value [of c] snoc.prems by (subst dec.simps) simp
  qed
qed simp

lemma foldl_digits_ge: "acc \<le> foldl (\<lambda>v c. 10 * v + digit_value c) acc p"
proof (induction p arbitrary: acc)
  case (Cons c p)
  have "acc \<le> 10 * acc + digit_value c" by simp
  also have "\<dots> \<le> foldl (\<lambda>v c. 10 * v + digit_value c) (10 * acc + digit_value c) p" by (rule Cons.IH)
  finally show ?case by simp
qed simp

lemma length_dec_le: "n < 10 ^ k \<Longrightarrow> 0 < k \<Longrightarrow> length (dec n) \<le> k"
proof (induction k arbitrary: n)
  case (Suc k)
  show ?case
  proof (cases "n < 10")
    case True
    then show ?thesis by (subst dec.simps) simp
  next
    case False
    then have "0 < k" using Suc.prems by (cases k) simp_all
    with Suc.IH [of "n div 10"] Suc.prems False show ?thesis
      by (subst dec.simps) (simp add: less_mult_imp_div_less mult.commute)
  qed
qed simp

lemma dec_0: "dec 0 = ''0''"
  by (simp add: dec.simps dec_digit_def char_of_eq_iff)

section \<open>Padding and scanning\<close>

text \<open>\<open>%05zu\<close>.\<close>

definition pad5 :: "cstr \<Rightarrow> cstr" where
  "pad5 t = replicate (5 - length t) (CHR ''0'') @ t"

lemma dec_value_zeros: "dec_value (replicate k (CHR ''0'') @ t) = dec_value t"
proof (induction t rule: rev_induct)
  case Nil
  show ?case by (induction k) (simp_all add: dec_value_def digit_value_def)
next
  case (snoc c t)
  then show ?case by (simp flip: append_assoc)
qed

lemma pad5_dec_inject: "pad5 (dec m) = pad5 (dec n) \<longleftrightarrow> m = n"
  by (metis dec_value_dec dec_value_zeros pad5_def)

text \<open>
  \<open>strtoull(text, &end, 10)\<close> of a text that starts with a digit: the value, what is left at
  \<open>end\<close>, and whether \<open>errno\<close> is \<open>ERANGE\<close> (the value is then \<open>ULLONG_MAX\<close>).
\<close>

definition strtoull_digits :: "cstr \<Rightarrow> nat \<times> cstr \<times> bool" where
  "strtoull_digits t =
     (let v = dec_value (takeWhile is_digit t) in
      (min v 18446744073709551615, dropWhile is_digit t, v > 18446744073709551615))"

end
