(* ===== verification/Snslice_Code.thy ===== *)
theory Snslice_Code
  imports Escaping Numbers
begin

text \<open>
  \<open>src/snslice.c\<close>: the sanitised diagnostics, the parser of limits, the chunk files and the
  state machine that cuts an NDJSON or CSV stream at record boundaries.  The files, the open
  descriptors and the standard streams are the \<open>world\<close>; each system call consumes the next
  entry of its script of faults and succeeds when the script is empty.  The answers of
  \<open>read\<close> are a list of their own.
\<close>

section \<open>Constants, configuration, state\<close>

definition SNSLICE_MAX_RECORD_BYTES :: nat where "SNSLICE_MAX_RECORD_BYTES = 16777216"
definition PATH_MAX :: nat where "PATH_MAX = 4096"
definition EINTR :: nat where "EINTR = 4"
definition EEXIST :: nat where "EEXIST = 17"
definition EPIPE :: nat where "EPIPE = 32"

datatype FormatType = FORMAT_NDJSON | FORMAT_CSV

datatype CsvState = CSV_STATE_START | CSV_STATE_UNQUOTED | CSV_STATE_QUOTED
  | CSV_STATE_ESCAPED_QUOTE

record SnSliceConfig =
  format :: FormatType
  limit_bytes :: nat
  limit_records :: nat
  out_dir :: cstr
  prefix :: cstr
  input_path :: "cstr option"

record SnSliceState =
  input_fd :: int
  close_input_fd :: bool
  active_chunk_fd :: int
  active_chunk_path :: cstr
  chunk_index :: nat
  chunk_bytes :: nat
  chunk_records :: nat
  record_bytes :: nat
  total_input_bytes :: nat
  csv_state :: CsvState

section \<open>The world\<close>

datatype write_answer = Written nat | WriteError nat
datatype read_answer = ReadData "char list" | ReadError nat

record world =
  files :: "cstr \<Rightarrow> char list option"
  fds :: "int \<Rightarrow> cstr option"
  next_fd :: int
  open_script :: "nat option list"
  write_script :: "write_answer list"
  close_script :: "bool list"
  unlink_script :: "bool list"
  closed :: "int list"
  sio :: io

text \<open>\<open>open(path, O_CREAT | O_EXCL | O_WRONLY, 0644)\<close>; a failure sets \<open>errno\<close> and gives -1.\<close>

definition c_open_excl :: "cstr \<Rightarrow> world \<Rightarrow> int \<times> world" where
  "c_open_excl path w =
     (let fault = (case open_script w of [] \<Rightarrow> None | f # _ \<Rightarrow> f);
          w1 = w\<lparr>open_script := tl (open_script w)\<rparr>;
          fail = (\<lambda>e. (-1, w1\<lparr>sio := (sio w1)\<lparr>errno := e\<rparr>\<rparr>)) in
      case fault of
        Some e \<Rightarrow> fail e
      | None \<Rightarrow>
          if files w1 path \<noteq> None then fail EEXIST
          else (next_fd w1, w1\<lparr>files := (files w1)(path \<mapsto> []),
                  fds := (fds w1)(next_fd w1 \<mapsto> path), next_fd := next_fd w1 + 1\<rparr>))"

text \<open>\<open>write(fd, data, length data)\<close>: what was accepted is a prefix of the data.\<close>

definition c_write_fd :: "int \<Rightarrow> char list \<Rightarrow> world \<Rightarrow> int \<times> world" where
  "c_write_fd fd data w =
     (let w1 = w\<lparr>write_script := tl (write_script w)\<rparr>;
          accept = (\<lambda>k. (int k,
             (case fds w1 fd of
                None \<Rightarrow> w1
              | Some path \<Rightarrow>
                  w1\<lparr>files := (files w1)(path \<mapsto> the (files w1 path) @ take k data)\<rparr>))) in
      case write_script w of
        [] \<Rightarrow> accept (length data)
      | Written k # _ \<Rightarrow> accept (min k (length data))
      | WriteError e # _ \<Rightarrow> (-1, w1\<lparr>sio := (sio w1)\<lparr>errno := e\<rparr>\<rparr>))"

definition c_close :: "int \<Rightarrow> world \<Rightarrow> int \<times> world" where
  "c_close fd w =
     (let ok = (case close_script w of [] \<Rightarrow> True | b # _ \<Rightarrow> b) in
      (if ok then 0 else -1,
       w\<lparr>close_script := tl (close_script w), fds := (fds w)(fd := None),
         closed := closed w @ [fd]\<rparr>))"

definition c_unlink :: "cstr \<Rightarrow> world \<Rightarrow> world" where
  "c_unlink path w =
     (let ok = (case unlink_script w of [] \<Rightarrow> True | b # _ \<Rightarrow> b);
          w1 = w\<lparr>unlink_script := tl (unlink_script w)\<rparr> in
      if ok then w1\<lparr>files := (files w1)(path := None)\<rparr> else w1)"

section \<open>Diagnostics\<close>

text \<open>
  The loop of \<open>sanitize_string\<close>: \<open>dst\<close> is what has been stored, and the loop goes on while
  the longest escape and the terminating NUL still fit.
\<close>

fun sanitize_loop :: "cstr \<Rightarrow> cstr \<Rightarrow> nat \<Rightarrow> cstr" where
  "sanitize_loop [] dst dst_size = dst"
| "sanitize_loop (b # src) dst dst_size =
     (if length dst + 5 < dst_size then
        sanitize_loop src
          (dst @ (if b = DQ then [BSL, CHR ''x'', CHR ''2'', CHR ''2'']
                  else if b = BSL then [BSL, CHR ''x'', CHR ''5'', CHR ''C'']
                  else if ubyte b \<ge> 0x20 \<and> ubyte b \<le> 0x7E then [b]
                  else [BSL, CHR ''x'', hex_upper (ubyte b div 16 mod 16),
                        hex_upper (ubyte b mod 16)])) dst_size
      else dst)"

text \<open>The C string in the destination; \<open>None\<close> when a destination of size 0 is left alone.\<close>

definition sanitize_string :: "cstr \<Rightarrow> nat \<Rightarrow> cstr option" where
  "sanitize_string src dst_size =
     (if dst_size = 0 then None else Some (sanitize_loop src [] dst_size))"

definition sanitized :: "cstr \<Rightarrow> nat \<Rightarrow> cstr" where
  "sanitized src dst_size = the (sanitize_string src dst_size)"

text \<open>The details are formatted into 2048 bytes by \<open>vsnprintf\<close>, which truncates.\<close>

definition emit_diagnostic :: "cstr \<Rightarrow> cstr \<Rightarrow> world \<Rightarrow> world" where
  "emit_diagnostic hazard details w =
     w\<lparr>sio := ignore_result
        (c_write Stderr (''snslice: '' @ hazard @ '': '' @ take 2047 details @ [LF])) (sio w)\<rparr>"

definition quote :: "cstr \<Rightarrow> cstr" where
  "quote t = CHR 0x27 # t @ [CHR 0x27]"

definition parse_positive_size :: "cstr \<Rightarrow> nat option" where
  "parse_positive_size str =
     (case str of
        [] \<Rightarrow> None
      | c # _ \<Rightarrow>
          if ubyte c < ubyte (CHR ''0'') \<or> ubyte c > ubyte (CHR ''9'') then None
          else (case strtoull_digits str of
                  (val1, endptr, erange) \<Rightarrow>
                    if erange \<or> endptr \<noteq> [] \<or> endptr = str \<or> val1 = 0 \<or> val1 > SIZE_MAX
                    then None else Some val1))"

section \<open>Chunk files\<close>

definition abort_cleanup :: "SnSliceState \<Rightarrow> world \<Rightarrow> SnSliceState \<times> world" where
  "abort_cleanup st w =
     (let (st1, w1) =
        (if active_chunk_fd st \<ge> 0 then
           (let w1 = snd (c_close (active_chunk_fd st) w);
                st1 = st\<lparr>active_chunk_fd := -1\<rparr> in
            if active_chunk_path st1 \<noteq> []
            then (st1\<lparr>active_chunk_path := []\<rparr>, c_unlink (active_chunk_path st1) w1)
            else (st1, w1))
         else (st, w)) in
      if close_input_fd st1 \<and> input_fd st1 \<ge> 0
      then (st1\<lparr>input_fd := -1\<rparr>, snd (c_close (input_fd st1) w1))
      else (st1, w1))"

definition chunk_name :: "SnSliceConfig \<Rightarrow> nat \<Rightarrow> cstr" where
  "chunk_name cfg n =
     (let ext = (if format cfg = FORMAT_NDJSON then ''ndjson'' else ''csv'') in
      if length (out_dir cfg) > 0 \<and> last (out_dir cfg) = CHR ''/''
      then out_dir cfg @ prefix cfg @ pad5 (dec n) @ ''.'' @ ext
      else out_dir cfg @ ''/'' @ prefix cfg @ pad5 (dec n) @ ''.'' @ ext)"

definition open_chunk :: "SnSliceConfig \<Rightarrow> SnSliceState \<Rightarrow> world \<Rightarrow> int \<times> SnSliceState \<times> world"
where
  "open_chunk cfg st w =
     (let path = chunk_name cfg (chunk_index st) in
      if length path \<ge> PATH_MAX then
        (-1, st\<lparr>active_chunk_path := []\<rparr>,
         emit_diagnostic ''OUTPUT_DIR_ERROR''
           (''path length exceeds maximum limit: '' @ quote (sanitized (out_dir cfg) 1024)) w)
      else
        (case c_open_excl path w of
           (fd, w1) \<Rightarrow>
             if fd < 0 then
               (let san = sanitized path (PATH_MAX * 4); e = errno (sio w1) in
                (-1, st\<lparr>active_chunk_path := []\<rparr>,
                 if e = EEXIST then emit_diagnostic ''OUTPUT_COLLISION'' (DQ # san @ [DQ]) w1
                 else emit_diagnostic ''CHUNK_OPEN_ERROR''
                        (''failed to open '' @ quote san @ '': '' @ strerror_of (sio w1) e) w1))
             else (0, st\<lparr>active_chunk_path := path, active_chunk_fd := fd\<rparr>, w1)))"

definition close_chunk :: "SnSliceState \<Rightarrow> world \<Rightarrow> int \<times> SnSliceState \<times> world" where
  "close_chunk st w =
     (if active_chunk_fd st < 0 then (0, st, w)
      else
        (case c_close (active_chunk_fd st) w of
           (res, w1) \<Rightarrow>
             let st1 = st\<lparr>active_chunk_fd := -1\<rparr> in
             if res \<noteq> 0 then
               (let san = sanitized (active_chunk_path st1) (PATH_MAX * 4) in
                (-1, st1\<lparr>active_chunk_path := []\<rparr>,
                 emit_diagnostic ''CHUNK_WRITE_ERROR''
                   (''failed to close chunk file: '' @ quote san)
                   (c_unlink (active_chunk_path st1) w1)))
             else
               (0, st1\<lparr>active_chunk_path := [], chunk_index := size_plus (chunk_index st1) 1,
                       chunk_bytes := 0, chunk_records := 0\<rparr>, w1)))"

lemma c_write_fd_progress:
  "c_write_fd fd data w = (n, w1) \<Longrightarrow> data \<noteq> [] \<Longrightarrow>
     length (write_script w1) + length (drop (nat n) data) < length (write_script w) + length data"
  by (auto simp: c_write_fd_def Let_def split: list.splits write_answer.splits option.splits)

text \<open>\<open>data\<close> is what has not been written yet; -1 is failure.\<close>

function write_all :: "int \<Rightarrow> char list \<Rightarrow> world \<Rightarrow> int \<times> world" where
  "write_all fd data w =
     (if data = [] then (0, w)
      else (case c_write_fd fd data w of
              (n, w1) \<Rightarrow>
                if n < 0 then (if errno (sio w1) = EINTR then write_all fd data w1 else (-1, w1))
                else if n = 0 then (-1, w1)
                else (case write_all fd (drop (nat n) data) w1 of
                        (r, w2) \<Rightarrow> (if r < 0 then -1 else n + r, w2))))"
  by pat_completeness auto
termination
  by (relation "measure (\<lambda>(fd, data, w). length (write_script w) + length data)")
    (auto dest: c_write_fd_progress [OF sym])

declare write_all.simps [simp del]

definition write_to_chunk ::
  "SnSliceConfig \<Rightarrow> SnSliceState \<Rightarrow> char list \<Rightarrow> world \<Rightarrow> int \<times> SnSliceState \<times> world" where
  "write_to_chunk cfg st data w =
     (if length data = 0 then (0, st, w)
      else
        (case (if active_chunk_fd st < 0 then open_chunk cfg st w else (0, st, w)) of
           (r, st1, w1) \<Rightarrow>
             if r \<noteq> 0 then (-1, st1, w1)
             else
               (case write_all (active_chunk_fd st1) data w1 of
                  (n, w2) \<Rightarrow>
                    if n < 0 then
                      (let san = sanitized (active_chunk_path st1) (PATH_MAX * 4);
                           save_errno = errno (sio w2);
                           (st2, w3) = abort_cleanup st1 w2 in
                       (-1, st2,
                        if save_errno = EPIPE
                        then emit_diagnostic ''BROKEN_PIPE''
                               (''output pipe broken while writing to '' @ quote san) w3
                        else emit_diagnostic ''CHUNK_WRITE_ERROR''
                               (''failed to write to '' @ quote san @ '': ''
                                @ strerror_of (sio w3) save_errno) w3))
                    else
                      (0, st1\<lparr>chunk_bytes := size_plus (chunk_bytes st1) (length data)\<rparr>, w2))))"

section \<open>Slicing\<close>

text \<open>One byte of the CSV state machine: the next state and whether a record ends.\<close>

fun csv_step :: "CsvState \<Rightarrow> char \<Rightarrow> (CsvState \<times> bool) option" where
  "csv_step CSV_STATE_START c =
     (if c = DQ then Some (CSV_STATE_QUOTED, False)
      else if c = LF then Some (CSV_STATE_START, True)
      else if c = CHR '','' \<or> c = CR then Some (CSV_STATE_START, False)
      else Some (CSV_STATE_UNQUOTED, False))"
| "csv_step CSV_STATE_UNQUOTED c =
     (if c = CHR '','' then Some (CSV_STATE_START, False)
      else if c = LF then Some (CSV_STATE_START, True)
      else Some (CSV_STATE_UNQUOTED, False))"
| "csv_step CSV_STATE_QUOTED c =
     (if c = DQ then Some (CSV_STATE_ESCAPED_QUOTE, False) else Some (CSV_STATE_QUOTED, False))"
| "csv_step CSV_STATE_ESCAPED_QUOTE c =
     (if c = DQ then Some (CSV_STATE_QUOTED, False)
      else if c = CHR '','' then Some (CSV_STATE_START, False)
      else if c = LF then Some (CSV_STATE_START, True)
      else if c = CR then Some (CSV_STATE_ESCAPED_QUOTE, False)
      else None)"

definition record_step :: "FormatType \<Rightarrow> CsvState \<Rightarrow> char \<Rightarrow> (CsvState \<times> bool) option" where
  "record_step fmt s c = (if fmt = FORMAT_NDJSON then Some (s, c = LF) else csv_step s c)"

definition fail_with ::
  "cstr \<Rightarrow> cstr \<Rightarrow> SnSliceState \<Rightarrow> world \<Rightarrow> int \<times> SnSliceState \<times> world" where
  "fail_with hazard details st w =
     (case abort_cleanup st w of (st1, w1) \<Rightarrow> (-1, st1, emit_diagnostic hazard details w1))"

text \<open>
  The record that has just ended is written, counted, and the chunk is closed when a limit is
  reached.
\<close>

definition end_record ::
  "SnSliceConfig \<Rightarrow> char list \<Rightarrow> SnSliceState \<Rightarrow> world \<Rightarrow> int \<times> SnSliceState \<times> world" where
  "end_record cfg slice st w =
     (case write_to_chunk cfg st slice w of
        (r, st1, w1) \<Rightarrow>
          if r \<noteq> 0 then (-1, st1, w1)
          else
            (let st2 = st1\<lparr>record_bytes := 0, chunk_records := size_plus (chunk_records st1) 1\<rparr>;
                 should_split =
                   (limit_bytes cfg > 0 \<and> chunk_bytes st2 \<ge> limit_bytes cfg)
                   \<or> (limit_records cfg > 0 \<and> chunk_records st2 \<ge> limit_records cfg) in
             if should_split then
               (case close_chunk st2 w1 of
                  (r1, st3, w2) \<Rightarrow> (if r1 \<noteq> 0 then -1 else 0, st3, w2))
             else (0, st2, w1)))"

text \<open>
  The loop over the bytes of one read: \<open>slice\<close> is the part of the buffer from \<open>slice_start\<close> to
  \<open>i\<close>.  The first component of the result is 0 or -1, the second what is left from
  \<open>slice_start\<close> on.
\<close>

fun slice_bytes ::
  "SnSliceConfig \<Rightarrow> char list \<Rightarrow> char list \<Rightarrow> SnSliceState \<Rightarrow> world
    \<Rightarrow> int \<times> char list \<times> SnSliceState \<times> world" where
  "slice_bytes cfg slice [] st w = (0, slice, st, w)"
| "slice_bytes cfg slice (c # cs) st w =
     (if c = NUL then
        (case fail_with (if format cfg = FORMAT_NDJSON then ''MALFORMED_NDJSON''
                         else ''MALFORMED_CSV'') ''embedded NUL byte detected'' st w of
           (r, st1, w1) \<Rightarrow> (r, slice, st1, w1))
      else
        (let st1 = st\<lparr>record_bytes := size_plus (record_bytes st) 1\<rparr> in
         if record_bytes st1 > SNSLICE_MAX_RECORD_BYTES then
           (case fail_with ''RECORD_LENGTH_LIMIT'' ''record exceeds 16 MiB limit'' st1 w of
              (r, st2, w1) \<Rightarrow> (r, slice, st2, w1))
         else
           (case record_step (format cfg) (csv_state st1) c of
              None \<Rightarrow>
                (case fail_with ''MALFORMED_CSV'' ''invalid character after closing quote'' st1 w of
                   (r, st2, w1) \<Rightarrow> (r, slice, st2, w1))
            | Some (s1, is_record_boundary) \<Rightarrow>
                (let st2 = st1\<lparr>csv_state := s1\<rparr> in
                 if is_record_boundary then
                   (case end_record cfg (slice @ [c]) st2 w of
                      (r, st3, w1) \<Rightarrow>
                        if r \<noteq> 0 then (-1, [], st3, w1) else slice_bytes cfg [] cs st3 w1)
                 else slice_bytes cfg (slice @ [c]) cs st2 w))))"

definition finish_stream ::
  "SnSliceConfig \<Rightarrow> SnSliceState \<Rightarrow> world \<Rightarrow> int \<times> SnSliceState \<times> world" where
  "finish_stream cfg st w =
     (if total_input_bytes st = 0 then (0, st, w)
      else if format cfg = FORMAT_NDJSON then
        (if record_bytes st > 0
         then fail_with ''MALFORMED_NDJSON'' ''unterminated record at EOF'' st w
         else (case close_chunk st w of (r, st1, w1) \<Rightarrow> (if r \<noteq> 0 then -1 else 0, st1, w1)))
      else if csv_state st = CSV_STATE_QUOTED
      then fail_with ''MALFORMED_CSV'' ''unterminated quoted field at EOF'' st w
      else
        (let st1 = (if record_bytes st > 0
                    then st\<lparr>chunk_records := size_plus (chunk_records st) 1\<rparr> else st) in
         case close_chunk st1 w of (r, st2, w1) \<Rightarrow> (if r \<noteq> 0 then -1 else 0, st2, w1)))"

text \<open>The answers of \<open>read\<close>; when none is left the stream is at its end.\<close>

fun stream_slice ::
  "SnSliceConfig \<Rightarrow> read_answer list \<Rightarrow> SnSliceState \<Rightarrow> world \<Rightarrow> int \<times> SnSliceState \<times> world"
where
  "stream_slice cfg [] st w = finish_stream cfg st w"
| "stream_slice cfg (ReadError e # reads) st w =
     (if e = EINTR then stream_slice cfg reads st w
      else fail_with ''INPUT_READ_ERROR'' (''read error: '' @ strerror_of (sio w) e) st w)"
| "stream_slice cfg (ReadData data # reads) st w =
     (if data = [] then finish_stream cfg st w
      else
        (let st0 = st\<lparr>total_input_bytes := size_plus (total_input_bytes st) (length data)\<rparr> in
         case slice_bytes cfg [] data st0 w of
           (r, rest, st1, w1) \<Rightarrow>
             if r \<noteq> 0 then (-1, st1, w1)
             else
               (case (if rest \<noteq> [] then write_to_chunk cfg st1 rest w1 else (0, st1, w1)) of
                  (r1, st2, w2) \<Rightarrow>
                    if r1 \<noteq> 0 then (-1, st2, w2) else stream_slice cfg reads st2 w2)))"

definition init_state :: "int \<Rightarrow> bool \<Rightarrow> SnSliceState" where
  "init_state fd close_it =
     \<lparr>input_fd = fd, close_input_fd = close_it, active_chunk_fd = -1, active_chunk_path = [],
      chunk_index = 1, chunk_bytes = 0, chunk_records = 0, record_bytes = 0,
      total_input_bytes = 0, csv_state = CSV_STATE_START\<rparr>"

section \<open>The command line\<close>

text \<open>Every error of the command line is one diagnostic and status 2: \<open>Inl (hazard, details)\<close>.\<close>

definition needs_argument :: "cstr \<Rightarrow> cstr \<times> cstr" where
  "needs_argument arg =
     (''USAGE_ERROR'', ''option '' @ quote (sanitized arg 1024) @ '' requires an argument'')"

definition set_bytes :: "cstr \<Rightarrow> SnSliceConfig \<Rightarrow> (cstr \<times> cstr) + SnSliceConfig" where
  "set_bytes v cfg =
     (case parse_positive_size v of
        Some n \<Rightarrow> Inr (cfg\<lparr>limit_bytes := n\<rparr>)
      | None \<Rightarrow> Inl (''INVALID_LIMIT'', ''invalid bytes limit: '' @ quote (sanitized v 1024)))"

definition set_records :: "cstr \<Rightarrow> SnSliceConfig \<Rightarrow> (cstr \<times> cstr) + SnSliceConfig" where
  "set_records v cfg =
     (case parse_positive_size v of
        Some n \<Rightarrow> Inr (cfg\<lparr>limit_records := n\<rparr>)
      | None \<Rightarrow> Inl (''INVALID_LIMIT'', ''invalid records limit: '' @ quote (sanitized v 1024)))"

definition set_format :: "cstr \<Rightarrow> SnSliceConfig \<Rightarrow> (cstr \<times> cstr) + SnSliceConfig" where
  "set_format v cfg =
     (if strcmp v ''ndjson'' = 0 then Inr (cfg\<lparr>format := FORMAT_NDJSON\<rparr>)
      else if strcmp v ''csv'' = 0 then Inr (cfg\<lparr>format := FORMAT_CSV\<rparr>)
      else Inl (''INVALID_FORMAT'', ''invalid format: '' @ quote (sanitized v 1024)))"

definition set_out_dir :: "cstr \<Rightarrow> SnSliceConfig \<Rightarrow> (cstr \<times> cstr) + SnSliceConfig" where
  "set_out_dir v cfg = Inr (cfg\<lparr>out_dir := v\<rparr>)"

definition set_prefix :: "cstr \<Rightarrow> SnSliceConfig \<Rightarrow> (cstr \<times> cstr) + SnSliceConfig" where
  "set_prefix v cfg = Inr (cfg\<lparr>prefix := v\<rparr>)"

text \<open>An option with its argument in the next word, or behind \<open>=\<close> in the same one.\<close>

definition option_with_word ::
  "cstr \<Rightarrow> (cstr \<Rightarrow> SnSliceConfig \<Rightarrow> (cstr \<times> cstr) + SnSliceConfig) option" where
  "option_with_word arg =
     (if arg = ''-b'' \<or> arg = ''--bytes'' then Some set_bytes
      else if arg = ''-r'' \<or> arg = ''--records'' then Some set_records
      else if arg = ''-f'' \<or> arg = ''--format'' then Some set_format
      else if arg = ''-d'' \<or> arg = ''--out-dir'' then Some set_out_dir
      else if arg = ''-p'' \<or> arg = ''--prefix'' then Some set_prefix
      else None)"

definition option_with_equals ::
  "cstr \<Rightarrow> (SnSliceConfig \<Rightarrow> (cstr \<times> cstr) + SnSliceConfig) option" where
  "option_with_equals arg =
     (if take 8 arg = ''--bytes='' then Some (set_bytes (drop 8 arg))
      else if take 10 arg = ''--records='' then Some (set_records (drop 10 arg))
      else if take 9 arg = ''--format='' then Some (set_format (drop 9 arg))
      else if take 10 arg = ''--out-dir='' then Some (set_out_dir (drop 10 arg))
      else if take 9 arg = ''--prefix='' then Some (set_prefix (drop 9 arg))
      else None)"

fun parse_args ::
  "bool \<Rightarrow> cstr list \<Rightarrow> SnSliceConfig \<Rightarrow> (cstr \<times> cstr) + SnSliceConfig" where
  "parse_args stop_options [] cfg = Inr cfg"
| "parse_args stop_options (arg # args) cfg =
     (if \<not> stop_options \<and> arg = ''--'' then parse_args True args cfg
      else if \<not> stop_options \<and> take 1 arg = ''-'' \<and> drop 1 arg \<noteq> [] then
        (case option_with_word arg of
           Some set1 \<Rightarrow>
             (case args of
                [] \<Rightarrow> Inl (needs_argument arg)
              | v # args1 \<Rightarrow>
                  (case set1 v cfg of Inl e \<Rightarrow> Inl e | Inr cfg1 \<Rightarrow> parse_args stop_options args1 cfg1))
         | None \<Rightarrow>
             (case option_with_equals arg of
                Some set1 \<Rightarrow>
                  (case set1 cfg of Inl e \<Rightarrow> Inl e | Inr cfg1 \<Rightarrow> parse_args stop_options args cfg1)
              | None \<Rightarrow>
                  Inl (''UNKNOWN_OPTION'', ''unrecognized option '' @ quote (sanitized arg 1024))))
      else
        (if input_path cfg \<noteq> None
         then Inl (''USAGE_ERROR'',
                ''unexpected positional argument '' @ quote (sanitized arg 1024))
         else parse_args stop_options args (cfg\<lparr>input_path := Some arg\<rparr>)))"

definition help_text :: cstr where
  "help_text =
     ''Usage: snslice [OPTIONS] [INPUT_FILE]'' @ [LF, LF]
     @ ''Partition Newline-Delimited JSON (NDJSON) or CSV streams into chunk files.'' @ [LF, LF]
     @ ''Options:'' @ [LF]
     @ ''  -b, --bytes BYTES       Chunk size threshold in bytes'' @ [LF]
     @ ''  -r, --records COUNT     Chunk size threshold in record count'' @ [LF]
     @ ''  -f, --format FORMAT     Input format: ndjson (default) or csv'' @ [LF]
     @ ''  -d, --out-dir DIR       Output directory for chunk files (default: .)'' @ [LF]
     @ ''  -p, --prefix PREFIX     Output chunk filename prefix (default: chunk_)'' @ [LF]
     @ ''      --help              Display this help and exit'' @ [LF]
     @ ''      --version           Output version information and exit'' @ [LF, LF]
     @ ''If INPUT_FILE is omitted or '' @ quote ''-'' @ '', snslice reads from standard input.'' @ [LF]"

definition print_help :: "world \<Rightarrow> world" where
  "print_help w = w\<lparr>sio := ignore_result (c_write Stdout help_text) (sio w)\<rparr>"

definition print_version :: "world \<Rightarrow> world" where
  "print_version w = w\<lparr>sio := ignore_result (c_write Stdout (''snslice 0.1.0'' @ [LF])) (sio w)\<rparr>"

text \<open>\<open>strstr(text, "..") != NULL\<close>.\<close>

fun contains_dotdot :: "cstr \<Rightarrow> bool" where
  "contains_dotdot (a # b # t) = (a = CHR ''.'' \<and> b = CHR ''.'' \<or> contains_dotdot (b # t))"
| "contains_dotdot _ = False"

definition default_config :: SnSliceConfig where
  "default_config = \<lparr>format = FORMAT_NDJSON, limit_bytes = 0, limit_records = 0, out_dir = ''.'',
     prefix = ''chunk_'', input_path = None\<rparr>"

text \<open>The checks of \<open>main\<close> between the options and the input.\<close>

definition check_config ::
  "(cstr \<Rightarrow> nat + bool) \<Rightarrow> (nat \<Rightarrow> cstr) \<Rightarrow> SnSliceConfig \<Rightarrow> (cstr \<times> cstr) option" where
  "check_config stat str_error cfg =
     (if prefix cfg = [] \<or> strchr (prefix cfg) (CHR ''/'') \<noteq> None \<or> contains_dotdot (prefix cfg)
      then Some (''USAGE_ERROR'', ''invalid prefix: '' @ quote (sanitized (prefix cfg) 1024))
      else if limit_bytes cfg = 0 \<and> limit_records cfg = 0
      then Some (''USAGE_ERROR'',
             ''at least one chunk limit (--bytes or --records) must be specified'')
      else
        (case stat (out_dir cfg) of
           Inl e \<Rightarrow> Some (''OUTPUT_DIR_ERROR'',
             ''cannot access output directory '' @ quote (sanitized (out_dir cfg) 1024)
             @ '': '' @ str_error e)
         | Inr is_dir \<Rightarrow>
             if \<not> is_dir then Some (''OUTPUT_DIR_ERROR'',
               ''output directory is not a directory: '' @ quote (sanitized (out_dir cfg) 1024))
             else None))"

definition open_input ::
  "(cstr \<Rightarrow> nat + bool) \<Rightarrow> (cstr \<Rightarrow> nat + int) \<Rightarrow> (nat \<Rightarrow> cstr) \<Rightarrow> SnSliceConfig
    \<Rightarrow> (cstr \<times> cstr) + (int \<times> bool)" where
  "open_input stat open_in str_error cfg =
     (case input_path cfg of
        None \<Rightarrow> Inr (0, False)
      | Some path \<Rightarrow>
          if strcmp path ''-'' = 0 then Inr (0, False)
          else
            (case stat path of
               Inl e \<Rightarrow> Inl (''INPUT_NOT_FOUND'', ''cannot access input file ''
                 @ quote (sanitized path 1024) @ '': '' @ str_error e)
             | Inr is_dir \<Rightarrow>
                 if is_dir then Inl (''INPUT_IS_DIRECTORY'',
                   ''input file is a directory: '' @ quote (sanitized path 1024))
                 else
                   (case open_in path of
                      Inl e \<Rightarrow> Inl (''INPUT_NOT_FOUND'', ''cannot open input file ''
                        @ quote (sanitized path 1024) @ '': '' @ str_error e)
                    | Inr fd \<Rightarrow> Inr (fd, True))))"

definition is_informational :: "cstr \<Rightarrow> bool" where
  "is_informational arg \<longleftrightarrow> strcmp arg ''--help'' = 0 \<or> strcmp arg ''--version'' = 0"

definition main ::
  "(cstr \<Rightarrow> nat + bool) \<Rightarrow> (cstr \<Rightarrow> nat + int) \<Rightarrow> read_answer list \<Rightarrow> cstr list \<Rightarrow> world
    \<Rightarrow> int \<times> world" where
  "main stat open_in reads argv w =
     (let argc = length argv; err = (\<lambda>(hazard, details). (2, emit_diagnostic hazard details w)) in
      case find is_informational (tl argv) of
        Some arg \<Rightarrow>
          if argc = 2 then
            (0, if strcmp (argv ! 1) ''--help'' = 0 then print_help w else print_version w)
          else err (''USAGE_ERROR'', ''informational option '' @ quote (sanitized arg 1024)
                 @ '' cannot be combined with other arguments'')
      | None \<Rightarrow>
          (case parse_args False (tl argv) default_config of
             Inl e \<Rightarrow> err e
           | Inr cfg \<Rightarrow>
               (case check_config stat (strerror_of (sio w)) cfg of
                  Some e \<Rightarrow> err e
                | None \<Rightarrow>
                    (case open_input stat open_in (strerror_of (sio w)) cfg of
                       Inl e \<Rightarrow> err e
                     | Inr (input_fd1, close_it) \<Rightarrow>
                         (case stream_slice cfg reads (init_state input_fd1 close_it) w of
                            (rc, st, w1) \<Rightarrow>
                              (if rc = 0 then 0 else 2,
                               if close_it \<and> input_fd1 \<ge> 0
                               then snd (c_close input_fd1 w1) else w1))))))"

end
