(* ===== verification/Snslice_Spec.thy ===== *)
theory Snslice_Spec
  imports Snslice_Code
begin

text \<open>
  What slicing a stream means, without reads, descriptors and files: the records of the
  bytes (\<open>records_of\<close>), the greedy grouping of records into chunks (\<open>group_records\<close>), and
  \<open>slice_spec\<close>, which combines them with the limits.  A byte-at-a-time machine
  (\<open>abs_byte\<close>) stands between this reference and the code; it is proved equal to the reference here, and
  the code is proved to refine it in \<open>Snslice_Correct\<close>.
\<close>

section \<open>The reference\<close>

text \<open>The complete records, the bytes after the last of them, and the state behind these.\<close>

fun records_of ::
  "FormatType \<Rightarrow> CsvState \<Rightarrow> char list \<Rightarrow> char list
    \<Rightarrow> (char list list \<times> char list \<times> CsvState) option" where
  "records_of fmt s part [] = Some ([], part, s)"
| "records_of fmt s part (c # cs) =
     (case record_step fmt s c of
        None \<Rightarrow> None
      | Some (s1, b) \<Rightarrow>
          if b then map_option (\<lambda>(rs, p). ((part @ [c]) # rs, p)) (records_of fmt s1 [] cs)
          else records_of fmt s1 (part @ [c]) cs)"

definition full :: "SnSliceConfig \<Rightarrow> char list \<Rightarrow> nat \<Rightarrow> bool" where
  "full cfg bs n \<longleftrightarrow> (limit_bytes cfg > 0 \<and> length bs \<ge> limit_bytes cfg)
     \<or> (limit_records cfg > 0 \<and> n \<ge> limit_records cfg)"

text \<open>Chunks closed so far, and the open one with its number of records.\<close>

fun group_records ::
  "SnSliceConfig \<Rightarrow> char list \<Rightarrow> nat \<Rightarrow> char list list \<Rightarrow> char list list \<times> char list \<times> nat" where
  "group_records cfg cur n [] = ([], cur, n)"
| "group_records cfg cur n (r # rs) =
     (if full cfg (cur @ r) (n + 1)
      then (case group_records cfg [] 0 rs of (ds, x) \<Rightarrow> ((cur @ r) # ds, x))
      else group_records cfg (cur @ r) (n + 1) rs)"

definition record_ok :: "char list \<Rightarrow> bool" where
  "record_ok r \<longleftrightarrow> NUL \<notin> set r \<and> length r \<le> SNSLICE_MAX_RECORD_BYTES"

definition slice_spec :: "SnSliceConfig \<Rightarrow> char list \<Rightarrow> char list list option" where
  "slice_spec cfg bs =
     (case records_of (format cfg) CSV_STATE_START [] bs of
        None \<Rightarrow> None
      | Some (rs, part, s) \<Rightarrow>
          if (\<forall>r \<in> set (part # rs). record_ok r)
             \<and> (if format cfg = FORMAT_NDJSON then part = [] else s \<noteq> CSV_STATE_QUOTED)
          then (case group_records cfg [] 0 rs of
                  (ds, cur, n) \<Rightarrow>
                    Some (ds @ (if cur @ part = [] then [] else [cur @ part])))
          else None)"

lemma records_of_concat:
  "records_of fmt s part bs = Some (rs, p, s1) \<Longrightarrow> concat rs @ p = part @ bs"
proof (induction bs arbitrary: s part rs)
  case (Cons c cs)
  then show ?case by (force split: option.splits prod.splits if_splits)
qed simp

lemma group_concat:
  "group_records cfg cur n rs = (ds, c, m) \<Longrightarrow> concat ds @ c = cur @ concat rs"
proof (induction rs arbitrary: cur n ds)
  case (Cons r rs)
  then show ?case by (fastforce split: if_splits prod.splits)
qed simp

lemma group_full:
  "group_records cfg cur n rs = (ds, c, m) \<Longrightarrow> d \<in> set ds \<Longrightarrow> \<exists>k. full cfg d k"
proof (induction rs arbitrary: cur n ds)
  case (Cons r rs)
  then show ?case by (fastforce split: if_splits prod.splits)
qed simp

text \<open>
  The records cut into the groups of the closed chunks and the rest: a group ends with the record
  that reaches a limit, and no earlier record of it does, nor any record of the rest.
\<close>

definition cut_at_limits :: "SnSliceConfig \<Rightarrow> char list list \<Rightarrow> char list list list \<Rightarrow> char list list \<Rightarrow> bool" where
  "cut_at_limits cfg rs gs tail \<longleftrightarrow>
     rs = concat gs @ tail
     \<and> (\<forall>g \<in> set gs. g \<noteq> [] \<and> full cfg (concat g) (length g)
          \<and> (\<forall>k. 0 < k \<and> k < length g \<longrightarrow> \<not> full cfg (concat (take k g)) k))
     \<and> (\<forall>k. 0 < k \<and> k \<le> length tail \<longrightarrow> \<not> full cfg (concat (take k tail)) k)"

lemma group_cuts:
  assumes "group_records cfg (concat ys) (length ys) rs = (ds, c, m)"
    and "\<forall>k. 0 < k \<and> k \<le> length ys \<longrightarrow> \<not> full cfg (concat (take k ys)) k"
  shows "\<exists>gs tail. cut_at_limits cfg (ys @ rs) gs tail \<and> ds = map concat gs \<and> c = concat tail"
  using assms
proof (induction rs arbitrary: ys ds)
  case Nil
  then show ?case by (intro exI [of _ "[]"] exI [of _ ys]) (simp add: cut_at_limits_def)
next
  case (Cons r rs)
  let ?ys = "ys @ [r]"
  show ?case
  proof (cases "full cfg (concat ys @ r) (length ys + 1)")
    case True
    with Cons.prems obtain es where g: "group_records cfg (concat []) (length ([] :: char list list)) rs = (es, c, m)"
      and ds: "ds = concat ?ys # es" by (auto split: prod.splits)
    from Cons.IH [OF g] obtain gs tail where
      t: "cut_at_limits cfg rs gs tail" "es = map concat gs" "c = concat tail" by auto
    have "\<not> full cfg (concat (take k ?ys)) k" if "0 < k" "k < length ?ys" for k
      using Cons.prems(2) that by simp
    with True t(1) have "cut_at_limits cfg (ys @ r # rs) (?ys # gs) tail" by (simp add: cut_at_limits_def)
    with t(2,3) ds show ?thesis by (intro exI [of _ "?ys # gs"] exI [of _ tail]) simp
  next
    case False
    with Cons.prems have "group_records cfg (concat ?ys) (length ?ys) rs = (ds, c, m)" by simp
    moreover have "\<forall>k. 0 < k \<and> k \<le> length ?ys \<longrightarrow> \<not> full cfg (concat (take k ?ys)) k"
      using Cons.prems(2) False by (auto simp: le_Suc_eq)
    ultimately show ?thesis using Cons.IH [of ?ys ds] by simp
  qed
qed

section \<open>One byte at a time\<close>

record astate =
  chunks :: "char list list"
  cur :: "char list"
  nrec :: nat
  rlen :: nat
  acsv :: CsvState

definition abs_init :: astate where
  "abs_init = \<lparr>chunks = [], cur = [], nrec = 0, rlen = 0, acsv = CSV_STATE_START\<rparr>"

definition abs_end_record :: "SnSliceConfig \<Rightarrow> astate \<Rightarrow> astate" where
  "abs_end_record cfg a =
     (let a1 = a\<lparr>nrec := nrec a + 1, rlen := 0\<rparr> in
      if full cfg (cur a1) (nrec a1)
      then a1\<lparr>chunks := chunks a1 @ [cur a1], cur := [], nrec := 0\<rparr> else a1)"

definition abs_byte :: "SnSliceConfig \<Rightarrow> char \<Rightarrow> astate \<Rightarrow> astate option" where
  "abs_byte cfg c a =
     (if c = NUL \<or> rlen a + 1 > SNSLICE_MAX_RECORD_BYTES then None
      else (case record_step (format cfg) (acsv a) c of
              None \<Rightarrow> None
            | Some (s1, b) \<Rightarrow>
                (let a1 = a\<lparr>cur := cur a @ [c], rlen := rlen a + 1, acsv := s1\<rparr> in
                 Some (if b then abs_end_record cfg a1 else a1))))"

fun abs_run :: "SnSliceConfig \<Rightarrow> char list \<Rightarrow> astate \<Rightarrow> astate option" where
  "abs_run cfg [] a = Some a"
| "abs_run cfg (c # cs) a =
     (case abs_byte cfg c a of None \<Rightarrow> None | Some a1 \<Rightarrow> abs_run cfg cs a1)"

definition abs_finish :: "SnSliceConfig \<Rightarrow> astate \<Rightarrow> char list list option" where
  "abs_finish cfg a =
     (if (if format cfg = FORMAT_NDJSON then rlen a = 0 else acsv a \<noteq> CSV_STATE_QUOTED)
      then Some (chunks a @ (if cur a = [] then [] else [cur a])) else None)"

lemma abs_run_append:
  "abs_run cfg (xs @ ys) a = (case abs_run cfg xs a of None \<Rightarrow> None | Some b \<Rightarrow> abs_run cfg ys b)"
  by (induction xs arbitrary: a) (auto split: option.split)

lemma abs_run_chunks:
  "abs_run cfg bs a = Some a1 \<Longrightarrow>
     \<exists>ds. chunks a1 = chunks a @ ds \<and> concat ds @ cur a1 = cur a @ bs"
proof (induction bs arbitrary: a)
  case (Cons c cs)
  then obtain b where b: "abs_byte cfg c a = Some b" and r: "abs_run cfg cs b = Some a1"
    by (auto split: option.splits)
  from b have "\<exists>ds. chunks b = chunks a @ ds \<and> concat ds @ cur b = cur a @ [c]"
    by (auto simp: abs_byte_def abs_end_record_def Let_def split: if_splits option.splits prod.splits)
  with Cons.IH [OF r] show ?case by fastforce
qed simp

text \<open>The machine computes the reference.\<close>

lemma records_of_bad:
  assumes "records_of fmt s part bs = Some (rs, p, s1)" and "\<not> record_ok part"
  shows "\<not> (\<forall>r \<in> set (p # rs). record_ok r)"
  using assms
proof (induction bs arbitrary: s part rs)
  case (Cons c cs)
  have "\<not> record_ok (part @ [c])" using Cons.prems(2) by (auto simp: record_ok_def)
  with Cons show ?case by (auto split: option.splits prod.splits if_splits)
qed simp

lemma abs_run_reference:
  assumes "cur a = base @ part" and "rlen a = length part"
    and "record_ok part"
  shows "abs_run cfg bs a =
    (case records_of (format cfg) (acsv a) part bs of
       None \<Rightarrow> None
     | Some (rs, p, s) \<Rightarrow>
         if (\<forall>r \<in> set (p # rs). record_ok r) then
           (case group_records cfg base (nrec a) rs of
              (ds, c, n) \<Rightarrow> Some \<lparr>chunks = chunks a @ ds, cur = c @ p, nrec = n, rlen = length p, acsv = s\<rparr>)
         else None)"
  using assms
proof (induction bs arbitrary: a base part)
  case Nil
  then show ?case by simp
next
  case (Cons c cs)
  obtain r where step: "record_step (format cfg) (acsv a) c = r" by simp
  show ?case
  proof (cases "record_ok (part @ [c])")
    case False
    with Cons.prems have "abs_byte cfg c a = None"
      by (auto simp: abs_byte_def record_ok_def)
    moreover have "records_of (format cfg) s (part @ [c]) cs = Some (rs, p, s1) \<Longrightarrow>
        record_ok p \<Longrightarrow> \<forall>r \<in> set rs. record_ok r \<Longrightarrow> R" for s rs p s1 R
      using records_of_bad [OF _ False] by fastforce
    ultimately show ?thesis
      using False by (cases r) (auto simp: step split: option.split if_splits)
  next
    case ok: True
    then have nn: "\<not> (c = NUL \<or> rlen a + 1 > SNSLICE_MAX_RECORD_BYTES)"
      using Cons.prems by (auto simp: record_ok_def)
    show ?thesis
    proof (cases r)
      case None
      with nn show ?thesis by (simp add: abs_byte_def step)
    next
      case (Some sb)
      then obtain s1 b where r: "r = Some (s1, b)" by (cases sb) auto
      let ?a = "a\<lparr>cur := cur a @ [c], rlen := rlen a + 1, acsv := s1\<rparr>"
      show ?thesis
      proof (cases b)
        case False
        have "abs_byte cfg c a = Some ?a" using nn r False by (simp add: abs_byte_def step)
        with Cons.IH [of ?a base "part @ [c]"] Cons.prems ok r False show ?thesis
          by (auto simp: step split: option.split prod.split)
      next
        case True
        let ?e = "abs_end_record cfg ?a"
        have ab: "abs_byte cfg c a = Some ?e" using nn r True by (simp add: abs_byte_def step)
        have nil: "record_ok []" by (simp add: record_ok_def)
        show ?thesis
        proof (cases "full cfg (cur a @ [c]) (nrec a + 1)")
          case f: True
          have "?e = ?a\<lparr>chunks := chunks a @ [cur a @ [c]], cur := [], nrec := 0, rlen := 0\<rparr>"
            using f by (simp add: abs_end_record_def)
          with Cons.IH [of ?e "[]" "[]"] ab f Cons.prems ok r True nil show ?thesis
            by (auto simp: step split: option.split prod.split)
        next
          case f: False
          have "?e = ?a\<lparr>nrec := nrec a + 1, rlen := 0\<rparr>"
            using f by (simp add: abs_end_record_def)
          with Cons.IH [of ?e "cur a @ [c]" "[]"] ab f Cons.prems ok r True nil show ?thesis
            by (auto simp: step split: option.split prod.split)
        qed
      qed
    qed
  qed
qed

lemma slice_spec_abs:
  "slice_spec cfg bs =
     (case abs_run cfg bs abs_init of None \<Rightarrow> None | Some a \<Rightarrow> abs_finish cfg a)"
proof -
  have "abs_run cfg bs abs_init =
    (case records_of (format cfg) (acsv abs_init) [] bs of
       None \<Rightarrow> None
     | Some (rs, p, s) \<Rightarrow>
         if (\<forall>r \<in> set (p # rs). record_ok r) then
           (case group_records cfg [] (nrec abs_init) rs of
              (ds, c, n) \<Rightarrow> Some \<lparr>chunks = chunks abs_init @ ds, cur = c @ p, nrec = n, rlen = length p, acsv = s\<rparr>)
         else None)"
    by (rule abs_run_reference) (simp_all add: abs_init_def record_ok_def)
  note run = this [unfolded abs_init_def astate.select_convs, folded abs_init_def]
  show ?thesis
  proof (cases "records_of (format cfg) CSV_STATE_START [] bs")
    case None
    then show ?thesis by (simp add: run slice_spec_def)
  next
    case (Some x)
    obtain rs part s where x: "x = (rs, part, s)" by (cases x)
    obtain ds c n where g: "group_records cfg [] 0 rs = (ds, c, n)" by (cases "group_records cfg [] 0 rs")
    have "record_ok []" by (simp add: record_ok_def)
    with Some show ?thesis by (auto simp: run slice_spec_def x g abs_finish_def)
  qed
qed

end
