(* ===== verification/Snslice_Correct.thy ===== *)
theory Snslice_Correct
  imports Snslice_Spec
begin

text \<open>
  The slicer of \<open>src/snslice.c\<close> refines \<open>slice_spec\<close>: under every fault of the system calls
  the files of the world are the files before with whole chunks added (and the chunk being
  written while the loop runs); success means all chunks of the specification; failure leaves
  the completed chunks only.
\<close>

section \<open>Chunk names\<close>

lemma chunk_name_inject: "chunk_name cfg m = chunk_name cfg n \<longleftrightarrow> m = n"
  by (auto simp: chunk_name_def pad5_dec_inject Let_def split: if_splits)

lemma chunk_name_not_Nil [simp]: "chunk_name cfg n \<noteq> []" "[] \<noteq> chunk_name cfg n"
  by (simp_all add: chunk_name_def Let_def)

definition add_chunks ::
  "SnSliceConfig \<Rightarrow> char list list \<Rightarrow> (cstr \<Rightarrow> char list option) \<Rightarrow> (cstr \<Rightarrow> char list option)" where
  "add_chunks cfg ds m = fold (\<lambda>(i, d) m. m(chunk_name cfg i \<mapsto> d)) (enumerate 1 ds) m"

lemma add_chunks_Nil [simp]: "add_chunks cfg [] m = m"
  by (simp add: add_chunks_def)

lemma add_chunks_snoc:
  "add_chunks cfg (ds @ [d]) m = (add_chunks cfg ds m)(chunk_name cfg (length ds + 1) \<mapsto> d)"
  by (simp add: add_chunks_def enumerate_append_eq add.commute)

lemma add_chunks_nth: "i < length ds \<Longrightarrow> add_chunks cfg ds m (chunk_name cfg (i + 1)) = Some (ds ! i)"
proof (induction ds rule: rev_induct)
  case (snoc d ds)
  then show ?case
    by (auto simp: add_chunks_snoc chunk_name_inject nth_append less_Suc_eq)
qed simp

lemma add_chunks_other:
  "(\<forall>i < length ds. p \<noteq> chunk_name cfg (i + 1)) \<Longrightarrow> add_chunks cfg ds m p = m p"
proof (induction ds rule: rev_induct)
  case (snoc d ds)
  then show ?case by (simp add: add_chunks_snoc less_Suc_eq)
qed simp

section \<open>System calls\<close>

text \<open>What no operation of the slicer changes.\<close>

definition fresh_fd :: "world \<Rightarrow> bool" where
  "fresh_fd w \<longleftrightarrow> next_fd w \<ge> 0"

lemma emit_diagnostic_frame [simp]:
  "files (emit_diagnostic h d w) = files w" "fds (emit_diagnostic h d w) = fds w"
  "next_fd (emit_diagnostic h d w) = next_fd w"
  "unlink_script (emit_diagnostic h d w) = unlink_script w"
  "open_script (emit_diagnostic h d w) = open_script w"
  "write_script (emit_diagnostic h d w) = write_script w"
  "close_script (emit_diagnostic h d w) = close_script w"
  "closed (emit_diagnostic h d w) = closed w"
  by (simp_all add: emit_diagnostic_def)

lemma c_close_frame [simp]:
  "files (snd (c_close fd w)) = files w" "next_fd (snd (c_close fd w)) = next_fd w"
  "unlink_script (snd (c_close fd w)) = unlink_script w"
  by (simp_all add: c_close_def)

lemma c_close_result: "fst (c_close fd w) = 0 \<or> fst (c_close fd w) = -1"
  by (simp add: c_close_def)

lemma c_write_fd_file:
  assumes "c_write_fd fd data w = (n, w1)" and "fds w fd = Some path" and "files w path = Some old"
  shows "(n < 0 \<longrightarrow> files w1 = files w)
    \<and> (n \<ge> 0 \<longrightarrow> files w1 = (files w)(path \<mapsto> old @ take (nat n) data) \<and> nat n \<le> length data)
    \<and> fds w1 = fds w \<and> next_fd w1 = next_fd w \<and> unlink_script w1 = unlink_script w
    \<and> open_script w1 = open_script w \<and> close_script w1 = close_script w \<and> closed w1 = closed w"
  using assms by (auto simp: c_write_fd_def Let_def split: list.splits write_answer.splits)

lemma write_all_file:
  assumes "write_all fd data w = (r, w1)" and "fds w fd = Some path" and "files w path = Some old"
  shows "(\<exists>k. files w1 = (files w)(path \<mapsto> old @ take k data) \<and> (r \<ge> 0 \<longrightarrow> k = length data))
    \<and> fds w1 = fds w \<and> next_fd w1 = next_fd w \<and> unlink_script w1 = unlink_script w
    \<and> open_script w1 = open_script w \<and> close_script w1 = close_script w \<and> closed w1 = closed w"
  using assms
proof (induction fd data w arbitrary: old r w1 rule: write_all.induct)
  case (1 fd data w)
  show ?case
  proof (cases "data = []")
    case True
    with "1.prems" show ?thesis
      by (auto simp: write_all.simps fun_upd_idem intro!: exI [of _ 0])
  next
    case False
    obtain n w2 where wr: "c_write_fd fd data w = (n, w2)" by (cases "c_write_fd fd data w")
    note f = c_write_fd_file [OF wr "1.prems"(2,3)]
    consider "n < 0" "errno (sio w2) = EINTR" | "n < 0" "errno (sio w2) \<noteq> EINTR" | "n = 0" | "n > 0"
      by linarith
    then show ?thesis
    proof cases
      case 1
      with False wr "1.prems"(1) have "write_all fd data w2 = (r, w1)"
        by (subst (asm) write_all.simps) simp
      from "1.IH"(1) [OF False wr [symmetric] 1 this] f 1 "1.prems"(2,3) show ?thesis by simp
    next
      case 2
      with False wr "1.prems"(1) have "r = -1 \<and> w1 = w2"
        by (subst (asm) write_all.simps) auto
      with f 2 "1.prems"(3) show ?thesis by (auto simp: fun_upd_idem intro!: exI [of _ 0])
    next
      case 3
      with False wr "1.prems"(1) have "r = -1 \<and> w1 = w2"
        by (subst (asm) write_all.simps) auto
      with f 3 "1.prems"(3) show ?thesis by (auto intro!: exI [of _ 0])
    next
      case 4
      obtain r2 w3 where rec: "write_all fd (drop (nat n) data) w2 = (r2, w3)"
        by (cases "write_all fd (drop (nat n) data) w2")
      with False wr 4 "1.prems"(1) have r: "r = (if r2 < 0 then -1 else n + r2)" "w1 = w3"
        by (subst (asm) write_all.simps, simp)+
      have "\<not> n < 0" "n \<noteq> 0" using 4 by auto
      moreover have "fds w2 fd = Some path" "files w2 path = Some (old @ take (nat n) data)"
        using f 4 "1.prems"(2) by auto
      ultimately obtain k where k: "files w3 = (files w2)(path \<mapsto> (old @ take (nat n) data) @ take k (drop (nat n) data))"
        "r2 \<ge> 0 \<longrightarrow> k = length (drop (nat n) data)"
        and fr: "fds w3 = fds w2 \<and> next_fd w3 = next_fd w2 \<and> unlink_script w3 = unlink_script w2
          \<and> open_script w3 = open_script w2 \<and> close_script w3 = close_script w2 \<and> closed w3 = closed w2"
        using "1.IH"(2) [OF False wr [symmetric] _ _ rec] by blast
      have "files w1 = (files w)(path \<mapsto> old @ take (nat n + k) data)"
        using k f 4 r by (simp add: take_add)
      moreover have "r \<ge> 0 \<longrightarrow> nat n + k = length data"
        using k(2) r 4 f by auto
      ultimately have "\<exists>k. files w1 = (files w)(path \<mapsto> old @ take k data) \<and> (r \<ge> 0 \<longrightarrow> k = length data)"
        by blast
      moreover have "fds w1 = fds w \<and> next_fd w1 = next_fd w \<and> unlink_script w1 = unlink_script w
          \<and> open_script w1 = open_script w \<and> close_script w1 = close_script w \<and> closed w1 = closed w"
        using fr f r(2) by simp
      ultimately show ?thesis by (rule conjI)
    qed
  qed
qed

section \<open>The simulation\<close>

definition chunks_free :: "SnSliceConfig \<Rightarrow> (cstr \<Rightarrow> char list option) \<Rightarrow> nat \<Rightarrow> bool" where
  "chunks_free cfg m n \<longleftrightarrow> (\<forall>i < n. m (chunk_name cfg (i + 1)) = None)"

definition weight :: "astate \<Rightarrow> nat" where
  "weight a = length (concat (chunks a)) + length (cur a)"

definition abs_ok :: "astate \<Rightarrow> bool" where
  "abs_ok a \<longleftrightarrow> [] \<notin> set (chunks a) \<and> nrec a + rlen a \<le> length (cur a)"

text \<open>
  \<open>slice\<close> is the part of the open chunk that has not been written yet; \<open>m\<close> holds the files
  from before.
\<close>

definition sim ::
  "SnSliceConfig \<Rightarrow> (cstr \<Rightarrow> char list option) \<Rightarrow> char list \<Rightarrow> astate \<Rightarrow> SnSliceState \<Rightarrow> world \<Rightarrow> bool"
where
  "sim cfg m slice a st w \<longleftrightarrow>
     chunk_index st = length (chunks a) + 1 \<and> chunk_records st = nrec a
     \<and> record_bytes st = rlen a \<and> csv_state st = acsv a \<and> next_fd w \<ge> 0
     \<and> abs_ok a \<and> weight a < SIZE_MAX \<and> chunks_free cfg m (length (chunks a))
     \<and> (if active_chunk_fd st < 0
        then cur a = slice \<and> chunk_bytes st = 0 \<and> files w = add_chunks cfg (chunks a) m
        else (\<exists>wr. cur a = wr @ slice \<and> chunk_bytes st = length wr \<and> wr \<noteq> []
               \<and> m (chunk_name cfg (length (chunks a) + 1)) = None
               \<and> active_chunk_path st = chunk_name cfg (length (chunks a) + 1)
               \<and> fds w (active_chunk_fd st) = Some (active_chunk_path st)
               \<and> files w = (add_chunks cfg (chunks a) m)(active_chunk_path st \<mapsto> wr)))"

lemma chunk_count: "abs_ok a \<Longrightarrow> length (chunks a) \<le> weight a - length (cur a)"
proof -
  have "[] \<notin> set ds \<Longrightarrow> length ds \<le> length (concat ds)" for ds :: "char list list"
  proof (induction ds)
    case (Cons d ds)
    then show ?case by (cases d) auto
  qed simp
  then show "abs_ok a \<Longrightarrow> length (chunks a) \<le> weight a - length (cur a)"
    by (simp add: abs_ok_def weight_def)
qed

lemma add_chunks_next: "add_chunks cfg ds m (chunk_name cfg (length ds + 1)) = m (chunk_name cfg (length ds + 1))"
  by (rule add_chunks_other) (simp add: chunk_name_inject)

lemma chunks_free_Suc:
  "chunks_free cfg m (Suc n) \<longleftrightarrow> chunks_free cfg m n \<and> m (chunk_name cfg (n + 1)) = None"
  by (auto simp: chunks_free_def less_Suc_eq)

lemma abort_cleanup_files:
  assumes "sim cfg m slice a st w" and "unlink_script w = []"
  shows "files (snd (abort_cleanup st w)) = add_chunks cfg (chunks a) m"
proof (cases "active_chunk_fd st < 0")
  case True
  with assms show ?thesis by (auto simp: abort_cleanup_def sim_def Let_def)
next
  case False
  let ?p = "chunk_name cfg (length (chunks a) + 1)"
  have "(add_chunks cfg (chunks a) m)(?p := None) = add_chunks cfg (chunks a) m"
    using add_chunks_next [of cfg "chunks a" m] assms(1) False
    by (auto simp: sim_def intro: fun_upd_idem)
  with False assms show ?thesis
    by (auto simp: abort_cleanup_def sim_def c_unlink_def Let_def)
qed

lemma fail_with_files:
  assumes "sim cfg m slice a st w" and "unlink_script w = []" and "fail_with h d st w = (r, st1, w1)"
  shows "r = -1 \<and> files w1 = add_chunks cfg (chunks a) m"
  using abort_cleanup_files [OF assms(1,2)] assms(3)
  by (auto simp: fail_with_def split: prod.splits)

lemma open_chunk_cases:
  assumes "open_chunk cfg st w = (r, st1, w1)" and "next_fd w \<ge> 0"
  shows "r = 0 \<and> (\<exists>fd. fd \<ge> 0 \<and> st1 = st\<lparr>active_chunk_path := chunk_name cfg (chunk_index st), active_chunk_fd := fd\<rparr>
      \<and> files w (chunk_name cfg (chunk_index st)) = None
      \<and> files w1 = (files w)(chunk_name cfg (chunk_index st) \<mapsto> [])
      \<and> fds w1 fd = Some (chunk_name cfg (chunk_index st)) \<and> next_fd w1 \<ge> 0
      \<and> unlink_script w1 = unlink_script w)
    \<or> r = -1 \<and> files w1 = files w"
  using assms by (auto simp: open_chunk_def c_open_excl_def Let_def split: if_splits option.splits)

lemma write_to_chunk_sim:
  assumes "sim cfg m slice a st w" and "slice \<noteq> []"
    and "write_to_chunk cfg st slice w = (r, st1, w1)"
  shows "r = 0 \<and> sim cfg m [] a st1 w1 \<and> active_chunk_fd st1 \<ge> 0
      \<and> total_input_bytes st1 = total_input_bytes st \<and> unlink_script w1 = unlink_script w
    \<or> r = -1 \<and> (unlink_script w = [] \<longrightarrow> files w1 = add_chunks cfg (chunks a) m)"
proof -
  let ?p = "chunk_name cfg (length (chunks a) + 1)"
  obtain r0 st0 w0 where o: "(if active_chunk_fd st < 0 then open_chunk cfg st w else (0, st, w)) = (r0, st0, w0)"
    by (cases "if active_chunk_fd st < 0 then open_chunk cfg st w else (0, st, w)")
  from assms(1) have idx: "chunk_index st = length (chunks a) + 1" "next_fd w \<ge> 0" by (auto simp: sim_def)
  consider (failed) "r0 = -1" "active_chunk_fd st < 0" "files w0 = files w"
    | (opened) wr where "r0 = 0" "cur a = wr @ slice" "chunk_bytes st0 = length wr" "active_chunk_fd st0 \<ge> 0"
        "m ?p = None" "active_chunk_path st0 = ?p" "fds w0 (active_chunk_fd st0) = Some ?p"
        "files w0 = (add_chunks cfg (chunks a) m)(?p \<mapsto> wr)" "unlink_script w0 = unlink_script w"
        "next_fd w0 \<ge> 0" "chunk_index st0 = chunk_index st" "chunk_records st0 = chunk_records st"
        "record_bytes st0 = record_bytes st" "csv_state st0 = csv_state st"
        "total_input_bytes st0 = total_input_bytes st"
  proof (cases "active_chunk_fd st < 0")
    case True
    with o have op: "open_chunk cfg st w = (r0, st0, w0)" by simp
    from open_chunk_cases [OF this idx(2)] True failed show ?thesis
    proof (elim disjE exE conjE)
      fix fd assume "r0 = 0" "st0 = st\<lparr>active_chunk_path := chunk_name cfg (chunk_index st), active_chunk_fd := fd\<rparr>"
        "files w (chunk_name cfg (chunk_index st)) = None" "fd \<ge> 0"
        "files w0 = (files w)(chunk_name cfg (chunk_index st) \<mapsto> [])"
        "fds w0 fd = Some (chunk_name cfg (chunk_index st))" "next_fd w0 \<ge> 0"
        "unlink_script w0 = unlink_script w"
      with assms(1) True idx add_chunks_next [of cfg "chunks a" m] show ?thesis
        by (intro opened [of "[]"]) (auto simp: sim_def)
    qed auto
  next
    case False
    with o assms(1) show ?thesis by (auto simp: sim_def intro: opened)
  qed
  then show ?thesis
  proof cases
    case failed
    with o assms show ?thesis by (auto simp: write_to_chunk_def sim_def)
  next
    case opened
    obtain n w2 where wr: "write_all (active_chunk_fd st0) slice w0 = (n, w2)"
      by (cases "write_all (active_chunk_fd st0) slice w0")
    have "files w0 ?p = Some wr" using opened by simp
    from write_all_file [OF wr opened(7) this] opened(8,9,10) obtain k where
      w2: "files w2 = (add_chunks cfg (chunks a) m)(?p \<mapsto> wr @ take k slice)" "n \<ge> 0 \<longrightarrow> k = length slice"
      "fds w2 = fds w0" "unlink_script w2 = unlink_script w" "next_fd w2 \<ge> 0"
      by auto
    show ?thesis
    proof (cases "n < 0")
      case True
      let ?c = "abort_cleanup st0 w2"
      have "files (snd ?c) = add_chunks cfg (chunks a) m" if "unlink_script w = []"
      proof -
        have "(add_chunks cfg (chunks a) m)(?p := None) = add_chunks cfg (chunks a) m"
          using add_chunks_next [of cfg "chunks a" m] opened(5) by (simp add: fun_upd_idem)
        with w2 that opened(4,6) show ?thesis
          by (simp add: abort_cleanup_def c_unlink_def Let_def)
      qed
      with True o wr opened(1) assms(2,3) show ?thesis
        by (auto simp: write_to_chunk_def Let_def split: prod.splits)
    next
      case False
      have "length wr + length slice \<le> SIZE_MAX"
        using assms(1) opened(2) by (simp add: sim_def weight_def)
      with False o wr opened(1,3) assms(2,3) have r: "r = 0" "w1 = w2"
        "st1 = st0\<lparr>chunk_bytes := length wr + length slice\<rparr>"
        by (auto simp: write_to_chunk_def)
      have "sim cfg m [] a st1 w1"
        using assms(1,2) opened w2 False unfolding sim_def r
        by (auto intro!: exI [of _ "wr @ slice"])
      with r opened w2 show ?thesis by simp
    qed
  qed
qed

lemma close_chunk_sim:
  assumes "sim cfg m [] a st w" and "active_chunk_fd st \<ge> 0"
    and "close_chunk st w = (r, st1, w1)"
  shows "r = 0 \<and> active_chunk_fd st1 < 0 \<and> chunk_index st1 = length (chunks a) + 2
      \<and> chunk_bytes st1 = 0 \<and> chunk_records st1 = 0 \<and> record_bytes st1 = record_bytes st
      \<and> csv_state st1 = csv_state st \<and> total_input_bytes st1 = total_input_bytes st
      \<and> files w1 = add_chunks cfg (chunks a @ [cur a]) m \<and> next_fd w1 \<ge> 0
      \<and> unlink_script w1 = unlink_script w \<and> chunks_free cfg m (length (chunks a) + 1)
    \<or> r = -1 \<and> (unlink_script w = [] \<longrightarrow> files w1 = add_chunks cfg (chunks a) m)"
proof -
  let ?p = "chunk_name cfg (length (chunks a) + 1)"
  from assms have st: "active_chunk_path st = ?p" "files w = (add_chunks cfg (chunks a) m)(?p \<mapsto> cur a)"
    "m ?p = None" "cur a \<noteq> []" "abs_ok a" "weight a < SIZE_MAX" "next_fd w \<ge> 0"
    "chunk_index st = length (chunks a) + 1" "chunks_free cfg m (length (chunks a))"
    by (auto simp: sim_def)
  have undo: "(add_chunks cfg (chunks a) m)(?p := None) = add_chunks cfg (chunks a) m"
    using add_chunks_next [of cfg "chunks a" m] st(3) by (simp add: fun_upd_idem)
  have idx: "length (chunks a) + 2 \<le> SIZE_MAX"
    using chunk_count [OF st(5)] st(4,6) by (cases "cur a") (auto simp: weight_def)
  obtain res w2 where c: "c_close (active_chunk_fd st) w = (res, w2)"
    by (cases "c_close (active_chunk_fd st) w")
  then have w2: "files w2 = files w" "unlink_script w2 = unlink_script w" "next_fd w2 = next_fd w"
    "res = 0 \<or> res = -1"
    using c_close_frame [of "active_chunk_fd st" w] c_close_result [of "active_chunk_fd st" w] by auto
  show ?thesis
  proof (cases "res = 0")
    case True
    have "chunks_free cfg m (length (chunks a) + 1)" using st(3,9) by (simp add: chunks_free_Suc)
    with True c w2 assms(2,3) idx st(2,7,8) show ?thesis
      by (auto simp: close_chunk_def add_chunks_snoc)
  next
    case False
    with c w2 assms(2,3) st(1,2) undo show ?thesis
      by (auto simp: close_chunk_def c_unlink_def Let_def)
  qed
qed

lemma end_record_sim:
  assumes "sim cfg m slice a st w" and "slice \<noteq> []" and "rlen a > 0"
    and "end_record cfg slice st w = (r, st1, w1)"
  shows "r = 0 \<and> sim cfg m [] (abs_end_record cfg a) st1 w1
      \<and> total_input_bytes st1 = total_input_bytes st \<and> unlink_script w1 = unlink_script w
    \<or> r = -1 \<and> (unlink_script w = [] \<longrightarrow> files w1 = add_chunks cfg (chunks a) m)"
proof -
  obtain r0 st0 w0 where w: "write_to_chunk cfg st slice w = (r0, st0, w0)"
    by (cases "write_to_chunk cfg st slice w")
  note ws = write_to_chunk_sim [OF assms(1,2) w]
  show ?thesis
  proof (cases "r0 = 0")
    case False
    with ws w assms(4) show ?thesis by (auto simp: end_record_def)
  next
    case True
    with ws have s: "sim cfg m [] a st0 w0" and fd: "active_chunk_fd st0 \<ge> 0"
      and fr: "total_input_bytes st0 = total_input_bytes st" "unlink_script w0 = unlink_script w" by auto
    let ?st = "st0\<lparr>record_bytes := 0, chunk_records := nrec a + 1\<rparr>"
      and ?a = "a\<lparr>nrec := nrec a + 1, rlen := 0\<rparr>"
    have ok: "abs_ok ?a" and wt: "nrec a + 1 \<le> weight a"
      using s assms(3) by (auto simp: sim_def abs_ok_def weight_def)
    then have plus: "size_plus (chunk_records st0) (Suc 0) = Suc (nrec a)"
      using s by (simp add: sim_def)
    have s2: "sim cfg m [] ?a ?st w0"
      using s fd ok by (auto simp: sim_def weight_def)
    have len: "chunk_bytes ?st = length (cur a)" using s fd by (auto simp: sim_def)
    show ?thesis
    proof (cases "full cfg (cur a) (nrec a + 1)")
      case False
      then have "abs_end_record cfg a = ?a" by (simp add: abs_end_record_def)
      moreover have "r = 0 \<and> st1 = ?st \<and> w1 = w0"
        using assms(4) w True False len by (auto simp: end_record_def plus full_def Let_def)
      ultimately show ?thesis using s2 fr by simp
    next
      case f: True
      then have ab: "abs_end_record cfg a = ?a\<lparr>chunks := chunks a @ [cur a], cur := [], nrec := 0\<rparr>"
        by (simp add: abs_end_record_def)
      obtain r1 st2 w2 where c: "close_chunk ?st w0 = (r1, st2, w2)" by (cases "close_chunk ?st w0")
      have fd2: "active_chunk_fd ?st \<ge> 0" using fd by simp
      note cs = close_chunk_sim [OF s2 fd2 c]
      have res: "r = (if r1 \<noteq> 0 then -1 else 0)" "st1 = st2" "w1 = w2"
        using assms(4) w True f len c by (auto simp: end_record_def plus full_def Let_def)
      have "cur a \<noteq> []" using s fd by (auto simp: sim_def)
      then have "abs_ok (abs_end_record cfg a)" "weight (abs_end_record cfg a) = weight a"
        using ok by (auto simp: ab abs_ok_def weight_def)
      moreover have "weight a < SIZE_MAX" "csv_state st0 = acsv a" using s by (auto simp: sim_def)
      ultimately show ?thesis
        using cs res fr by (auto simp: sim_def ab)
    qed
  qed
qed

lemma weight_end_record: "weight (abs_end_record cfg a) = weight a"
  by (simp add: abs_end_record_def weight_def Let_def)

lemma slice_bytes_sim:
  assumes "sim cfg m slice a st w" and "weight a + length cs < SIZE_MAX"
    and "slice_bytes cfg slice cs st w = (r, rest, st1, w1)"
  shows "r = 0 \<and> (\<exists>a1. abs_run cfg cs a = Some a1 \<and> sim cfg m rest a1 st1 w1
        \<and> weight a1 = weight a + length cs)
      \<and> total_input_bytes st1 = total_input_bytes st \<and> unlink_script w1 = unlink_script w
    \<or> r = -1 \<and> (unlink_script w = [] \<longrightarrow>
        (\<exists>k a1. abs_run cfg (take k cs) a = Some a1 \<and> files w1 = add_chunks cfg (chunks a1) m))"
  using assms
proof (induction cs arbitrary: slice a st w)
  case Nil
  then show ?case by auto
next
  case (Cons c cs)
  note s = Cons.prems(1) and run = Cons.prems(3)
  let ?st = "st\<lparr>record_bytes := rlen a + 1\<rparr>"
  have small: "rlen a + 1 \<le> SIZE_MAX"
    using s Cons.prems(2) by (simp add: sim_def abs_ok_def weight_def)
  then have plus: "size_plus (record_bytes st) (Suc 0) = Suc (rlen a)" using s by (simp add: sim_def)
  have stop: ?case if "abs_run cfg (take 0 (c # cs)) a = Some a"
    "r = -1 \<and> (unlink_script w = [] \<longrightarrow> files w1 = add_chunks cfg (chunks a) m)"
    using that by blast
  have dead: ?case if "fail_with h d st2 w = (r, st3, w1)"
    "active_chunk_fd st2 = active_chunk_fd st" "active_chunk_path st2 = active_chunk_path st"
    for h d st2 st3
  proof -
    have "fst (fail_with h d st2 w) = -1" "snd (snd (fail_with h d st2 w)) = snd (snd (fail_with h d st2 w))"
      by (simp_all add: fail_with_def split: prod.split)
    moreover have "files (snd (abort_cleanup st2 w)) = files (snd (abort_cleanup st w))"
      using that(2,3) by (simp add: abort_cleanup_def Let_def c_unlink_def)
    ultimately show ?thesis
      using stop that(1) abort_cleanup_files [OF s]
      by (auto simp: fail_with_def split: prod.splits)
  qed
  have deadrun: ?case if "slice_bytes cfg slice (c # cs) st w
      = (case fail_with h d st2 w of (r, st3, w1) \<Rightarrow> (r, slice, st3, w1))"
    "active_chunk_fd st2 = active_chunk_fd st" "active_chunk_path st2 = active_chunk_path st"
    for h d st2
  proof (cases "fail_with h d st2 w")
    case (fields r1 st3 w3)
    with that(1) run have "fail_with h d st2 w = (r, st3, w1)" by simp
    from dead [OF this that(2,3)] show ?thesis .
  qed
  have st: "record_bytes st = rlen a" "csv_state st = acsv a" using s by (simp_all add: sim_def)
  show ?case
  proof (cases "c = NUL \<or> rlen a + 1 > SNSLICE_MAX_RECORD_BYTES \<or> record_step (format cfg) (acsv a) c = None")
    case True
    then consider "c = NUL" | "c \<noteq> NUL" "Suc (rlen a) > SNSLICE_MAX_RECORD_BYTES"
      | "c \<noteq> NUL" "\<not> Suc (rlen a) > SNSLICE_MAX_RECORD_BYTES" "record_step (format cfg) (acsv a) c = None"
      by fastforce
    then show ?thesis
    proof cases
      case 1
      show ?thesis
        by (rule deadrun [where ?st2.0 = st and d = "''embedded NUL byte detected''"
              and h = "if format cfg = FORMAT_NDJSON then ''MALFORMED_NDJSON'' else ''MALFORMED_CSV''"])
          (simp_all only: slice_bytes.simps 1 simp_thms if_True)
    next
      case 2
      show ?thesis
        by (rule deadrun [where ?st2.0 = ?st and h = "''RECORD_LENGTH_LIMIT''"
              and d = "''record exceeds 16 MiB limit''"]) (use 2 plus st in \<open>simp_all split: prod.split\<close>)
    next
      case 3
      show ?thesis
        by (rule deadrun [where ?st2.0 = ?st and h = "''MALFORMED_CSV''"
              and d = "''invalid character after closing quote''"]) (use 3 plus st in \<open>simp_all split: prod.split\<close>)
    qed
  next
    case False
    then obtain s1 b where step: "record_step (format cfg) (acsv a) c = Some (s1, b)"
      and ok: "c \<noteq> NUL" "\<not> rlen a + 1 > SNSLICE_MAX_RECORD_BYTES" by auto
    let ?st = "st\<lparr>record_bytes := rlen a + 1, csv_state := s1\<rparr>"
      and ?a = "a\<lparr>cur := cur a @ [c], rlen := rlen a + 1, acsv := s1\<rparr>"
    have s2: "sim cfg m (slice @ [c]) ?a ?st w"
      using s Cons.prems(2) by (auto simp: sim_def abs_ok_def weight_def)
    have wt: "weight ?a = weight a + 1" by (simp add: weight_def)
    show ?thesis
    proof (cases b)
      case False
      then have ab: "abs_byte cfg c a = Some ?a" using ok step by (simp add: abs_byte_def)
      have rec: "slice_bytes cfg (slice @ [c]) cs ?st w = (r, rest, st1, w1)"
        using run ok step s False by (simp add: plus sim_def)
      have IH: "r = 0 \<and> (\<exists>a1. abs_run cfg cs ?a = Some a1 \<and> sim cfg m rest a1 st1 w1
            \<and> weight a1 = weight ?a + length cs)
          \<and> total_input_bytes st1 = total_input_bytes ?st \<and> unlink_script w1 = unlink_script w
        \<or> r = -1 \<and> (unlink_script w = [] \<longrightarrow>
          (\<exists>k a1. abs_run cfg (take k cs) ?a = Some a1 \<and> files w1 = add_chunks cfg (chunks a1) m))"
        by (rule Cons.IH [OF s2 _ rec]) (use Cons.prems(2) wt in simp)
      have "abs_run cfg (take k cs) ?a = abs_run cfg (take (Suc k) (c # cs)) a"
        "abs_run cfg cs ?a = abs_run cfg (c # cs) a" "total_input_bytes ?st = total_input_bytes st"
        "weight ?a + length cs = weight a + length (c # cs)" for k
        by (simp_all add: ab wt [simplified])
      from IH [unfolded this] show ?thesis by blast
    next
      case True
      let ?e = "abs_end_record cfg ?a"
      have ab: "abs_byte cfg c a = Some ?e" using ok step True by (simp add: abs_byte_def)
      obtain r0 st0 w0 where er: "end_record cfg (slice @ [c]) ?st w = (r0, st0, w0)"
        by (cases "end_record cfg (slice @ [c]) ?st w")
      have es: "r0 = 0 \<and> sim cfg m [] ?e st0 w0
          \<and> total_input_bytes st0 = total_input_bytes ?st \<and> unlink_script w0 = unlink_script w
        \<or> r0 = -1 \<and> (unlink_script w = [] \<longrightarrow> files w0 = add_chunks cfg (chunks ?a) m)"
        by (rule end_record_sim [OF s2 _ _ er]) simp_all
      show ?thesis
      proof (cases "r0 = 0")
        case False
        with run ok step s True er es show ?thesis
          by (intro stop) (auto simp: plus sim_def)
      next
        case r0: True
        with es have s3: "sim cfg m [] ?e st0 w0"
          and fr: "total_input_bytes st0 = total_input_bytes st" "unlink_script w0 = unlink_script w" by auto
        have rec: "slice_bytes cfg [] cs st0 w0 = (r, rest, st1, w1)"
          using run ok step s True er r0 by (simp add: plus sim_def)
        have IH: "r = 0 \<and> (\<exists>a1. abs_run cfg cs ?e = Some a1 \<and> sim cfg m rest a1 st1 w1
              \<and> weight a1 = weight ?e + length cs)
            \<and> total_input_bytes st1 = total_input_bytes st0 \<and> unlink_script w1 = unlink_script w0
          \<or> r = -1 \<and> (unlink_script w0 = [] \<longrightarrow>
            (\<exists>k a1. abs_run cfg (take k cs) ?e = Some a1 \<and> files w1 = add_chunks cfg (chunks a1) m))"
          by (rule Cons.IH [OF s3 _ rec]) (use Cons.prems(2) wt weight_end_record in simp)
        have "abs_run cfg (take k cs) ?e = abs_run cfg (take (Suc k) (c # cs)) a"
          "abs_run cfg cs ?e = abs_run cfg (c # cs) a"
          "weight ?e + length cs = weight a + length (c # cs)" for k
          by (simp_all add: ab wt [simplified] weight_end_record)
        from IH [unfolded this fr] show ?thesis by blast
      qed
    qed
  qed
qed

section \<open>The whole stream\<close>

text \<open>The bytes the answers of \<open>read\<close> deliver before the end of file or an error.\<close>

fun read_bytes :: "read_answer list \<Rightarrow> char list" where
  "read_bytes [] = []"
| "read_bytes (ReadError e # reads) = (if e = EINTR then read_bytes reads else [])"
| "read_bytes (ReadData d # reads) = (if d = [] then [] else d @ read_bytes reads)"

lemma finish_stream_sim:
  assumes "sim cfg m [] a st w" and "total_input_bytes st = weight a"
    and "finish_stream cfg st w = (r, st1, w1)" and "weight a = 0 \<longrightarrow> a = abs_init"
  shows "r = 0 \<and> (\<exists>ds. abs_finish cfg a = Some ds \<and> files w1 = add_chunks cfg ds m
        \<and> chunks_free cfg m (length ds))
    \<or> r = -1 \<and> (unlink_script w = [] \<longrightarrow> files w1 = add_chunks cfg (chunks a) m)"
proof (cases "weight a = 0")
  case True
  with assms have "a = abs_init" "r = 0" "w1 = w" by (auto simp: finish_stream_def)
  with assms(1) show ?thesis
    by (auto simp: abs_finish_def abs_init_def sim_def split: if_splits)
next
  case False
  have st: "record_bytes st = rlen a" "csv_state st = acsv a" using assms(1) by (simp_all add: sim_def)
  show ?thesis
  proof (cases "if format cfg = FORMAT_NDJSON then rlen a = 0 else acsv a \<noteq> CSV_STATE_QUOTED")
    case bad: False
    then obtain h d where "fail_with h d st w = (r, st1, w1)"
      using assms(2,3) False st by (auto simp: finish_stream_def split: if_splits)
    from fail_with_files [OF assms(1) _ this] show ?thesis
      using \<open>fail_with h d st w = (r, st1, w1)\<close> by (auto simp: fail_with_def split: prod.splits)
  next
    case good: True
    define st0 where "st0 = (if format cfg \<noteq> FORMAT_NDJSON \<and> rlen a > 0
      then st\<lparr>chunk_records := size_plus (chunk_records st) 1\<rparr> else st)"
    obtain r1 st2 w2 where c: "close_chunk st0 w = (r1, st2, w2)" by (cases "close_chunk st0 w")
    then have res: "r = (if r1 \<noteq> 0 then -1 else 0)" "w1 = w2"
      using assms(2,3) False st good by (auto simp: finish_stream_def st0_def split: if_splits)
    have fin: "abs_finish cfg a = Some (chunks a @ (if cur a = [] then [] else [cur a]))"
      using good by (simp add: abs_finish_def)
    have fields: "active_chunk_fd st0 = active_chunk_fd st"
      "active_chunk_path st0 = active_chunk_path st" "chunk_index st0 = chunk_index st"
      by (simp_all add: st0_def)
    show ?thesis
    proof (cases "active_chunk_fd st < 0")
      case True
      with c res fin fields assms(1) show ?thesis
        by (auto simp: close_chunk_def sim_def)
    next
      case open1: False
      let ?a = "a\<lparr>nrec := chunk_records st0\<rparr>"
      obtain r2 st3 w3 where c3: "close_chunk st w = (r2, st3, w3)" by (cases "close_chunk st w")
      have "r1 = r2 \<and> files w2 = files w3 \<and> unlink_script w2 = unlink_script w3"
        using c c3 fields by (auto simp: close_chunk_def Let_def split: if_splits prod.splits)
      moreover have "cur a \<noteq> []" using assms(1) open1 by (auto simp: sim_def)
      moreover have fd: "active_chunk_fd st \<ge> 0" using open1 by simp
      ultimately show ?thesis
        using close_chunk_sim [OF assms(1) fd c3] res fin by auto
    qed
  qed
qed

lemma abs_run_zero_weight:
  assumes "abs_run cfg bs abs_init = Some a" and "weight a = 0"
  shows "a = abs_init"
proof -
  from abs_run_chunks [OF assms(1)] assms(2) have "bs = []"
    by (auto simp: weight_def abs_init_def)
  with assms(1) show ?thesis by simp
qed

lemma stream_slice_sim:
  assumes "sim cfg m [] a st w" and "total_input_bytes st = weight a"
    and "weight a + length (read_bytes reads) < SIZE_MAX"
    and "stream_slice cfg reads st w = (r, st1, w1)" and "abs_run cfg bs abs_init = Some a"
  shows "r = 0 \<and> (\<exists>a1 ds. abs_run cfg (bs @ read_bytes reads) abs_init = Some a1
        \<and> abs_finish cfg a1 = Some ds \<and> files w1 = add_chunks cfg ds m \<and> chunks_free cfg m (length ds))
    \<or> r = -1 \<and> (unlink_script w = [] \<longrightarrow>
        (\<exists>k a1. abs_run cfg (take k (bs @ read_bytes reads)) abs_init = Some a1
          \<and> files w1 = add_chunks cfg (chunks a1) m))"
  using assms
proof (induction cfg reads st w arbitrary: a bs rule: stream_slice.induct)
  case (1 cfg st w)
  have "weight a = 0 \<longrightarrow> a = abs_init" using abs_run_zero_weight [OF "1.prems"(5)] by blast
  from finish_stream_sim [OF "1.prems"(1,2) _ this] "1.prems"(4,5) show ?case
    by (fastforce intro: exI [of _ "length bs"])
next
  case (2 cfg e reads st w)
  show ?case
  proof (cases "e = EINTR")
    case True
    with 2 show ?thesis by simp
  next
    case False
    with "2.prems"(4) have f: "fail_with ''INPUT_READ_ERROR'' (''read error: '' @ strerror_of (sio w) e) st w
        = (r, st1, w1)" by simp
    then have "r = -1" by (auto simp: fail_with_def split: prod.splits)
    moreover have "unlink_script w = [] \<longrightarrow> files w1 = add_chunks cfg (chunks a) m"
      using fail_with_files [OF "2.prems"(1) _ f] by blast
    ultimately show ?thesis
      using "2.prems"(5) False by (fastforce intro: exI [of _ "length bs"])
  qed
next
  case (3 cfg data reads st w)
  show ?case
  proof (cases "data = []")
    case True
    have "weight a = 0 \<longrightarrow> a = abs_init" using abs_run_zero_weight [OF "3.prems"(5)] by blast
    from finish_stream_sim [OF "3.prems"(1,2) _ this] "3.prems"(4,5) True show ?thesis
      by (fastforce intro: exI [of _ "length bs"])
  next
    case False
    let ?st = "st\<lparr>total_input_bytes := weight a + length data\<rparr>"
    have plus: "size_plus (total_input_bytes st) (length data) = weight a + length data"
      using "3.prems"(2,3) False by simp
    have s: "sim cfg m [] a ?st w" using "3.prems"(1) by (auto simp: sim_def)
    have wt: "weight a + length data < SIZE_MAX" using "3.prems"(3) False by simp
    obtain r0 rest st0 w0 where b: "slice_bytes cfg [] data ?st w = (r0, rest, st0, w0)"
      by (cases "slice_bytes cfg [] data ?st w")
    from slice_bytes_sim [OF s wt b] show ?thesis
    proof (elim disjE conjE exE)
      assume "r0 = -1" and u: "unlink_script w = [] \<longrightarrow>
        (\<exists>k a1. abs_run cfg (take k data) a = Some a1 \<and> files w0 = add_chunks cfg (chunks a1) m)"
      then have "r = -1" "w1 = w0" using "3.prems"(4) b False plus by auto
      moreover have "\<exists>j a1. abs_run cfg (take j (bs @ read_bytes (ReadData data # reads))) abs_init = Some a1
          \<and> files w0 = add_chunks cfg (chunks a1) m"
        if "abs_run cfg (take k data) a = Some a1" "files w0 = add_chunks cfg (chunks a1) m" for k a1
        using that "3.prems"(5) False
        by (intro exI [of _ "length bs + min k (length data)"] exI [of _ a1], cases "k \<le> length data")
          (simp_all add: abs_run_append)
      ultimately show ?thesis using u by blast
    next
      fix a1
      assume r0: "r0 = 0" and run: "abs_run cfg data a = Some a1" and s1: "sim cfg m rest a1 st0 w0"
        and wt1: "weight a1 = weight a + length data"
        and tot: "total_input_bytes st0 = total_input_bytes ?st" and ul: "unlink_script w0 = unlink_script w"
      have run2: "abs_run cfg (bs @ data) abs_init = Some a1"
        using "3.prems"(5) run by (simp add: abs_run_append)
      obtain r2 st2 w2 where wr: "(if rest \<noteq> [] then write_to_chunk cfg st0 rest w0 else (0, st0, w0)) = (r2, st2, w2)"
        by (cases "if rest \<noteq> [] then write_to_chunk cfg st0 rest w0 else (0, st0, w0)")
      have ws: "r2 = 0 \<and> sim cfg m [] a1 st2 w2 \<and> total_input_bytes st2 = total_input_bytes st0
            \<and> unlink_script w2 = unlink_script w0
          \<or> r2 = -1 \<and> (unlink_script w0 = [] \<longrightarrow> files w2 = add_chunks cfg (chunks a1) m)"
      proof (cases "rest = []")
        case True
        with wr s1 show ?thesis by auto
      next
        case ne: False
        with wr have "write_to_chunk cfg st0 rest w0 = (r2, st2, w2)" by simp
        from write_to_chunk_sim [OF s1 ne this] show ?thesis by blast
      qed
      show ?thesis
      proof (cases "r2 = 0")
        case bad: False
        then have "r = -1" "w1 = w2" using "3.prems"(4) b False plus r0 wr by auto
        moreover have "unlink_script w = [] \<longrightarrow> files w2 = add_chunks cfg (chunks a1) m"
          using ws bad ul by auto
        moreover have "abs_run cfg (take (length bs + length data) (bs @ read_bytes (ReadData data # reads))) abs_init = Some a1"
          using run2 False by simp
        ultimately show ?thesis by blast
      next
        case True
        have rec: "stream_slice cfg reads st2 w2 = (r, st1, w1)"
          using "3.prems"(4) b False plus r0 wr True by simp
        have s2: "sim cfg m [] a1 st2 w2" and t2: "total_input_bytes st2 = weight a1"
          and u2: "unlink_script w2 = unlink_script w"
          using ws True tot wt1 ul by auto
        have w3: "weight a1 + length (read_bytes reads) < SIZE_MAX"
          using "3.prems"(3) wt1 False by simp
        note b1 = b [folded plus]
        have "r = 0 \<and> (\<exists>a2 ds. abs_run cfg ((bs @ data) @ read_bytes reads) abs_init = Some a2
            \<and> abs_finish cfg a2 = Some ds \<and> files w1 = add_chunks cfg ds m \<and> chunks_free cfg m (length ds))
          \<or> r = -1 \<and> (unlink_script w2 = [] \<longrightarrow>
            (\<exists>k a2. abs_run cfg (take k ((bs @ data) @ read_bytes reads)) abs_init = Some a2
              \<and> files w1 = add_chunks cfg (chunks a2) m))"
          by (rule "3.IH" [OF False refl b1 [symmetric] refl refl _ wr [symmetric] refl _ s2 t2 w3 rec run2])
            (use r0 True in auto)
        with u2 False show ?thesis by simp
      qed
    qed
  qed
qed

end
