(* ===== verification/Snslice.thy ===== *)
theory Snslice
  imports Snslice_Correct
begin

text \<open>
  The properties of \<open>src/snslice.c\<close>: what success and failure of the slicer leave in the file
  system, that it succeeds when nothing stands in its way, that chunks are runs of whole records
  closed as soon as a limit is reached, the CSV state machine on rendered rows, the parser of
  limits, the sanitising of diagnostics, and the command line.
\<close>

section \<open>Success and failure\<close>

lemma slice_spec_concat: "slice_spec cfg bs = Some ds \<Longrightarrow> concat ds = bs"
proof -
  assume a: "slice_spec cfg bs = Some ds"
  then obtain rs part s where r: "records_of (format cfg) CSV_STATE_START [] bs = Some (rs, part, s)"
    by (auto simp: slice_spec_def split: option.splits)
  obtain es c n where g: "group_records cfg [] 0 rs = (es, c, n)" by (cases "group_records cfg [] 0 rs")
  from a r g have "ds = es @ (if c @ part = [] then [] else [c @ part])"
    by (auto simp: slice_spec_def split: if_splits)
  then show "concat ds = bs"
    using records_of_concat [OF r] group_concat [OF g] by (auto split: if_splits)
qed

lemma sim_init: "next_fd w \<ge> 0 \<Longrightarrow> sim cfg (files w) [] abs_init (init_state fd b) w"
  by (simp add: sim_def abs_init_def init_state_def abs_ok_def weight_def SIZE_MAX_def chunks_free_def)

lemma slice_outcome:
  assumes "stream_slice cfg reads (init_state fd b) w = (r, st1, w1)"
    and "next_fd w \<ge> 0" and "length (read_bytes reads) < SIZE_MAX"
  shows "r = 0 \<and> (\<exists>ds. slice_spec cfg (read_bytes reads) = Some ds
        \<and> files w1 = add_chunks cfg ds (files w) \<and> chunks_free cfg (files w) (length ds))
    \<or> r = -1 \<and> (unlink_script w = [] \<longrightarrow>
        (\<exists>k a1. abs_run cfg (take k (read_bytes reads)) abs_init = Some a1
          \<and> files w1 = add_chunks cfg (chunks a1) (files w)))"
proof -
  have w0: "weight abs_init = 0" by (simp add: weight_def abs_init_def)
  have "r = 0 \<and> (\<exists>a1 ds. abs_run cfg ([] @ read_bytes reads) abs_init = Some a1
        \<and> abs_finish cfg a1 = Some ds \<and> files w1 = add_chunks cfg ds (files w)
        \<and> chunks_free cfg (files w) (length ds))
    \<or> r = -1 \<and> (unlink_script w = [] \<longrightarrow>
        (\<exists>k a1. abs_run cfg (take k ([] @ read_bytes reads)) abs_init = Some a1
          \<and> files w1 = add_chunks cfg (chunks a1) (files w)))"
    by (rule stream_slice_sim [OF sim_init [OF assms(2)] _ _ assms(1)])
      (use assms(3) w0 in \<open>simp_all add: init_state_def\<close>)
  then show ?thesis by (auto simp: slice_spec_abs)
qed

text \<open>
  C7. A run that reports success, whatever faults occurred on the way, has added exactly the chunks of the
  specification to the files, under names none of which existed before, and has changed no
  other file; joined together the chunks are the input byte for byte.
\<close>

theorem slice_success:
  assumes "stream_slice cfg reads (init_state fd b) w = (0, st1, w1)"
    and "next_fd w \<ge> 0" and "length (read_bytes reads) < SIZE_MAX"
  shows "\<exists>ds. slice_spec cfg (read_bytes reads) = Some ds \<and> concat ds = read_bytes reads
    \<and> (\<forall>i < length ds. files w (chunk_name cfg (i + 1)) = None
         \<and> files w1 (chunk_name cfg (i + 1)) = Some (ds ! i))
    \<and> (\<forall>p. (\<forall>i < length ds. p \<noteq> chunk_name cfg (i + 1)) \<longrightarrow> files w1 p = files w p)"
proof -
  from slice_outcome [OF assms] obtain ds where ds: "slice_spec cfg (read_bytes reads) = Some ds"
    "files w1 = add_chunks cfg ds (files w)" "chunks_free cfg (files w) (length ds)" by auto
  then show ?thesis
    using slice_spec_concat [OF ds(1)] add_chunks_nth [of _ ds cfg "files w"]
      add_chunks_other [of ds _ cfg "files w"]
    by (intro exI [of _ ds]) (simp add: chunks_free_def)
qed

text \<open>
  C8. A run that fails (malformed input, a record over the limit, or any failing system call)
  leaves complete chunks only: those of some prefix of the input, with no incomplete file and no
  other file changed.  (Removing the incomplete file is assumed to work.)
\<close>

theorem slice_failure:
  assumes "stream_slice cfg reads (init_state fd b) w = (-1, st1, w1)"
    and "next_fd w \<ge> 0" and "length (read_bytes reads) < SIZE_MAX" and "unlink_script w = []"
  shows "\<exists>k rs part s. records_of (format cfg) CSV_STATE_START [] (take k (read_bytes reads))
        = Some (rs, part, s)
    \<and> files w1 = add_chunks cfg (fst (group_records cfg [] 0 rs)) (files w)"
proof -
  from slice_outcome [OF assms(1-3)] assms(4) obtain k a where
    a: "abs_run cfg (take k (read_bytes reads)) abs_init = Some a"
    "files w1 = add_chunks cfg (chunks a) (files w)" by auto
  have "abs_run cfg (take k (read_bytes reads)) abs_init =
    (case records_of (format cfg) (acsv abs_init) [] (take k (read_bytes reads)) of
       None \<Rightarrow> None
     | Some (rs, p, s) \<Rightarrow>
         if (\<forall>r \<in> set (p # rs). record_ok r) then
           (case group_records cfg [] (nrec abs_init) rs of
              (ds, c, n) \<Rightarrow> Some \<lparr>chunks = chunks abs_init @ ds, cur = c @ p, nrec = n, rlen = length p, acsv = s\<rparr>)
         else None)"
    by (rule abs_run_reference) (simp_all add: abs_init_def record_ok_def)
  with a(1) obtain rs part s where r: "records_of (format cfg) CSV_STATE_START [] (take k (read_bytes reads))
      = Some (rs, part, s)" and c: "chunks a = fst (group_records cfg [] 0 rs)"
    by (auto simp: abs_init_def split: option.splits if_splits prod.splits)
  from r a(2) show ?thesis unfolding c by blast
qed

text \<open>
  C9. The chunks of a successful run are exactly the cut of the records at the limits: each closed
  chunk is a group of consecutive whole records whose last record reaches a limit and no earlier one
  does, and what follows the last closed chunk, if anything, is one chunk in which no record reaches
  a limit, with the bytes after the last record.
\<close>

theorem chunk_runs:
  assumes "stream_slice cfg reads (init_state fd b) w = (0, st1, w1)"
    and "next_fd w \<ge> 0" and "length (read_bytes reads) < SIZE_MAX"
  shows "\<exists>rs part s gs tail. records_of (format cfg) CSV_STATE_START [] (read_bytes reads) = Some (rs, part, s)
    \<and> cut_at_limits cfg rs gs tail
    \<and> files w1 = add_chunks cfg (map concat gs @ (if concat tail @ part = [] then [] else [concat tail @ part])) (files w)
    \<and> (\<forall>r \<in> set (part # rs). NUL \<notin> set r \<and> length r \<le> SNSLICE_MAX_RECORD_BYTES) \<and> [] \<notin> set rs"
proof -
  from slice_outcome [OF assms] obtain ds where ds: "slice_spec cfg (read_bytes reads) = Some ds"
    "files w1 = add_chunks cfg ds (files w)" by auto
  then obtain rs part s where r: "records_of (format cfg) CSV_STATE_START [] (read_bytes reads) = Some (rs, part, s)"
    by (auto simp: slice_spec_def split: option.splits)
  obtain es c n where g: "group_records cfg (concat []) (length ([] :: char list list)) rs = (es, c, n)"
    by (cases "group_records cfg (concat []) (length ([] :: char list list)) rs")
  from ds r g have e: "ds = es @ (if c @ part = [] then [] else [c @ part])"
    and ok: "\<forall>r \<in> set (part # rs). record_ok r"
    by (auto simp: slice_spec_def split: if_splits)
  from group_cuts [OF g] obtain gs tail where
    t: "cut_at_limits cfg rs gs tail" "es = map concat gs" "c = concat tail" by auto
  have ne: "[] \<notin> set (records_of_list)" if "records_of fmt st p bs = Some (records_of_list, q, s')"
    for fmt st p bs records_of_list q s'
    using that by (induction bs arbitrary: st p records_of_list) (auto split: option.splits if_splits)
  have "\<forall>r \<in> set (part # rs). NUL \<notin> set r \<and> length r \<le> SNSLICE_MAX_RECORD_BYTES"
    using ok unfolding record_ok_def .
  with r t(1) ds(2) [unfolded e t(2,3)] ne [OF r] show ?thesis by blast
qed

section \<open>No faults\<close>

definition calm :: "world \<Rightarrow> bool" where
  "calm w \<longleftrightarrow> open_script w = [] \<and> write_script w = [] \<and> close_script w = [] \<and> next_fd w \<ge> 0"

lemma calm_emit [simp]: "calm (emit_diagnostic h d w) \<longleftrightarrow> calm w"
  by (simp add: calm_def)

lemma calm_write_all: "calm w \<Longrightarrow> \<exists>w1. write_all fd data w = (int (length data), w1) \<and> calm w1"
proof -
  assume c: "calm w"
  show ?thesis
  proof (cases "data = []")
    case True
    with c show ?thesis by (simp add: write_all.simps)
  next
    case False
    obtain w1 where w1: "c_write_fd fd data w = (int (length data), w1)" "calm w1"
      using c by (auto simp: c_write_fd_def calm_def Let_def split: option.split)
    with False show ?thesis
      by (subst write_all.simps) (simp add: write_all.simps [of fd "[]"])
  qed
qed

definition names_ok :: "SnSliceConfig \<Rightarrow> (cstr \<Rightarrow> char list option) \<Rightarrow> nat \<Rightarrow> bool" where
  "names_ok cfg m n \<longleftrightarrow> (\<forall>i \<le> n. m (chunk_name cfg (i + 1)) = None
     \<and> length (chunk_name cfg (i + 1)) < PATH_MAX)"

lemma calm_write_to_chunk:
  assumes "calm w" and "sim cfg m slice a st w" and "names_ok cfg m (length (chunks a))"
  shows "\<exists>st1 w1. write_to_chunk cfg st slice w = (0, st1, w1) \<and> calm w1"
proof (cases "slice = [] \<or> active_chunk_fd st \<ge> 0")
  case True
  with assms calm_write_all [OF assms(1), of "active_chunk_fd st" slice] show ?thesis
    by (auto simp: write_to_chunk_def)
next
  case False
  let ?p = "chunk_name cfg (length (chunks a) + 1)"
  have "files w ?p = None" "length ?p < PATH_MAX" "chunk_index st = length (chunks a) + 1"
    using assms(2,3) False add_chunks_next [of cfg "chunks a" m]
    by (auto simp: sim_def names_ok_def)
  then obtain st0 w0 where o: "open_chunk cfg st w = (0, st0, w0)" "calm w0"
    using assms(1) by (auto simp: open_chunk_def c_open_excl_def calm_def Let_def)
  with False calm_write_all [OF o(2), of "active_chunk_fd st0" slice] show ?thesis
    by (auto simp: write_to_chunk_def)
qed

lemma calm_close_chunk: "calm w \<Longrightarrow> \<exists>st1 w1. close_chunk st w = (0, st1, w1) \<and> calm w1"
  by (auto simp: close_chunk_def c_close_def calm_def)

lemma calm_end_record:
  assumes "calm w" and "sim cfg m slice a st w" and "names_ok cfg m (length (chunks a))"
  shows "\<exists>st1 w1. end_record cfg slice st w = (0, st1, w1) \<and> calm w1"
proof -
  from calm_write_to_chunk [OF assms] obtain st1 w1 where w: "write_to_chunk cfg st slice w = (0, st1, w1)" "calm w1"
    by blast
  let ?st = "st1\<lparr>record_bytes := 0, chunk_records := size_plus (chunk_records st1) 1\<rparr>"
  from calm_close_chunk [OF w(2), of ?st] obtain st2 w2 where "close_chunk ?st w1 = (0, st2, w2)" "calm w2"
    by blast
  with w show ?thesis by (simp add: end_record_def Let_def)
qed

lemma names_ok_mono: "names_ok cfg m n \<Longrightarrow> k \<le> n \<Longrightarrow> names_ok cfg m k"
  by (simp add: names_ok_def)

lemma sim_count: "sim cfg m slice a st w \<Longrightarrow> length (chunks a) \<le> weight a"
  using chunk_count [of a] by (simp add: sim_def)

lemma calm_slice_bytes:
  assumes "calm w" and "sim cfg m slice a st w" and "weight a + length cs < SIZE_MAX"
    and "names_ok cfg m (weight a + length cs)" and "abs_run cfg cs a \<noteq> None"
  shows "\<exists>rest st1 w1. slice_bytes cfg slice cs st w = (0, rest, st1, w1) \<and> calm w1"
  using assms
proof (induction cs arbitrary: slice a st w)
  case Nil
  then show ?case by simp
next
  case (Cons c cs)
  note s = Cons.prems(2)
  have small: "rlen a + 1 \<le> SIZE_MAX"
    using s Cons.prems(3) by (simp add: sim_def abs_ok_def weight_def)
  then have plus: "size_plus (rlen a) (Suc 0) = Suc (rlen a)" by simp
  have st: "record_bytes st = rlen a" "csv_state st = acsv a" using s by (simp_all add: sim_def)
  from Cons.prems(5) obtain s1 b where step: "record_step (format cfg) (acsv a) c = Some (s1, b)"
    and ok: "c \<noteq> NUL" "\<not> rlen a + 1 > SNSLICE_MAX_RECORD_BYTES"
    by (auto simp: abs_byte_def split: if_splits option.splits)
  let ?st = "st\<lparr>record_bytes := rlen a + 1, csv_state := s1\<rparr>"
    and ?a = "a\<lparr>cur := cur a @ [c], rlen := rlen a + 1, acsv := s1\<rparr>"
  have s2: "sim cfg m (slice @ [c]) ?a ?st w"
    using s Cons.prems(3) by (auto simp: sim_def abs_ok_def weight_def)
  have wt: "weight ?a = weight a + 1" by (simp add: weight_def)
  show ?case
  proof (cases b)
    case False
    then have ab: "abs_byte cfg c a = Some ?a" using ok step by (simp add: abs_byte_def)
    have "\<exists>rest st1 w1. slice_bytes cfg (slice @ [c]) cs ?st w = (0, rest, st1, w1) \<and> calm w1"
      by (rule Cons.IH [OF Cons.prems(1) s2])
        (use Cons.prems(3,4,5) wt ab in \<open>auto split: option.splits\<close>)
    with ok step False show ?thesis by (simp add: plus st)
  next
    case True
    let ?e = "abs_end_record cfg ?a"
    have ab: "abs_byte cfg c a = Some ?e" using ok step True by (simp add: abs_byte_def)
    have "names_ok cfg m (length (chunks ?a))"
      using names_ok_mono [OF Cons.prems(4)] sim_count [OF s] by simp
    from calm_end_record [OF Cons.prems(1) s2 this] obtain st0 w0 where
      er: "end_record cfg (slice @ [c]) ?st w = (0, st0, w0)" "calm w0" by blast
    have s3: "sim cfg m [] ?e st0 w0"
      using end_record_sim [OF s2 _ _ er(1)] by simp
    have "\<exists>rest st1 w1. slice_bytes cfg [] cs st0 w0 = (0, rest, st1, w1) \<and> calm w1"
      by (rule Cons.IH [OF er(2) s3])
        (use Cons.prems(3,4,5) wt ab weight_end_record [of cfg ?a] in \<open>auto split: option.splits\<close>)
    with ok step True er show ?thesis by (simp add: plus st)
  qed
qed

text \<open>All reads succeed or are interrupted, up to the end of the file.\<close>

fun readable :: "read_answer list \<Rightarrow> bool" where
  "readable [] = True"
| "readable (ReadError e # reads) = (e = EINTR \<and> readable reads)"
| "readable (ReadData d # reads) = (d = [] \<or> readable reads)"

lemma calm_finish:
  assumes "calm w" and "sim cfg m [] a st w" and "total_input_bytes st = weight a" and "abs_finish cfg a \<noteq> None"
  shows "fst (finish_stream cfg st w) = 0"
proof (cases "weight a = 0")
  case False
  have st: "record_bytes st = rlen a" "csv_state st = acsv a" using assms(2) by (simp_all add: sim_def)
  obtain st1 w1 where c1: "close_chunk st w = (0, st1, w1)" using calm_close_chunk [OF assms(1)] by blast
  obtain st2 w2 where "close_chunk (st\<lparr>chunk_records := size_plus (chunk_records st) 1\<rparr>) w = (0, st2, w2)"
    using calm_close_chunk [OF assms(1)] by blast
  with c1 False assms(3,4) st show ?thesis
    by (auto simp: finish_stream_def abs_finish_def split: if_splits)
qed (simp add: finish_stream_def assms(3))

lemma calm_stream:
  assumes "calm w" and "sim cfg m [] a st w" and "total_input_bytes st = weight a"
    and "weight a + length (read_bytes reads) < SIZE_MAX"
    and "names_ok cfg m (weight a + length (read_bytes reads))" and "readable reads"
    and "abs_run cfg (read_bytes reads) a = Some a1" and "abs_finish cfg a1 \<noteq> None"
  shows "fst (stream_slice cfg reads st w) = 0"
  using assms
proof (induction cfg reads st w arbitrary: a rule: stream_slice.induct)
  case (1 cfg st w)
  then show ?case using calm_finish [of w cfg m a st] by simp
next
  case (2 cfg e reads st w)
  then show ?case by simp
next
  case (3 cfg data reads st w)
  show ?case
  proof (cases "data = []")
    case True
    with 3 show ?thesis using calm_finish [of w cfg m a st] by simp
  next
    case False
    let ?st = "st\<lparr>total_input_bytes := weight a + length data\<rparr>"
    have plus: "size_plus (total_input_bytes st) (length data) = weight a + length data"
      using "3.prems"(3,4) False by simp
    have s: "sim cfg m [] a ?st w" using "3.prems"(2) by (auto simp: sim_def)
    have wt: "weight a + length data < SIZE_MAX" using "3.prems"(4) False by simp
    from "3.prems"(7) False obtain a0 where run: "abs_run cfg data a = Some a0"
      and run2: "abs_run cfg (read_bytes reads) a0 = Some a1"
      by (auto simp: abs_run_append split: option.splits)
    have nm: "names_ok cfg m (weight a + length data)"
      using names_ok_mono [OF "3.prems"(5)] False by simp
    from calm_slice_bytes [OF "3.prems"(1) s wt nm] run obtain rest st0 w0 where
      b: "slice_bytes cfg [] data ?st w = (0, rest, st0, w0)" "calm w0" by auto
    from slice_bytes_sim [OF s wt b(1)] run have s1: "sim cfg m rest a0 st0 w0"
      and wt1: "weight a0 = weight a + length data"
      and tot: "total_input_bytes st0 = total_input_bytes ?st" by auto
    have "names_ok cfg m (length (chunks a0))"
      using names_ok_mono [OF nm] sim_count [OF s1] wt1 by simp
    from calm_write_to_chunk [OF b(2) s1 this] obtain st2 w2 where
      wr: "write_to_chunk cfg st0 rest w0 = (0, st2, w2)" "calm w2" by blast
    define p where "p = (if rest \<noteq> [] then (st2, w2) else (st0, w0))"
    obtain st3 w3 where p: "p = (st3, w3)" by (cases p)
    have wr2: "(if rest \<noteq> [] then write_to_chunk cfg st0 rest w0 else (0, st0, w0)) = (0, st3, w3)"
      using wr p by (auto simp: p_def split: if_splits)
    have s3: "sim cfg m [] a0 st3 w3" "total_input_bytes st3 = weight a0" "calm w3"
      using p s1 b(2) wr tot wt1 write_to_chunk_sim [OF s1 _ wr(1)]
      by (auto simp: p_def split: if_splits)
    have "fst (stream_slice cfg reads st3 w3) = 0"
      by (rule "3.IH" [OF False refl b(1) [folded plus, symmetric] refl refl _ wr2 [symmetric] refl _ s3(3,1,2)])
        (use "3.prems" wt1 run2 False in \<open>auto simp: add.assoc\<close>)
    then show ?thesis using False plus b(1) wr2 by simp
  qed
qed

lemma slice_completes:
  assumes "calm w" and "readable reads" and "length (read_bytes reads) < SIZE_MAX"
    and "names_ok cfg (files w) (length (read_bytes reads))"
    and "slice_spec cfg (read_bytes reads) \<noteq> None"
  shows "fst (stream_slice cfg reads (init_state fd b) w) = 0"
proof -
  from assms(5) obtain a1 where a: "abs_run cfg (read_bytes reads) abs_init = Some a1" "abs_finish cfg a1 \<noteq> None"
    by (auto simp: slice_spec_abs split: option.splits)
  have w0: "weight abs_init = 0" by (simp add: weight_def abs_init_def)
  show ?thesis
    by (rule calm_stream [OF assms(1) sim_init _ _ _ assms(2) a])
      (use assms w0 in \<open>simp_all add: calm_def init_state_def\<close>)
qed

text \<open>
  C10. When no system call fails, the chunk names are unused and fit in \<open>PATH_MAX\<close>, the slicer
  succeeds exactly on the inputs of the specification: no NUL, no record above 16 MiB, an NDJSON
  stream that ends with a newline, a CSV stream with correct quoting.
\<close>

theorem slice_exact:
  assumes "calm w" and "readable reads" and "length (read_bytes reads) < SIZE_MAX"
    and "names_ok cfg (files w) (length (read_bytes reads))"
  shows "fst (stream_slice cfg reads (init_state fd b) w) = 0
    \<longleftrightarrow> slice_spec cfg (read_bytes reads) \<noteq> None"
proof
  assume r: "fst (stream_slice cfg reads (init_state fd b) w) = 0"
  obtain st1 w1 where "stream_slice cfg reads (init_state fd b) w = (0, st1, w1)"
    using r by (cases "stream_slice cfg reads (init_state fd b) w") auto
  from slice_outcome [OF this] assms(1,3) show "slice_spec cfg (read_bytes reads) \<noteq> None"
    by (auto simp: calm_def)
qed (rule slice_completes [OF assms])

section \<open>CSV rows\<close>

datatype csv_field = Plain cstr | Quoted cstr

fun field_ok :: "csv_field \<Rightarrow> bool" where
  "field_ok (Plain f) = (DQ \<notin> set f \<and> CHR '','' \<notin> set f \<and> LF \<notin> set f)"
| "field_ok (Quoted f) = True"

fun field_text :: "csv_field \<Rightarrow> cstr" where
  "field_text (Plain f) = f"
| "field_text (Quoted f) = DQ # concat (map (\<lambda>c. if c = DQ then [DQ, DQ] else [c]) f) @ [DQ]"

fun row_body :: "csv_field list \<Rightarrow> cstr" where
  "row_body [] = []"
| "row_body [f] = field_text f"
| "row_body (f # g # fs) = field_text f @ CHR '','' # row_body (g # fs)"

definition row_text :: "csv_field list \<Rightarrow> cstr" where "row_text fs = row_body fs @ [LF]"

text \<open>A run of the state machine in which no record ends.\<close>

fun csv_inside :: "CsvState \<Rightarrow> cstr \<Rightarrow> CsvState option" where
  "csv_inside s [] = Some s"
| "csv_inside s (c # t) =
     (case csv_step s c of Some (s1, False) \<Rightarrow> csv_inside s1 t | _ \<Rightarrow> None)"

lemma csv_inside_append:
  "csv_inside s (t @ u) = (case csv_inside s t of None \<Rightarrow> None | Some s1 \<Rightarrow> csv_inside s1 u)"
  by (induction t arbitrary: s) (auto split: option.split prod.split bool.split)

lemma records_of_inside:
  "csv_inside s t = Some s1 \<Longrightarrow>
     records_of FORMAT_CSV s part (t @ bs) = records_of FORMAT_CSV s1 (part @ t) bs"
proof (induction t arbitrary: s part)
  case (Cons c t)
  then show ?case by (auto simp: record_step_def split: option.splits prod.splits bool.splits)
qed simp

lemma quoted_inside:
  "csv_inside CSV_STATE_QUOTED (concat (map (\<lambda>c. if c = DQ then [DQ, DQ] else [c]) f))
     = Some CSV_STATE_QUOTED"
  by (induction f) auto

lemma plain_inside:
  "field_ok (Plain f) \<Longrightarrow> s = CSV_STATE_START \<or> s = CSV_STATE_UNQUOTED \<Longrightarrow>
     \<exists>s1. csv_inside s f = Some s1 \<and> (s1 = CSV_STATE_START \<or> s1 = CSV_STATE_UNQUOTED)"
proof (induction f arbitrary: s)
  case (Cons c f)
  from Cons.prems(2) show ?case
  proof
    assume "s = CSV_STATE_START"
    with Cons show ?thesis by (cases "c = CR") auto
  next
    assume "s = CSV_STATE_UNQUOTED"
    with Cons show ?thesis by auto
  qed
qed simp

lemma field_inside:
  assumes "field_ok f"
  shows "\<exists>s1. csv_inside CSV_STATE_START (field_text f) = Some s1 \<and> s1 \<noteq> CSV_STATE_QUOTED"
proof (cases f)
  case (Plain t)
  with plain_inside [of t CSV_STATE_START] assms show ?thesis by auto
next
  case (Quoted t)
  then show ?thesis by (simp add: csv_inside_append quoted_inside)
qed

lemma not_quoted_step:
  "s \<noteq> CSV_STATE_QUOTED \<Longrightarrow> csv_step s (CHR '','') = Some (CSV_STATE_START, False)"
  "s \<noteq> CSV_STATE_QUOTED \<Longrightarrow> csv_step s LF = Some (CSV_STATE_START, True)"
  by (cases s; simp)+

lemma row_inside:
  "\<forall>f \<in> set fs. field_ok f \<Longrightarrow>
     \<exists>s1. csv_inside CSV_STATE_START (row_body fs) = Some s1 \<and> s1 \<noteq> CSV_STATE_QUOTED"
proof (induction fs rule: row_body.induct)
  case (2 f)
  then show ?case using field_inside by simp
next
  case (3 f g fs)
  then obtain s1 where "csv_inside CSV_STATE_START (field_text f) = Some s1" "s1 \<noteq> CSV_STATE_QUOTED"
    using field_inside by auto
  with 3 show ?case by (simp add: csv_inside_append not_quoted_step)
qed simp

text \<open>
  C11. Newlines inside quoted fields are not record boundaries: a stream of CSV rows, whatever
  bytes their quoted fields hold (quotes doubled), is cut exactly into its rows.
\<close>

theorem csv_rows:
  assumes "\<forall>fs \<in> set rows. \<forall>f \<in> set fs. field_ok f"
  shows "records_of FORMAT_CSV CSV_STATE_START [] (concat (map row_text rows))
    = Some (map row_text rows, [], CSV_STATE_START)"
  using assms
proof (induction rows)
  case (Cons fs rows)
  then obtain s1 where s1: "csv_inside CSV_STATE_START (row_body fs) = Some s1" "s1 \<noteq> CSV_STATE_QUOTED"
    using row_inside [of fs] by auto
  have "records_of FORMAT_CSV CSV_STATE_START [] (row_body fs @ LF # concat (map row_text rows))
      = records_of FORMAT_CSV s1 (row_body fs) (LF # concat (map row_text rows))"
    using records_of_inside [OF s1(1), of "[]"] by simp
  with Cons s1(2) show ?case
    by (simp add: row_text_def [of fs] record_step_def not_quoted_step)
qed simp

section \<open>Limits and diagnostics\<close>

text \<open>
  The parser of limits accepts exactly the strings of digits whose value is between 1 and
  \<open>SIZE_MAX\<close>, and returns this value (no sign, no blank, no overflow).
\<close>

theorem parse_positive_size_exact:
  "parse_positive_size str =
     (if str \<noteq> [] \<and> (\<forall>c \<in> set str. is_digit c) \<and> 1 \<le> dec_value str \<and> dec_value str \<le> SIZE_MAX
      then Some (dec_value str) else None)"
proof (cases str)
  case (Cons c t)
  show ?thesis
  proof (cases "\<forall>c \<in> set str. is_digit c")
    case True
    then have tw: "takeWhile is_digit str = str" and dw: "dropWhile is_digit str = []"
      by (simp_all add: takeWhile_eq_all_conv)
    have "strtoull_digits str = (min (dec_value str) 18446744073709551615, [],
        dec_value str > 18446744073709551615)"
      unfolding strtoull_digits_def tw dw Let_def by (rule refl)
    moreover have "\<not> ubyte c < 48 \<and> \<not> ubyte c > 57" using True Cons by (auto simp: is_digit_def)
    ultimately show ?thesis
      using True Cons by (auto simp: parse_positive_size_def SIZE_MAX_def min_def)
  next
    case False
    then have "dropWhile is_digit str \<noteq> []" by (auto simp: dropWhile_eq_Nil_conv)
    then have "parse_positive_size str = None"
      using Cons by (auto simp: parse_positive_size_def strtoull_digits_def Let_def)
    with False show ?thesis by simp
  qed
qed (simp add: parse_positive_size_def)

lemma sanitize_escape:
  "(if b = DQ then [BSL, CHR ''x'', CHR ''2'', CHR ''2'']
    else if b = BSL then [BSL, CHR ''x'', CHR ''5'', CHR ''C'']
    else if ubyte b \<ge> 0x20 \<and> ubyte b \<le> 0x7E then [b]
    else [BSL, CHR ''x'', hex_upper (ubyte b div 16 mod 16), hex_upper (ubyte b mod 16)]) = esc_hex b"
proof -
  have "ubyte b div 16 mod 16 = ubyte b div 16" by simp
  moreover have "char_of (50 :: nat) = CHR ''2''" "char_of (53 :: nat) = CHR ''5''"
    "char_of (67 :: nat) = CHR ''C''" by (simp_all add: char_of_eq_iff)
  ultimately show ?thesis
    by (auto simp: esc_hex_def hex_escape_def hex2_upper_def printable_def hex_upper_def)
qed

lemma sanitize_loop_form:
  "\<exists>k. sanitize_loop src dst n = dst @ concat (map esc_hex (take k src))
     \<and> (length dst + 4 * length src + 1 < n \<longrightarrow> k = length src)
     \<and> (length dst < n \<longrightarrow> length (sanitize_loop src dst n) < n)"
proof (induction src arbitrary: dst)
  case (Cons b src)
  show ?case
  proof (cases "length dst + 5 < n")
    case True
    have l: "length (esc_hex b) \<le> 4" by (rule hex_esc.length_esc)
    have eq: "sanitize_loop (b # src) dst n = sanitize_loop src (dst @ esc_hex b) n"
      using True by (simp only: sanitize_loop.simps sanitize_escape if_True)
    from Cons.IH [of "dst @ esc_hex b"] obtain k where
      k: "sanitize_loop src (dst @ esc_hex b) n = (dst @ esc_hex b) @ concat (map esc_hex (take k src))"
      "length (dst @ esc_hex b) + 4 * length src + 1 < n \<longrightarrow> k = length src"
      "length (dst @ esc_hex b) < n \<longrightarrow> length (sanitize_loop src (dst @ esc_hex b) n) < n" by blast
    show ?thesis
      unfolding eq using k l True by (intro exI [of _ "Suc k"]) auto
  next
    case False
    then show ?thesis by (intro exI [of _ 0]) auto
  qed
qed simp

text \<open>
  C12. Untrusted text in diagnostics: the sanitised text fits its buffer with the terminating
  NUL, consists of printable ASCII, reads back as a prefix of the text, and as the whole text
  when the buffer has four bytes for each byte of it and two more.
\<close>

theorem sanitize_string_safe:
  assumes "0 < n"
  shows "\<exists>t k. sanitize_string src n = Some t \<and> length t < n \<and> (\<forall>c \<in> set t. printable c)
    \<and> unescape t = Some (take k src) \<and> (4 * length src + 1 < n \<longrightarrow> k = length src)"
proof -
  from sanitize_loop_form [of src "[]" n, simplified append_Nil list.size add_0] obtain k where
    k: "sanitize_loop src [] n = concat (map esc_hex (take k src))"
    "4 * length src + 1 < n \<longrightarrow> k = length src" "length (sanitize_loop src [] n) < n"
    using assms by blast
  then show ?thesis
    using assms hex_esc.unescape_esc [of "take k src"] hex_esc.printable_escaped [of _ "take k src"]
    by (auto simp: sanitize_string_def)
qed

section \<open>The command line\<close>

text \<open>
  The command line: the status is 0 or 2; a slicing run with status 0 had at least one
  limit, a prefix that cannot leave the output directory, an existing output directory, and has
  added exactly the chunks of the specification.
\<close>

theorem snslice_main_status:
  assumes "main stat open_in reads argv w = (status, w1)" and "next_fd w \<ge> 0"
    and "length (read_bytes reads) < SIZE_MAX"
  shows "(status = 0 \<or> status = 2)
    \<and> (status = 0 \<and> find is_informational (tl argv) = None \<longrightarrow>
        (\<exists>cfg ds. parse_args False (tl argv) default_config = Inr cfg
          \<and> (limit_bytes cfg > 0 \<or> limit_records cfg > 0)
          \<and> prefix cfg \<noteq> [] \<and> CHR ''/'' \<notin> set (prefix cfg) \<and> \<not> contains_dotdot (prefix cfg)
          \<and> stat (out_dir cfg) = Inr True
          \<and> slice_spec cfg (read_bytes reads) = Some ds \<and> files w1 = add_chunks cfg ds (files w)))"
proof (cases "find is_informational (tl argv)")
  case (Some arg)
  with assms(1) show ?thesis by (auto simp: main_def Let_def split: if_splits)
next
  case None
  show ?thesis
  proof (cases "parse_args False (tl argv) default_config")
    case (Inl e)
    with None assms(1) show ?thesis by (auto simp: main_def Let_def split: prod.splits)
  next
    case (Inr cfg)
    show ?thesis
    proof (cases "check_config stat (strerror_of (sio w)) cfg")
      case (Some e)
      with None Inr assms(1) show ?thesis by (auto simp: main_def Let_def split: prod.splits)
    next
      case cc: None
      show ?thesis
      proof (cases "open_input stat open_in (strerror_of (sio w)) cfg")
        case (Inl e)
        with None Inr cc assms(1) show ?thesis by (auto simp: main_def Let_def split: prod.splits)
      next
        case inp: (Inr x)
        obtain fd b where x: "x = (fd, b)" by (cases x)
        obtain rc st w2 where ss: "stream_slice cfg reads (init_state fd b) w = (rc, st, w2)"
          by (cases "stream_slice cfg reads (init_state fd b) w")
        have res: "status = (if rc = 0 then 0 else 2)" "files w1 = files w2"
          using assms(1) None Inr cc inp x ss by (auto simp: main_def Let_def)
        have cfg: "limit_bytes cfg > 0 \<or> limit_records cfg > 0" "prefix cfg \<noteq> []"
          "CHR ''/'' \<notin> set (prefix cfg)" "\<not> contains_dotdot (prefix cfg)" "stat (out_dir cfg) = Inr True"
          using cc by (auto simp: check_config_def strchr_None split: if_splits sum.splits)
        show ?thesis
          using slice_outcome [OF ss assms(2,3)] res cfg Inr by (auto split: if_splits)
      qed
    qed
  qed
qed

text \<open>
  The input descriptor is closed twice on an error path: when reading a file given by name
  fails before the first chunk, \<open>abort_cleanup\<close> closes the descriptor and \<open>main\<close> closes its own
  copy of it again.
\<close>

theorem main_double_close:
  assumes "find is_informational (tl argv) = None"
    and "parse_args False (tl argv) default_config = Inr cfg"
    and "check_config stat (strerror_of (sio w)) cfg = None"
    and "open_input stat open_in (strerror_of (sio w)) cfg = Inr (fd, True)" and "0 \<le> fd"
    and "e \<noteq> EINTR"
  shows "\<exists>w1. main stat open_in (ReadError e # reads) argv w = (2, w1) \<and> closed w1 = closed w @ [fd, fd]"
  using assms
  by (simp add: main_def init_state_def fail_with_def abort_cleanup_def c_close_def Let_def)

section \<open>Closed examples\<close>

definition empty_world :: world where
  "empty_world = \<lparr>files = Map.empty, fds = Map.empty, next_fd = 3, open_script = [], write_script = [],
     close_script = [], unlink_script = [], closed = [], sio = clear_io\<rparr>"

definition sample_config :: SnSliceConfig where
  "sample_config = \<lparr>format = FORMAT_NDJSON, limit_bytes = 0, limit_records = 1, out_dir = ''.'',
     prefix = ''c'', input_path = None\<rparr>"

abbreviation sample_reads :: "read_answer list" where
  "sample_reads \<equiv> [ReadError EINTR, ReadData [CHR ''a'', LF, CHR ''b''], ReadData [LF]]"

lemma slice_sample_spec: "slice_spec sample_config (read_bytes sample_reads)
    = Some [[CHR ''a'', LF], [CHR ''b'', LF]]"
  by (simp add: slice_spec_def sample_config_def record_step_def full_def record_ok_def
      SNSLICE_MAX_RECORD_BYTES_def)

lemma sample_names: "names_ok sample_config (files empty_world) (length (read_bytes sample_reads))"
proof -
  have "i \<le> 4 \<Longrightarrow> length (chunk_name sample_config (i + 1)) < PATH_MAX" for i
  proof -
    assume "i \<le> 4"
    then have "dec (i + 1) = [dec_digit (i + 1)]" by (subst dec.simps) simp
    then show ?thesis by (simp add: chunk_name_def sample_config_def pad5_def PATH_MAX_def)
  qed
  then show ?thesis by (simp add: names_ok_def empty_world_def)
qed

lemma sample_world [simp]:
  "calm empty_world" "0 \<le> next_fd empty_world" "unlink_script empty_world = []"
  by (simp_all add: calm_def empty_world_def)

lemma sample_small: "length (read_bytes sample_reads) < SIZE_MAX"
  by (simp add: SIZE_MAX_def)

lemma sample_run:
  obtains st1 w1 where "stream_slice sample_config sample_reads (init_state 0 False) empty_world = (0, st1, w1)"
proof -
  have "readable sample_reads" by simp
  from slice_completes [OF sample_world(1) this sample_small sample_names] slice_sample_spec
  have "fst (stream_slice sample_config sample_reads (init_state 0 False) empty_world) = 0" by simp
  then show ?thesis
    using that by (cases "stream_slice sample_config sample_reads (init_state 0 False) empty_world") auto
qed

theorem slice_success_witness:
  "\<exists>st1 w1. stream_slice sample_config sample_reads (init_state 0 False) empty_world = (0, st1, w1)
     \<and> files w1 (chunk_name sample_config 2) = Some [CHR ''b'', LF]"
proof -
  obtain st1 w1 where r: "stream_slice sample_config sample_reads (init_state 0 False) empty_world = (0, st1, w1)"
    by (rule sample_run)
  from slice_success [OF r sample_world(2) sample_small] slice_sample_spec
  have "\<forall>i < 2. files w1 (chunk_name sample_config (i + 1)) = Some ([[CHR ''a'', LF], [CHR ''b'', LF]] ! i)"
    by auto
  from spec [OF this, of 1] have "files w1 (chunk_name sample_config 2) = Some [CHR ''b'', LF]"
    by (simp add: numeral_2_eq_2)
  with r show ?thesis by blast
qed

theorem slice_failure_witness:
  "\<exists>st1 w1. stream_slice sample_config [ReadData ''a''] (init_state 0 False) empty_world = (-1, st1, w1)
     \<and> files w1 = Map.empty"
proof -
  obtain r st1 w1 where r: "stream_slice sample_config [ReadData ''a''] (init_state 0 False) empty_world = (r, st1, w1)"
    by (cases "stream_slice sample_config [ReadData ''a''] (init_state 0 False) empty_world")
  have none: "slice_spec sample_config (read_bytes [ReadData ''a'']) = None"
    by (simp add: slice_spec_def sample_config_def record_step_def)
  have small: "length (read_bytes [ReadData ''a'']) < SIZE_MAX" by (simp add: SIZE_MAX_def)
  from slice_outcome [OF r sample_world(2) small] none have m: "r = -1" by auto
  from slice_failure [OF r [unfolded m] sample_world(2) small sample_world(3)] obtain k rs part s where
    k: "records_of (format sample_config) CSV_STATE_START [] (take k ''a'') = Some (rs, part, s)"
    "files w1 = add_chunks sample_config (fst (group_records sample_config [] 0 rs)) (files empty_world)"
    by auto
  have "rs = []" using k(1) by (cases k) (auto simp: sample_config_def record_step_def)
  with k(2) have "files w1 = Map.empty" by (simp add: empty_world_def)
  with r m show ?thesis by blast
qed

theorem chunk_runs_witness:
  "\<exists>st1 w1 gs tail. stream_slice sample_config sample_reads (init_state 0 False) empty_world = (0, st1, w1)
     \<and> cut_at_limits sample_config [[CHR ''a'', LF], [CHR ''b'', LF]] gs tail
     \<and> files w1 = add_chunks sample_config (map concat gs @ (if concat tail = [] then [] else [concat tail])) Map.empty"
proof -
  obtain st1 w1 where r: "stream_slice sample_config sample_reads (init_state 0 False) empty_world = (0, st1, w1)"
    by (rule sample_run)
  have "records_of (format sample_config) CSV_STATE_START [] (read_bytes sample_reads)
      = Some ([[CHR ''a'', LF], [CHR ''b'', LF]], [], CSV_STATE_START)"
    by (simp add: sample_config_def record_step_def)
  then have rec: "records_of (format sample_config) CSV_STATE_START [] (read_bytes sample_reads) = Some (rs, part, s)
      \<longleftrightarrow> rs = [[CHR ''a'', LF], [CHR ''b'', LF]] \<and> part = [] \<and> s = CSV_STATE_START" for rs part s by auto
  have f: "files empty_world = Map.empty" by (simp add: empty_world_def)
  from chunk_runs [OF r sample_world(2) sample_small, unfolded rec f] r show ?thesis
    by (elim exE conjE) (simp only: append_Nil2, blast)
qed

theorem slice_exact_witness:
  "fst (stream_slice sample_config sample_reads (init_state 0 False) empty_world) = 0"
proof -
  have "readable sample_reads" by simp
  from slice_exact [OF sample_world(1) this sample_small sample_names, of 0 False] slice_sample_spec
  show ?thesis by simp
qed

theorem csv_rows_witness:
  "records_of FORMAT_CSV CSV_STATE_START [] (row_text [Quoted [CHR ''x'', LF, DQ], Plain ''y''])
     = Some ([row_text [Quoted [CHR ''x'', LF, DQ], Plain ''y'']], [], CSV_STATE_START)"
  using csv_rows [of "[[Quoted [CHR ''x'', LF, DQ], Plain ''y'']]"] by simp

theorem parse_positive_size_exact_witness:
  "parse_positive_size ''12'' = Some 12 \<and> parse_positive_size ''+1'' = None"
  using parse_positive_size_exact [of "''12''"] parse_positive_size_exact [of "''+1''"]
  by (simp add: is_digit_def dec_value_def digit_value_def SIZE_MAX_def)

theorem sanitize_string_safe_witness:
  "\<exists>t. sanitize_string [CHR ''a'', DQ] 16 = Some t \<and> length t < 16 \<and> unescape t = Some [CHR ''a'', DQ]"
  using sanitize_string_safe [of 16 "[CHR ''a'', DQ]"] by auto

lemma sample_args:
  "find is_informational (tl [''snslice'', ''-r'', ''1'']) = None"
  "parse_args False (tl [''snslice'', ''-r'', ''1'', ''in'']) default_config
     = Inr (default_config\<lparr>limit_records := 1, input_path := Some ''in''\<rparr>)"
  "parse_args False (tl [''snslice'', ''-r'', ''1'']) default_config
     = Inr (default_config\<lparr>limit_records := 1\<rparr>)"
  "find is_informational (tl [''snslice'', ''-r'', ''1'', ''in'']) = None"
proof -
  have "parse_positive_size ''1'' = Some 1"
    by (simp add: parse_positive_size_def strtoull_digits_def is_digit_def dec_value_def digit_value_def
        SIZE_MAX_def)
  then show "parse_args False (tl [''snslice'', ''-r'', ''1'', ''in'']) default_config
      = Inr (default_config\<lparr>limit_records := 1, input_path := Some ''in''\<rparr>)"
    "parse_args False (tl [''snslice'', ''-r'', ''1'']) default_config
      = Inr (default_config\<lparr>limit_records := 1\<rparr>)"
    by (simp_all add: default_config_def option_with_word_def set_records_def)
qed (simp_all add: is_informational_def)

theorem snslice_main_status_witness:
  "\<exists>w1. main (\<lambda>_. Inr True) (\<lambda>_. Inl 2) [] [''snslice'', ''-r'', ''1''] empty_world = (0, w1)
     \<and> files w1 = Map.empty"
proof -
  obtain status w1 where m: "main (\<lambda>_. Inr True) (\<lambda>_. Inl 2) [] [''snslice'', ''-r'', ''1''] empty_world = (status, w1)"
    by (cases "main (\<lambda>_. Inr True) (\<lambda>_. Inl 2) [] [''snslice'', ''-r'', ''1''] empty_world")
  have "status = 0"
    using m sample_args(1,3)
    by (simp add: main_def check_config_def open_input_def default_config_def finish_stream_def
        init_state_def strchr_None)
  moreover have "length (read_bytes []) < SIZE_MAX" by (simp add: SIZE_MAX_def)
  ultimately obtain cfg ds where "slice_spec cfg (read_bytes []) = Some ds"
    "files w1 = add_chunks cfg ds (files empty_world)"
    using snslice_main_status [OF m sample_world(2)] sample_args(1) by auto
  moreover from this(1) have "ds = []"
    by (auto simp: slice_spec_def split: if_splits)
  ultimately show ?thesis using m \<open>status = 0\<close> by (simp add: empty_world_def)
qed

theorem main_double_close_witness:
  "\<exists>w1. main (\<lambda>p. Inr (p = ''.'')) (\<lambda>_. Inr 3) [ReadError 5] [''snslice'', ''-r'', ''1'', ''in''] empty_world
      = (2, w1) \<and> closed w1 = [3, 3]"
proof -
  have "check_config (\<lambda>p. Inr (p = ''.'')) (strerror_of (sio empty_world))
      (default_config\<lparr>limit_records := 1, input_path := Some ''in''\<rparr>) = None"
    by (simp add: check_config_def default_config_def strchr_None)
  moreover have "open_input (\<lambda>p. Inr (p = ''.'')) (\<lambda>_. Inr 3) (strerror_of (sio empty_world))
      (default_config\<lparr>limit_records := 1, input_path := Some ''in''\<rparr>) = Inr (3, True)"
    by (simp add: open_input_def default_config_def)
  ultimately show ?thesis
    using main_double_close [OF sample_args(4,2), where stat = "\<lambda>p. Inr (p = ''.'')" and w = empty_world
        and open_in = "\<lambda>_. Inr 3" and fd = 3 and e = 5 and reads = "[]"]
    by (auto simp: EINTR_def empty_world_def)
qed

end
