(* ===== verification/Quoting.thy ===== *)
theory Quoting
  imports Escaping Lines
begin

text \<open>
  Quoted texts and finding lines.  Several utilities print an untrusted string between double
  quotes with their own copy of the same loop, and report findings as lines of a code, a tab and
  a quoted string.  The interface \<open>quoted_printer\<close> is the loop over the bytes and the printer
  around it; the lemma of the locale says that the printer is one write of \<open>quoted\<close>.  Findings
  can be read back from the lines.
\<close>

section \<open>The text\<close>

definition quoted :: "cstr \<Rightarrow> cstr" where
  "quoted t = DQ # concat (map esc_quoted t) @ [DQ]"

locale quoted_printer =
  fixes put_bytes :: "stream \<Rightarrow> cstr \<Rightarrow> io \<Rightarrow> int \<times> io"
    and put_quoted :: "stream \<Rightarrow> cstr \<Rightarrow> io \<Rightarrow> int \<times> io"
  assumes bytes_Nil: "put_bytes st [] s = (0, s)"
    and bytes_Cons: "put_bytes st (ch # p) s =
      (case (if ch = DQ then c_write st [BSL, DQ] s
             else if ch = BSL then c_write st [BSL, BSL] s
             else if ubyte ch \<ge> 0x20 \<and> ubyte ch \<le> 0x7e then c_write st [ch] s
             else c_write st (BSL # CHR ''x'' # hex2_upper ch) s) of
        (r, s1) \<Rightarrow> if r \<noteq> 0 then (-1, s1) else put_bytes st p s1)"
    and quoted_bytes: "put_quoted st t s =
      (case c_write st [DQ] s of
        (r, s1) \<Rightarrow>
          if r \<noteq> 0 then (-1, s1)
          else (case put_bytes st t s1 of
                  (r1, s2) \<Rightarrow> if r1 \<noteq> 0 then (-1, s2) else c_write st [DQ] s2))"
begin

lemma bytes_write: "put_bytes st p s = c_write st (concat (map esc_quoted p)) s"
proof (induction p arbitrary: s)
  case (Cons ch p)
  have "(if ch = DQ then c_write st [BSL, DQ] s
      else if ch = BSL then c_write st [BSL, BSL] s
      else if ubyte ch \<ge> 0x20 \<and> ubyte ch \<le> 0x7e then c_write st [ch] s
      else c_write st (BSL # CHR ''x'' # hex2_upper ch) s) = c_write st (esc_quoted ch) s"
    by (simp add: esc_quoted_def printable_def hex_escape_def)
  then have "put_bytes st (ch # p) s =
      (case c_write st (esc_quoted ch) s of
         (r, s1) \<Rightarrow> if r \<noteq> 0 then (-1, s1) else c_write st (concat (map esc_quoted p)) s1)"
    by (simp add: bytes_Cons Cons.IH cong: if_cong)
  then show ?case by (simp add: c_write_append)
qed (simp add: bytes_Nil)

lemma quoted_write: "put_quoted st t s = c_write st (quoted t) s"
proof -
  have "put_quoted st t s =
      (case c_write st [DQ] s of
         (r, s1) \<Rightarrow> if r \<noteq> 0 then (-1, s1) else c_write st (concat (map esc_quoted t) @ [DQ]) s1)"
    by (simp add: quoted_bytes bytes_write c_write_append cong: if_cong)
  then show ?thesis by (simp add: c_write_append quoted_def)
qed

end

lemma quoted_no_control: "d \<in> set (quoted t) \<Longrightarrow> d \<noteq> LF \<and> d \<noteq> TAB"
  by (auto simp: quoted_def dest!: quoted_esc.printable_esc printable_not_control)

section \<open>Findings\<close>

definition finding_line :: "cstr \<times> cstr \<Rightarrow> cstr" where
  "finding_line f = fst f @ TAB # quoted (snd f) @ [LF]"

definition findings_text :: "(cstr \<times> cstr) list \<Rightarrow> cstr" where
  "findings_text fs = concat (map finding_line fs)"

lemma findings_text_append [simp]: "findings_text (a @ b) = findings_text a @ findings_text b"
  by (simp add: findings_text_def)

lemma findings_text_Nil [simp]: "findings_text [] = []"
  by (simp add: findings_text_def)

definition parse_finding :: "cstr \<Rightarrow> (cstr \<times> cstr) option" where
  "parse_finding line =
     (case strchr line TAB of
        None \<Rightarrow> None
      | Some i \<Rightarrow> map_option (Pair (take i line))
                    (unescape (butlast (butlast (drop (i + 2) line)))))"

definition parse_findings :: "cstr \<Rightarrow> (cstr \<times> cstr) list option" where
  "parse_findings t = those (map parse_finding (lines_of t))"

lemma parse_finding_line:
  "TAB \<notin> set code \<Longrightarrow> parse_finding (finding_line (code, path)) = Some (code, path)"
  by (simp add: parse_finding_def finding_line_def quoted_def strchr_append butlast_append
      quoted_esc.unescape_esc)

lemma finding_line_form:
  "LF \<notin> set code \<Longrightarrow> \<exists>b. finding_line (code, path) = b @ [LF] \<and> LF \<notin> set b"
  by (intro exI [of _ "code @ TAB # quoted path"])
    (auto simp: finding_line_def dest: quoted_no_control)

lemma parse_findings_text:
  assumes "\<forall>f \<in> set fs. TAB \<notin> set (fst f) \<and> LF \<notin> set (fst f)"
  shows "parse_findings (findings_text fs) = Some fs"
proof -
  have "lines_of (findings_text fs) = map finding_line fs"
    unfolding findings_text_def
    by (rule lines_of_concat) (use assms finding_line_form in \<open>force\<close>)
  moreover have "those (map parse_finding (map finding_line fs)) = Some fs"
    using assms
  proof (induction fs)
    case (Cons f fs)
    then show ?case using parse_finding_line [of "fst f" "snd f"] by simp
  qed simp
  ultimately show ?thesis by (simp add: parse_findings_def)
qed

end
