(* ===== verification/Posix.thy ===== *)
theory Posix
  imports Prelude "HOL-Library.Word"
begin

unbundle bit_operations_syntax

text \<open>
  What the utilities use of the system calls: mode words, the fields of \<open>struct stat\<close> they
  read, error numbers, and the answers of \<open>open\<close>, \<open>read\<close> and \<open>close\<close>, which a signal may
  interrupt any finite number of times before they answer.
\<close>

type_synonym mode_t = "32 word"

definition S_IFMT :: mode_t where "S_IFMT = 61440"
definition S_IFLNK :: mode_t where "S_IFLNK = 40960"
definition S_IFREG :: mode_t where "S_IFREG = 32768"
definition S_IFDIR :: mode_t where "S_IFDIR = 16384"

definition S_ISLNK :: "mode_t \<Rightarrow> bool" where "S_ISLNK m \<longleftrightarrow> m AND S_IFMT = S_IFLNK"
definition S_ISREG :: "mode_t \<Rightarrow> bool" where "S_ISREG m \<longleftrightarrow> m AND S_IFMT = S_IFREG"
definition S_ISDIR :: "mode_t \<Rightarrow> bool" where "S_ISDIR m \<longleftrightarrow> m AND S_IFMT = S_IFDIR"

definition S_IWGRP :: mode_t where "S_IWGRP = 16"
definition S_IWOTH :: mode_t where "S_IWOTH = 2"

lemma S_IS_exclusive: "S_ISDIR m \<Longrightarrow> \<not> S_ISREG m" "S_ISLNK m \<Longrightarrow> \<not> S_ISREG m" "S_ISLNK m \<Longrightarrow> \<not> S_ISDIR m"
  by (auto simp: S_ISDIR_def S_ISREG_def S_ISLNK_def S_IFDIR_def S_IFREG_def S_IFLNK_def)

lemma S_IS_samples [simp]: "S_ISDIR 16384" "S_ISREG 32768" "S_ISLNK 40960" "\<not> S_ISREG 16384" "\<not> S_ISLNK 16384"
    "\<not> S_ISDIR 32768" "\<not> S_ISLNK 32768" "\<not> S_ISDIR 40960" "\<not> S_ISREG 40960"
  by (simp_all add: S_ISDIR_def S_ISREG_def S_ISLNK_def S_IFMT_def S_IFDIR_def S_IFREG_def S_IFLNK_def)

record stat =
  st_mode :: mode_t
  st_dev :: nat
  st_ino :: nat
  st_uid :: nat

definition ENOENT :: nat where "ENOENT = 2"
definition EINTR :: nat where "EINTR = 4"
definition ENOMEM :: nat where "ENOMEM = 12"
definition EACCES :: nat where "EACCES = 13"
definition ENOTDIR :: nat where "ENOTDIR = 20"
definition EINVAL :: nat where "EINVAL = 22"
definition ELOOP :: nat where "ELOOP = 40"
definition EPERM :: nat where "EPERM = 1"
definition ESTALE :: nat where "ESTALE = 116"

definition PATH_MAX :: nat where "PATH_MAX = 4096"

text \<open>
  The answers of successive calls of \<open>read\<close> on one descriptor, and of \<open>open\<close> on one path: an
  interruption (\<open>EINTR\<close>) is followed by the answer of the call that is made again.
\<close>

datatype read_answers =
    Read_interrupted read_answers
  | Read_error nat
  | Read_bytes "char list" read_answers
  | Read_eof

datatype open_answers =
    Open_interrupted open_answers
  | Open_error nat
  | Opened read_answers "nat option"

end
