(* ===== verification/Permguard.thy ===== *)
theory Permguard
  imports Quoting Numbers Posix
begin

unbundle bit_operations_syntax

text \<open>
  \<open>src/permguard.c\<close>: one \<open>lstat\<close> for each operand, four permission hazards classified from the
  mode word, findings on stdout in the order of operands and hazards, diagnostics on stderr.
  \<open>lstat\<close> is a parameter: how the call for the \<open>i\<close>-th operand answers.  The theory shows what
  a scan writes and when its exit status can be trusted, under every fault of the streams, and
  that the findings can be read back.
\<close>

section \<open>The code\<close>

definition S_ISUID :: mode_t where "S_ISUID = 2048"
definition S_ISGID :: mode_t where "S_ISGID = 1024"

definition HAZARD_GROUP_WRITABLE :: "32 word" where "HAZARD_GROUP_WRITABLE = push_bit 0 1"
definition HAZARD_OTHER_WRITABLE :: "32 word" where "HAZARD_OTHER_WRITABLE = push_bit 1 1"
definition HAZARD_SET_USER_ID :: "32 word" where "HAZARD_SET_USER_ID = push_bit 2 1"
definition HAZARD_SET_GROUP_ID :: "32 word" where "HAZARD_SET_GROUP_ID = push_bit 3 1"

definition HAZARD_NAMES :: "cstr list" where
  "HAZARD_NAMES = [''GROUP_WRITABLE'', ''OTHER_WRITABLE'', ''SET_USER_ID'', ''SET_GROUP_ID'']"

definition USAGE_SYNOPSIS :: cstr where
  "USAGE_SYNOPSIS = ''usage: permguard [--] PATH...'' @ [LF]"

definition HELP_TEXT :: cstr where
  "HELP_TEXT = ''usage: permguard [--] PATH...'' @ [LF]
     @ ''Inspect explicitly supplied paths without following symbolic links.'' @ [LF]"

definition VERSION_TEXT :: cstr where "VERSION_TEXT = ''permguard 0.1.0'' @ [LF]"

definition fputc_checked :: "char \<Rightarrow> stream \<Rightarrow> io \<Rightarrow> int \<times> io" where
  "fputc_checked ch st s = (case c_write st [ch] s of (r, s1) \<Rightarrow> (if r = -1 then -1 else 0, s1))"

definition fputs_checked :: "cstr \<Rightarrow> stream \<Rightarrow> io \<Rightarrow> int \<times> io" where
  "fputs_checked t st s = (case c_write st t s of (r, s1) \<Rightarrow> (if r = -1 then -1 else 0, s1))"

fun put_quoted_bytes :: "stream \<Rightarrow> cstr \<Rightarrow> io \<Rightarrow> int \<times> io" where
  "put_quoted_bytes st [] s = (0, s)"
| "put_quoted_bytes st (ch # p) s =
     (case (if ch = DQ then fputs_checked [BSL, DQ] st s
            else if ch = BSL then fputs_checked [BSL, BSL] st s
            else if ubyte ch \<ge> 0x20 \<and> ubyte ch \<le> 0x7e then fputc_checked ch st s
            else c_write st (BSL # CHR ''x'' # hex2_upper ch) s) of
        (r, s1) \<Rightarrow> if r \<noteq> 0 then (-1, s1) else put_quoted_bytes st p s1)"

definition put_escaped_quoted :: "stream \<Rightarrow> cstr \<Rightarrow> io \<Rightarrow> int \<times> io" where
  "put_escaped_quoted st t s =
     (case fputc_checked DQ st s of
        (r, s1) \<Rightarrow>
          if r \<noteq> 0 then (-1, s1)
          else (case put_quoted_bytes st t s1 of
                  (r1, s2) \<Rightarrow> if r1 \<noteq> 0 then (-1, s2) else fputc_checked DQ st s2))"

definition emit_stdout_write_error :: "io \<Rightarrow> int \<times> io" where
  "emit_stdout_write_error s =
     (2, ignore_result (fputs_checked (''permguard: STDOUT_WRITE'' @ [LF]) Stderr) s)"

definition complete_stdout :: "int \<Rightarrow> io \<Rightarrow> int \<times> io" where
  "complete_stdout status s =
     (case c_fflush Stdout s of
        (r, s1) \<Rightarrow> if r \<noteq> 0 \<or> c_ferror Stdout s1 then emit_stdout_write_error s1 else (status, s1))"

definition emit_diag_reason :: "cstr \<Rightarrow> io \<Rightarrow> io" where
  "emit_diag_reason reason s = ignore_result (c_write Stderr (''permguard: '' @ reason @ [LF])) s"

definition emit_diag_reason_path :: "cstr \<Rightarrow> cstr \<Rightarrow> io \<Rightarrow> io" where
  "emit_diag_reason_path reason path s =
     ignore_result (fputc_checked LF Stderr)
       (ignore_result (put_escaped_quoted Stderr path)
         (ignore_result (c_write Stderr (''permguard: '' @ reason @ '': '')) s))"

definition emit_usage_diag :: "io \<Rightarrow> io" where
  "emit_usage_diag s = ignore_result (fputs_checked USAGE_SYNOPSIS Stderr) (emit_diag_reason ''USAGE'' s)"

definition emit_unknown_option :: "cstr \<Rightarrow> io \<Rightarrow> io" where
  "emit_unknown_option opt s =
     ignore_result (fputs_checked USAGE_SYNOPSIS Stderr) (emit_diag_reason_path ''UNKNOWN_OPTION'' opt s)"

definition handle_help :: "io \<Rightarrow> int \<times> io" where
  "handle_help s =
     (case fputs_checked HELP_TEXT Stdout s of
        (r, s1) \<Rightarrow> if r \<noteq> 0 then emit_stdout_write_error s1 else complete_stdout 0 s1)"

definition handle_version :: "io \<Rightarrow> int \<times> io" where
  "handle_version s =
     (case fputs_checked VERSION_TEXT Stdout s of
        (r, s1) \<Rightarrow> if r \<noteq> 0 then emit_stdout_write_error s1 else complete_stdout 0 s1)"

definition classify_mode :: "mode_t \<Rightarrow> 32 word" where
  "classify_mode mode =
     (let hazards = 0;
          hazards = (if mode AND S_IWGRP \<noteq> 0 then hazards OR HAZARD_GROUP_WRITABLE else hazards);
          hazards = (if mode AND S_IWOTH \<noteq> 0 then hazards OR HAZARD_OTHER_WRITABLE else hazards);
          hazards = (if mode AND S_ISUID \<noteq> 0 then hazards OR HAZARD_SET_USER_ID else hazards);
          hazards = (if mode AND S_ISGID \<noteq> 0 then hazards OR HAZARD_SET_GROUP_ID else hazards) in hazards)"

definition emit_finding :: "cstr \<Rightarrow> cstr \<Rightarrow> io \<Rightarrow> int \<times> io" where
  "emit_finding code path s =
     (case fputs_checked code Stdout s of
        (r, s1) \<Rightarrow>
          if r \<noteq> 0 then (-1, s1)
          else (case fputc_checked TAB Stdout s1 of
                  (r1, s2) \<Rightarrow>
                    if r1 \<noteq> 0 then (-1, s2)
                    else (case put_escaped_quoted Stdout path s2 of
                            (r2, s3) \<Rightarrow> if r2 \<noteq> 0 then (-1, s3) else fputc_checked LF Stdout s3)))"

text \<open>The loop of \<open>emit_findings_for_mask\<close> over the bits that are left.\<close>

fun emit_bits :: "nat list \<Rightarrow> 32 word \<Rightarrow> cstr \<Rightarrow> io \<Rightarrow> int \<times> io" where
  "emit_bits [] hazards path s = (0, s)"
| "emit_bits (b # bits) hazards path s =
     (if hazards AND push_bit b 1 = 0 then emit_bits bits hazards path s
      else (case emit_finding (HAZARD_NAMES ! b) path s of
              (r, s1) \<Rightarrow> if r \<noteq> 0 then (-1, s1) else emit_bits bits hazards path s1))"

definition emit_findings_for_mask :: "32 word \<Rightarrow> cstr \<Rightarrow> io \<Rightarrow> int \<times> io" where
  "emit_findings_for_mask hazards path s = emit_bits [0, 1, 2, 3] hazards path s"

definition emit_inspection_error :: "cstr \<Rightarrow> nat \<Rightarrow> io \<Rightarrow> io" where
  "emit_inspection_error path saved_errno s =
     (let reason = ''INSPECTION_ERROR_'' @ dec saved_errno in
      if length reason \<ge> 64 then emit_diag_reason_path ''INSPECTION_ERROR_0'' path s
      else emit_diag_reason_path reason path s)"

definition emit_lstat_failure :: "cstr \<Rightarrow> nat \<Rightarrow> io \<Rightarrow> io" where
  "emit_lstat_failure path saved_errno s =
     (if path = [] then emit_inspection_error path saved_errno s
      else if saved_errno = ENOENT then emit_diag_reason_path ''MISSING'' path s
      else if saved_errno = EACCES then emit_diag_reason_path ''INACCESSIBLE'' path s
      else emit_inspection_error path saved_errno s)"

text \<open>The loop of \<open>run_scan\<close>; \<open>None\<close> is the return through \<open>emit_stdout_write_error\<close>.\<close>

fun scan_loop ::
  "(nat \<Rightarrow> cstr \<Rightarrow> nat + mode_t) \<Rightarrow> nat \<Rightarrow> cstr list \<Rightarrow> bool \<Rightarrow> bool \<Rightarrow> io
    \<Rightarrow> (bool \<times> bool) option \<times> io" where
  "scan_loop lstat i [] any_hazard operational_error s = (Some (any_hazard, operational_error), s)"
| "scan_loop lstat i (path # paths) any_hazard operational_error s =
     (case lstat i path of
        Inl e \<Rightarrow> scan_loop lstat (i + 1) paths any_hazard True (emit_lstat_failure path e s)
      | Inr mode \<Rightarrow>
          if S_ISLNK mode
          then scan_loop lstat (i + 1) paths any_hazard True
                 (emit_diag_reason_path ''SYMBOLIC_LINK'' path s)
          else
            (let hazards = classify_mode mode in
             if hazards = 0 then scan_loop lstat (i + 1) paths any_hazard operational_error s
             else
               (case emit_findings_for_mask hazards path s of
                  (r, s1) \<Rightarrow>
                    if r \<noteq> 0 then (None, s1)
                    else scan_loop lstat (i + 1) paths True operational_error s1)))"

definition run_scan :: "(nat \<Rightarrow> cstr \<Rightarrow> nat + mode_t) \<Rightarrow> cstr list \<Rightarrow> io \<Rightarrow> int \<times> io" where
  "run_scan lstat paths s =
     (case scan_loop lstat 0 paths False False s of
        (None, s1) \<Rightarrow> emit_stdout_write_error s1
      | (Some (any_hazard, operational_error), s1) \<Rightarrow>
          if operational_error then complete_stdout 2 s1
          else complete_stdout (if any_hazard then 1 else 0) s1)"

definition run_operands ::
  "(nat \<Rightarrow> cstr \<Rightarrow> nat + mode_t) \<Rightarrow> cstr list \<Rightarrow> bool \<Rightarrow> io \<Rightarrow> int \<times> io" where
  "run_operands lstat operands end_of_options s =
     (if operands = [] then (2, emit_usage_diag s)
      else
        (case (if end_of_options then None
               else find (\<lambda>a. take 1 a = ''-'') operands) of
           Some opt \<Rightarrow> (2, emit_unknown_option opt s)
         | None \<Rightarrow> run_scan lstat operands s))"

definition main :: "(nat \<Rightarrow> cstr \<Rightarrow> nat + mode_t) \<Rightarrow> cstr list \<Rightarrow> io \<Rightarrow> int \<times> io" where
  "main lstat argv s =
     (let argc = length argv in
      if argc < 1 then (2, emit_usage_diag s)
      else if argc \<ge> 2 \<and> strcmp (argv ! 1) ''--help'' = 0 then
        (if argc \<noteq> 2 then (2, emit_usage_diag s) else handle_help s)
      else if argc \<ge> 2 \<and> strcmp (argv ! 1) ''--version'' = 0 then
        (if argc \<noteq> 2 then (2, emit_usage_diag s) else handle_version s)
      else if 1 < argc \<and> strcmp (argv ! 1) ''--'' = 0
      then run_operands lstat (drop 2 argv) True s
      else run_operands lstat (drop 1 argv) False s)"

section \<open>What a scan finds\<close>

definition mode_hazards :: "mode_t \<Rightarrow> cstr list" where
  "mode_hazards m = map snd (filter (\<lambda>(k, n). bit m k)
     [(4, ''GROUP_WRITABLE''), (1, ''OTHER_WRITABLE''), (11, ''SET_USER_ID''), (10, ''SET_GROUP_ID'')])"

definition operand_findings :: "nat + mode_t \<Rightarrow> cstr \<Rightarrow> (cstr \<times> cstr) list" where
  "operand_findings answer path =
     (case answer of
        Inl e \<Rightarrow> []
      | Inr m \<Rightarrow> if S_ISLNK m then [] else map (\<lambda>n. (n, path)) (mode_hazards m))"

definition operand_fails :: "nat + mode_t \<Rightarrow> bool" where
  "operand_fails answer = (case answer of Inl e \<Rightarrow> True | Inr m \<Rightarrow> S_ISLNK m)"

fun scan_findings :: "(nat \<Rightarrow> cstr \<Rightarrow> nat + mode_t) \<Rightarrow> nat \<Rightarrow> cstr list \<Rightarrow> (cstr \<times> cstr) list" where
  "scan_findings lstat i [] = []"
| "scan_findings lstat i (p # ps) = operand_findings (lstat i p) p @ scan_findings lstat (i + 1) ps"

fun scan_fails :: "(nat \<Rightarrow> cstr \<Rightarrow> nat + mode_t) \<Rightarrow> nat \<Rightarrow> cstr list \<Rightarrow> bool" where
  "scan_fails lstat i [] = False"
| "scan_fails lstat i (p # ps) = (operand_fails (lstat i p) \<or> scan_fails lstat (i + 1) ps)"

text \<open>The bits tested by the code, as bit positions.\<close>

lemma mode_bits:
  "m AND S_IWGRP \<noteq> 0 \<longleftrightarrow> bit m 4" "m AND S_IWOTH \<noteq> 0 \<longleftrightarrow> bit m 1"
  "m AND S_ISUID \<noteq> 0 \<longleftrightarrow> bit m 11" "m AND S_ISGID \<noteq> 0 \<longleftrightarrow> bit m 10"
  using and_exp_eq_0_iff_not_bit [of m 4] and_exp_eq_0_iff_not_bit [of m 1]
    and_exp_eq_0_iff_not_bit [of m 11] and_exp_eq_0_iff_not_bit [of m 10]
  by (simp_all add: S_IWGRP_def S_IWOTH_def S_ISUID_def S_ISGID_def)

lemma classify_bits:
  "classify_mode m AND 1 = 0 \<longleftrightarrow> \<not> bit m 4"
  "classify_mode m AND 2 = 0 \<longleftrightarrow> \<not> bit m 1"
  "classify_mode m AND 4 = 0 \<longleftrightarrow> \<not> bit m 11"
  "classify_mode m AND 8 = 0 \<longleftrightarrow> \<not> bit m 10"
  "classify_mode m = 0 \<longleftrightarrow> mode_hazards m = []"
  unfolding classify_mode_def mode_bits mode_hazards_def
  by (simp_all add: HAZARD_GROUP_WRITABLE_def HAZARD_OTHER_WRITABLE_def HAZARD_SET_USER_ID_def
      HAZARD_SET_GROUP_ID_def Let_def)

section \<open>What the code writes\<close>

lemma permguard_fputc_write [simp]: "fputc_checked ch st = c_write st [ch]"
  by (rule ext) (auto simp: fputc_checked_def split: prod.split dest: c_write_result)

lemma permguard_fputs_write [simp]: "fputs_checked t st = c_write st t"
  by (rule ext) (auto simp: fputs_checked_def split: prod.split dest: c_write_result)

interpretation permguard_quoted: quoted_printer put_quoted_bytes put_escaped_quoted
  by unfold_locales (simp_all add: put_escaped_quoted_def split: prod.split)

lemmas put_escaped_quoted_write = permguard_quoted.quoted_write

lemma emit_finding_write: "emit_finding code path s = c_write Stdout (finding_line (code, path)) s"
  unfolding emit_finding_def put_escaped_quoted_write permguard_fputc_write permguard_fputs_write c_write_append
  by (simp add: finding_line_def)

lemma emit_bits_write:
  "emit_bits bits m path s =
     c_write Stdout (findings_text (map (\<lambda>b. (HAZARD_NAMES ! b, path))
       (filter (\<lambda>b. m AND push_bit b 1 \<noteq> 0) bits))) s"
proof (induction bits arbitrary: s)
  case (Cons b bits)
  then show ?case
    by (simp add: emit_finding_write findings_text_def c_write_append cong: if_cong)
qed (simp add: findings_text_def)

lemma emit_findings_write:
  "emit_findings_for_mask (classify_mode m) path s =
     c_write Stdout (findings_text (map (\<lambda>n. (n, path)) (mode_hazards m))) s"
  by (simp add: emit_findings_for_mask_def emit_bits_write classify_bits mode_hazards_def
      HAZARD_NAMES_def numeral_2_eq_2 numeral_3_eq_3)

lemma out_diag_reason_path [simp]: "out (emit_diag_reason_path r p s) = out s"
  by (simp add: emit_diag_reason_path_def ignore_result_def put_escaped_quoted_write)
    (simp add: c_write_def Let_def)

lemma out_lstat_failure [simp]: "out (emit_lstat_failure p e s) = out s"
  by (simp add: emit_lstat_failure_def emit_inspection_error_def Let_def)

lemma scan_loop_out:
  "let fs = scan_findings lstat i paths; (r, s1) = scan_loop lstat i paths h e s in
     out s1 = put_bytes (findings_text fs) (out s)
     \<and> r = (if fits (out s) (findings_text fs)
            then Some (h \<or> fs \<noteq> [], e \<or> scan_fails lstat i paths) else None)"
proof (induction lstat i paths h e s rule: scan_loop.induct)
  case (1 lstat i h e s)
  then show ?case by (simp add: findings_text_def)
next
  case (2 lstat i path paths h e s)
  show ?case
  proof (cases "lstat i path")
    case (Inl err)
    with "2.IH"(1) [OF Inl] show ?thesis
      by (simp add: operand_findings_def operand_fails_def Let_def split: prod.splits)
  next
    case (Inr m)
    show ?thesis
    proof (cases "S_ISLNK m")
      case True
      with Inr "2.IH"(2) [OF Inr True] show ?thesis
        by (simp add: operand_findings_def operand_fails_def Let_def split: prod.splits)
    next
      case link: False
      show ?thesis
      proof (cases "classify_mode m = 0")
        case True
        with Inr link "2.IH"(3) [OF Inr link refl True] show ?thesis
          by (simp add: operand_findings_def operand_fails_def classify_bits Let_def split: prod.splits)
      next
        case False
        let ?t = "findings_text (map (\<lambda>n. (n, path)) (mode_hazards m))"
        obtain r s1 where w: "c_write Stdout ?t s = (r, s1)" by (cases "c_write Stdout ?t s")
        then have em: "emit_findings_for_mask (classify_mode m) path s = (r, s1)"
          by (simp add: emit_findings_write)
        from w have o1: "out s1 = put_bytes ?t (out s)" "r = (if fits (out s) ?t then 0 else -1)"
          using out_write [of ?t s] by simp_all
        have t: "scan_findings lstat i (path # paths)
            = map (\<lambda>n. (n, path)) (mode_hazards m) @ scan_findings lstat (i + 1) paths"
          using Inr link by (simp add: operand_findings_def)
        have ne: "mode_hazards m \<noteq> []" using False classify_bits(5) by simp
        have step: "scan_loop lstat i (path # paths) h e s =
            (if r \<noteq> 0 then (None, s1) else scan_loop lstat (i + 1) paths True e s1)"
          using Inr link False w by (simp add: emit_findings_write)
        show ?thesis
        proof (cases "r = 0")
          case True
          with "2.IH"(4) [OF Inr link refl False em [symmetric]]
          show ?thesis
            unfolding step t using True o1 Inr link ne
            by (simp add: operand_findings_def operand_fails_def fits_append
                put_bytes_append Let_def split: prod.splits if_splits)
        next
          case r: False
          then show ?thesis
            unfolding step t using o1
            by (simp add: fits_append put_bytes_append split: if_splits)
        qed
      qed
    qed
  qed
qed

section \<open>Reading the findings back\<close>

lemma hazard_names: "n \<in> set (mode_hazards m) \<Longrightarrow> TAB \<notin> set n \<and> LF \<notin> set n"
  by (auto simp: mode_hazards_def split: if_splits)

lemma scan_findings_names: "f \<in> set (scan_findings lstat i paths) \<Longrightarrow> TAB \<notin> set (fst f) \<and> LF \<notin> set (fst f)"
  by (induction lstat i paths rule: scan_findings.induct)
    (auto simp: operand_findings_def dest: hazard_names split: sum.splits if_splits)

section \<open>Properties\<close>

lemma permguard_complete_status:
  "complete_stdout n s = (status, s1) \<Longrightarrow>
     status = 2 \<or> status = n \<and> s1 = s \<and> \<not> ferr (out s) \<and> flush_errno (out s) = None"
  by (auto simp: complete_stdout_def c_fflush_def c_ferror_def emit_stdout_write_error_def
      split: option.splits if_splits prod.splits)

lemma run_scan_accepts:
  assumes "run_scan lstat paths s = (status, s1)" and "status \<noteq> 2"
  shows "\<not> scan_fails lstat 0 paths
    \<and> status = (if scan_findings lstat 0 paths = [] then 0 else 1)
    \<and> text_of Stdout s1 = text_of Stdout s @ findings_text (scan_findings lstat 0 paths)
    \<and> \<not> ferr (out s1) \<and> flush_errno (out s1) = None"
proof -
  let ?fs = "scan_findings lstat 0 paths"
  obtain r s2 where sl: "scan_loop lstat 0 paths False False s = (r, s2)"
    by (cases "scan_loop lstat 0 paths False False s")
  with scan_loop_out [of lstat 0 paths False False s] have o: "out s2 = put_bytes (findings_text ?fs) (out s)"
    and r: "r = (if fits (out s) (findings_text ?fs) then Some (?fs \<noteq> [], scan_fails lstat 0 paths) else None)"
    by (simp_all add: Let_def)
  from assms sl r have fits: "fits (out s) (findings_text ?fs)"
    by (auto simp: run_scan_def emit_stdout_write_error_def split: if_splits)
  with assms sl r have c: "\<not> scan_fails lstat 0 paths"
    "complete_stdout (if ?fs \<noteq> [] then 1 else 0) s2 = (status, s1)"
    using permguard_complete_status [of 2 s2 status s1] by (auto simp: run_scan_def split: if_splits)
  from permguard_complete_status [OF c(2)] assms(2) c(1) put_bytes_sent(1) [OF fits] o show ?thesis
    by (auto simp: text_of_def)
qed

lemma run_scan_completes:
  assumes "faultless s"
  shows "\<exists>s1. run_scan lstat paths s =
      (if scan_fails lstat 0 paths then 2 else if scan_findings lstat 0 paths = [] then 0 else 1, s1)
    \<and> text_of Stdout s1 = text_of Stdout s @ findings_text (scan_findings lstat 0 paths)"
proof -
  let ?fs = "scan_findings lstat 0 paths"
  obtain r s2 where sl: "scan_loop lstat 0 paths False False s = (r, s2)"
    by (cases "scan_loop lstat 0 paths False False s")
  have fits: "fits (out s) (findings_text ?fs)" using assms by (simp add: faultless_def quiet_def fits_def)
  with sl scan_loop_out [of lstat 0 paths False False s] have o: "out s2 = put_bytes (findings_text ?fs) (out s)"
    and r: "r = Some (?fs \<noteq> [], scan_fails lstat 0 paths)"
    by (simp_all add: Let_def)
  have "complete_stdout n s2 = (n, s2)" for n
    using assms o put_bytes_sent(1) [OF fits] put_bytes_sent(2,3) [of "findings_text ?fs" "out s"] fits
    by (simp add: complete_stdout_def c_fflush_def c_ferror_def faultless_def)
  with sl r o put_bytes_sent(1) [OF fits] show ?thesis
    by (auto simp: run_scan_def text_of_def)
qed

text \<open>
  C13. The verdict of a scan can be trusted under every write fault: a status other than 2
  means that every operand was inspected without following a symbolic link, that stdout has
  taken all findings, in the order of operands and hazards, and was flushed; the status is 1
  exactly when there is a finding.  The findings can be read back from the text.
\<close>

theorem run_scan_sound:
  assumes "run_scan lstat paths s = (status, s1)" and "status \<noteq> 2"
  shows "\<not> scan_fails lstat 0 paths
    \<and> status = (if scan_findings lstat 0 paths = [] then 0 else 1)
    \<and> (\<exists>t. text_of Stdout s1 = text_of Stdout s @ t
          \<and> parse_findings t = Some (scan_findings lstat 0 paths))
    \<and> \<not> ferr (out s1) \<and> flush_errno (out s1) = None"
  using run_scan_accepts [OF assms] parse_findings_text [of "scan_findings lstat 0 paths"]
    scan_findings_names by blast

text \<open>
  C14. Without write faults the scan reports all findings of all operands that can be inspected, even
  after operands that cannot, and the status is 2 exactly when some operand could not be
  inspected or is a symbolic link.
\<close>

theorem run_scan_exact:
  assumes "faultless s"
  shows "\<exists>s1. run_scan lstat paths s =
      (if scan_fails lstat 0 paths then 2 else if scan_findings lstat 0 paths = [] then 0 else 1, s1)
    \<and> text_of Stdout s1 = text_of Stdout s @ findings_text (scan_findings lstat 0 paths)"
  by (rule run_scan_completes [OF assms])

text \<open>
  The command line fails closed: without operands, with an informational option among
  other words, or with a word that looks like an option before \<open>--\<close>, nothing is inspected
  and nothing is written to stdout, and the status is 2.
\<close>

theorem permguard_usage:
  assumes "argv = [] \<or> length argv = 1
    \<or> (length argv > 2 \<and> (argv ! 1 = ''--help'' \<or> argv ! 1 = ''--version''))
    \<or> argv = [argv ! 0, ''--'']
    \<or> (length argv > 1 \<and> argv ! 1 \<noteq> ''--'' \<and> argv \<noteq> [argv ! 0, ''--help''] \<and> argv \<noteq> [argv ! 0, ''--version'']
        \<and> (\<exists>a \<in> set (tl argv). take 1 a = ''-''))"
  shows "\<exists>s1. main lstat argv s = (2, s1) \<and> out s1 = out s"
proof -
  have u: "out (emit_usage_diag s) = out s" "out (emit_unknown_option opt s) = out s" for opt
    by (simp_all add: emit_usage_diag_def emit_diag_reason_def emit_unknown_option_def)
  have r: "\<exists>a \<in> set ops. take 1 a = ''-'' \<Longrightarrow> \<exists>s1. run_operands lstat ops False s = (2, s1) \<and> out s1 = out s" for ops
    using u(2) by (auto simp: run_operands_def find_None_iff split: option.splits)
  from assms consider (few) "argv = [] \<or> length argv = 1
      \<or> (length argv > 2 \<and> (argv ! 1 = ''--help'' \<or> argv ! 1 = ''--version''))
      \<or> argv = [argv ! 0, ''--'']"
    | (opt) a0 a1 as where "argv = a0 # a1 # as" "a1 \<noteq> ''--''" "a1 \<noteq> ''--help''" "a1 \<noteq> ''--version''"
        "\<exists>a \<in> set (a1 # as). take 1 a = ''-''"
    by (cases argv; cases "tl argv"; cases "tl (tl argv)") auto
  then show ?thesis
  proof cases
    case few
    with u show ?thesis by (cases argv; cases "tl argv") (auto simp: main_def run_operands_def)
  next
    case opt
    then have "main lstat argv s = run_operands lstat (a1 # as) False s" by (simp add: main_def)
    with r [OF opt(5)] show ?thesis by simp
  qed
qed

section \<open>Closed examples\<close>

text \<open>A group-writable regular file, mode 0100660.\<close>

lemma sample_mode: "scan_findings (\<lambda>i p. Inr 33200) 0 [''f''] = [(''GROUP_WRITABLE'', ''f'')]"
  "\<not> scan_fails (\<lambda>i p. Inr 33200) 0 [''f'']"
proof -
  have "\<not> S_ISLNK 33200" by (simp add: S_ISLNK_def S_IFMT_def S_IFLNK_def)
  moreover have "mode_hazards 33200 = [''GROUP_WRITABLE'']"
    by (simp add: mode_hazards_def bit_numeral_word_iff)
  ultimately show "scan_findings (\<lambda>i p. Inr 33200) 0 [''f''] = [(''GROUP_WRITABLE'', ''f'')]"
    "\<not> scan_fails (\<lambda>i p. Inr 33200) 0 [''f'']"
    by (simp_all add: operand_findings_def operand_fails_def)
qed

theorem run_scan_sound_witness:
  "\<exists>s1 t. run_scan (\<lambda>i p. Inr 33200) [''f''] clear_io = (1, s1) \<and> text_of Stdout s1 = t
     \<and> parse_findings t = Some [(''GROUP_WRITABLE'', ''f'')]"
proof -
  from run_scan_completes [OF faultless_clear_io, of "\<lambda>i p. Inr 33200" "[''f'']"] sample_mode
  obtain s1 where r: "run_scan (\<lambda>i p. Inr 33200) [''f''] clear_io = (1, s1)" by auto
  have e: "text_of Stdout clear_io = []" by (simp add: text_of_def clear_io_def clear_stream_def)
  from run_scan_sound [OF r] sample_mode(1) e show ?thesis
    by (intro exI [of _ s1] exI [of _ "text_of Stdout s1"]) (auto simp: r)
qed

theorem run_scan_exact_witness:
  "\<exists>s1. run_scan (\<lambda>i p. Inl 2) [''f''] clear_io = (2, s1) \<and> text_of Stdout s1 = []"
  using run_scan_exact [OF faultless_clear_io, of "\<lambda>i p. Inl 2" "[''f'']"]
  by (auto simp: operand_fails_def operand_findings_def findings_text_def text_of_def clear_io_def
      clear_stream_def)

theorem permguard_usage_witness:
  "\<exists>s1. main (\<lambda>i p. Inr 0) [''permguard'', ''f'', ''-x''] clear_io = (2, s1) \<and> out s1 = out clear_io"
  using permguard_usage [of "[''permguard'', ''f'', ''-x'']" "\<lambda>i p. Inr 0" clear_io] by simp

end
