(* ===== verification/Sha256.thy ===== *)
theory Sha256
  imports Prelude "HOL-Library.Word"
begin

unbundle bit_operations_syntax

text \<open>
  The embedded SHA-256 of \<open>src/treehash.c\<close> on 32-bit words: the compression function, and the
  streaming interface \<open>sha256_init\<close>, \<open>sha256_update\<close>, \<open>sha256_final\<close> with its 64-byte buffer and
  64-bit byte count.  The streaming interface is shown to compute the padded block iteration
  of the whole message (\<open>sha256\<close>), however the message is cut into updates.  Bytes are
  characters.
\<close>

section \<open>The code\<close>

record SHA256_CTX =
  hstate :: "32 word list"
  hcount :: "64 word"
  buffer :: "char list"

definition K :: "32 word list" where
  "K = [1116352408, 1899447441, 3049323471, 3921009573, 961987163, 1508970993,
      2453635748, 2870763221, 3624381080, 310598401, 607225278, 1426881987,
      1925078388, 2162078206, 2614888103, 3248222580, 3835390401, 4022224774,
      264347078, 604807628, 770255983, 1249150122, 1555081692, 1996064986,
      2554220882, 2821834349, 2952996808, 3210313671, 3336571891, 3584528711,
      113926993, 338241895, 666307205, 773529912, 1294757372, 1396182291,
      1695183700, 1986661051, 2177026350, 2456956037, 2730485921, 2820302411,
      3259730800, 3345764771, 3516065817, 3600352804, 4094571909, 275423344,
      430227734, 506948616, 659060556, 883997877, 958139571, 1322822218,
      1537002063, 1747873779, 1955562222, 2024104815, 2227730452, 2361852424,
      2428436474, 2756734187, 3204031479, 3329325298]"

definition ROTR :: "32 word \<Rightarrow> nat \<Rightarrow> 32 word" where
  "ROTR x n = drop_bit n x OR push_bit (32 - n) x"

definition CH :: "32 word \<Rightarrow> 32 word \<Rightarrow> 32 word \<Rightarrow> 32 word" where
  "CH x y z = (x AND y) XOR (NOT x AND z)"

definition MAJ :: "32 word \<Rightarrow> 32 word \<Rightarrow> 32 word \<Rightarrow> 32 word" where
  "MAJ x y z = (x AND y) XOR (x AND z) XOR (y AND z)"

definition EP0 :: "32 word \<Rightarrow> 32 word" where "EP0 x = ROTR x 2 XOR ROTR x 13 XOR ROTR x 22"
definition EP1 :: "32 word \<Rightarrow> 32 word" where "EP1 x = ROTR x 6 XOR ROTR x 11 XOR ROTR x 25"
definition SIG0 :: "32 word \<Rightarrow> 32 word" where "SIG0 x = ROTR x 7 XOR ROTR x 18 XOR drop_bit 3 x"
definition SIG1 :: "32 word \<Rightarrow> 32 word" where "SIG1 x = ROTR x 17 XOR ROTR x 19 XOR drop_bit 10 x"

text \<open>The bytes of a word, most significant first, and back.\<close>

definition be32 :: "char \<Rightarrow> char \<Rightarrow> char \<Rightarrow> char \<Rightarrow> 32 word" where
  "be32 a b c d = push_bit 24 (of_char a) OR push_bit 16 (of_char b) OR push_bit 8 (of_char c) OR of_char d"

fun load_words :: "char list \<Rightarrow> 32 word list" where
  "load_words (a # b # c # d # t) = be32 a b c d # load_words t"
| "load_words _ = []"

text \<open>The second loop: \<open>m[16]\<close> to \<open>m[63]\<close>, each from the words before it.\<close>

fun expand :: "nat \<Rightarrow> 32 word list \<Rightarrow> 32 word list" where
  "expand 0 m = m"
| "expand (Suc n) m =
     (let i = length m in
      expand n (m @ [SIG1 (m ! (i - 2)) + m ! (i - 7) + SIG0 (m ! (i - 15)) + m ! (i - 16)]))"

fun rounds :: "(32 word \<times> 32 word) list \<Rightarrow> 32 word list \<Rightarrow> 32 word list" where
  "rounds ((k, w) # kws) [a, b, c, d, e, f, g, h] =
     (let t1 = h + EP1 e + CH e f g + k + w;
          t2 = EP0 a + MAJ a b c in
      rounds kws [t1 + t2, a, b, c, d + t1, e, f, g])"
| "rounds _ s = s"

text \<open>The state after one block of 64 bytes.\<close>

definition compress :: "32 word list \<Rightarrow> char list \<Rightarrow> 32 word list" where
  "compress s data = map2 (+) s (rounds (zip K (expand 48 (load_words data))) s)"

definition sha256_transform :: "SHA256_CTX \<Rightarrow> char list \<Rightarrow> SHA256_CTX" where
  "sha256_transform ctx data = ctx\<lparr>hstate := compress (hstate ctx) data\<rparr>"

definition H0 :: "32 word list" where
  "H0 = [1779033703, 3144134277, 1013904242, 2773480762, 1359893119, 2600822924, 528734635, 1541459225]"

text \<open>The buffer of an automatic variable is not initialised: \<open>garbage\<close> is what it holds.\<close>

definition sha256_init :: "char list \<Rightarrow> SHA256_CTX" where
  "sha256_init garbage = \<lparr>hstate = H0, hcount = 0, buffer = garbage\<rparr>"

text \<open>\<open>memcpy(&buffer[i], xs, length xs)\<close>.\<close>

definition copy_into :: "nat \<Rightarrow> char list \<Rightarrow> char list \<Rightarrow> char list" where
  "copy_into i xs buf = take i buf @ xs @ drop (i + length xs) buf"

text \<open>\<open>while (len >= 64)\<close>: the context and the bytes that are left.\<close>

function transform_blocks :: "SHA256_CTX \<Rightarrow> char list \<Rightarrow> SHA256_CTX \<times> char list" where
  "transform_blocks ctx p =
     (if length p \<ge> 64 then transform_blocks (sha256_transform ctx (take 64 p)) (drop 64 p)
      else (ctx, p))"
  by pat_completeness auto
termination by (relation "measure (\<lambda>(ctx, p). length p)") auto

declare transform_blocks.simps [simp del]

definition sha256_update :: "SHA256_CTX \<Rightarrow> char list \<Rightarrow> SHA256_CTX" where
  "sha256_update ctx data =
     (let buffer_idx = unat (hcount ctx mod 64);
          ctx1 = ctx\<lparr>hcount := hcount ctx + of_nat (length data)\<rparr>;
          needed = 64 - buffer_idx in
      if buffer_idx > 0 \<and> length data < needed
      then ctx1\<lparr>buffer := copy_into buffer_idx data (buffer ctx1)\<rparr>
      else
        (let (ctx2, p) =
           (if buffer_idx > 0 then
              (let ctx2 = ctx1\<lparr>buffer := copy_into buffer_idx (take needed data) (buffer ctx1)\<rparr> in
               (sha256_transform ctx2 (buffer ctx2), drop needed data))
            else (ctx1, data));
             (ctx3, q) = transform_blocks ctx2 p in
         if length q > 0 then ctx3\<lparr>buffer := copy_into 0 q (buffer ctx3)\<rparr> else ctx3))"

definition byte_at :: "64 word \<Rightarrow> nat \<Rightarrow> char" where
  "byte_at x i = char_of (unat (drop_bit ((7 - i) * 8) x AND 255))"

definition word_bytes :: "32 word \<Rightarrow> char list" where
  "word_bytes x = [char_of (unat (drop_bit 24 x AND 255)), char_of (unat (drop_bit 16 x AND 255)),
     char_of (unat (drop_bit 8 x AND 255)), char_of (unat (x AND 255))]"

definition sha256_final :: "SHA256_CTX \<Rightarrow> char list" where
  "sha256_final ctx =
     (let total_bits = hcount ctx * 8;
          buffer_idx = unat (hcount ctx mod 64);
          buf1 = copy_into buffer_idx [CHR 0x80] (buffer ctx);
          idx1 = buffer_idx + 1;
          (ctx2, buf2) =
            (if idx1 > 56 then
               (let b = copy_into idx1 (replicate (64 - idx1) NUL) buf1 in
                (sha256_transform ctx b, copy_into 0 (replicate 56 NUL) b))
             else (ctx, copy_into idx1 (replicate (56 - idx1) NUL) buf1));
          buf3 = copy_into 56 (map (byte_at total_bits) [0..<8]) buf2;
          ctx3 = sha256_transform ctx2 buf3 in
      concat (map word_bytes (hstate ctx3)))"

section \<open>The hash of a whole message\<close>

fun chunks64 :: "nat \<Rightarrow> char list \<Rightarrow> char list list" where
  "chunks64 0 p = []"
| "chunks64 (Suc n) p = take 64 p # chunks64 n (drop 64 p)"

definition pad_length :: "nat \<Rightarrow> nat" where
  "pad_length n = (if n mod 64 < 56 then 55 - n mod 64 else 119 - n mod 64)"

definition sha256_pad :: "char list \<Rightarrow> char list" where
  "sha256_pad msg = msg @ [CHR 0x80] @ replicate (pad_length (length msg)) NUL
     @ map (byte_at (of_nat (length msg) * 8)) [0..<8]"

definition hash_blocks :: "char list \<Rightarrow> 32 word list" where
  "hash_blocks p = foldl compress H0 (chunks64 (length p div 64) p)"

definition sha256 :: "char list \<Rightarrow> char list" where
  "sha256 msg = concat (map word_bytes (hash_blocks (sha256_pad msg)))"

definition sha256_digest :: "char list \<Rightarrow> char list list \<Rightarrow> char list" where
  "sha256_digest garbage parts = sha256_final (foldl sha256_update (sha256_init garbage) parts)"

lemma pad_blocks: "length (sha256_pad msg) mod 64 = 0"
proof -
  have "n + 1 + pad_length n + 8 = 64 * (n div 64) + (if n mod 64 < 56 then 64 else 128)" for n
  proof -
    have "64 * (n div 64) + n mod 64 = n" "n mod 64 < 64" by simp_all
    then show ?thesis unfolding pad_length_def by (simp only: split: if_split) linarith
  qed
  note this [of "length msg"]
  moreover have "length (sha256_pad msg) = length msg + 1 + pad_length (length msg) + 8"
    by (simp add: sha256_pad_def)
  ultimately have "length (sha256_pad msg) = 64 * (length msg div 64) + (if length msg mod 64 < 56 then 64 else 128)"
    by (simp only:)
  then show ?thesis by (simp split: if_splits)
qed

section \<open>Streaming\<close>

lemma hash_blocks_append:
  "length p mod 64 = 0 \<Longrightarrow> hash_blocks (p @ q) = foldl compress (hash_blocks p) (chunks64 (length q div 64) q)"
proof -
  have c: "length p = 64 * n \<Longrightarrow> chunks64 (n + m) (p @ q) = chunks64 n p @ chunks64 m q" for n m p
    by (induction n arbitrary: p) (simp_all add: drop_append)
  assume "length p mod 64 = 0"
  then obtain n where n: "length p = 64 * n" by (metis mod_0_imp_dvd dvdE)
  then have "length (p @ q) div 64 = n + length q div 64" "length p div 64 = n" by simp_all
  with c [OF n] show ?thesis by (simp add: hash_blocks_def)
qed

lemma hash_blocks_step:
  "length p mod 64 = 0 \<Longrightarrow> length b = 64 \<Longrightarrow> hash_blocks (p @ b) = compress (hash_blocks p) b"
  by (simp add: hash_blocks_append)

text \<open>What the context holds after the bytes \<open>msg\<close>: \<open>full\<close> are the whole blocks, \<open>part\<close> the rest.\<close>

definition ctx_ok :: "SHA256_CTX \<Rightarrow> char list \<Rightarrow> char list \<Rightarrow> bool" where
  "ctx_ok ctx full part \<longleftrightarrow> length full mod 64 = 0 \<and> length part < 64
     \<and> hstate ctx = hash_blocks full \<and> hcount ctx = of_nat (length full + length part)
     \<and> length (buffer ctx) = 64 \<and> take (length part) (buffer ctx) = part"

lemma count_mod: "unat ((of_nat n :: 64 word) mod 64) = n mod 64"
proof -
  have "(64 :: nat) dvd 2 ^ 64" by simp
  then show ?thesis by (simp add: unat_mod unat_of_nat mod_mod_cancel)
qed

lemma transform_blocks_ok:
  assumes "transform_blocks ctx p = (ctx1, q)" and "length full mod 64 = 0" and "hstate ctx = hash_blocks full"
  shows "\<exists>b. p = b @ q \<and> length b mod 64 = 0 \<and> length q < 64 \<and> hstate ctx1 = hash_blocks (full @ b)
    \<and> hcount ctx1 = hcount ctx \<and> buffer ctx1 = buffer ctx"
  using assms
proof (induction ctx p arbitrary: full rule: transform_blocks.induct)
  case (1 ctx p)
  show ?case
  proof (cases "length p \<ge> 64")
    case True
    let ?c = "sha256_transform ctx (take 64 p)" and ?f = "full @ take 64 p"
    have p1: "transform_blocks ?c (drop 64 p) = (ctx1, q)"
      using "1.prems"(1) True by (subst (asm) transform_blocks.simps) simp
    have t64: "length (take 64 p) = 64" using True by simp
    have p2: "length ?f mod 64 = 0" using "1.prems"(2) unfolding length_append t64 by simp
    have p3: "hstate ?c = hash_blocks ?f"
      unfolding hash_blocks_step [OF "1.prems"(2) t64] "1.prems"(3) [symmetric] by (simp add: sha256_transform_def)
    from "1.IH" [OF True p1 p2 p3] obtain b where b: "drop 64 p = b @ q" "length b mod 64 = 0" "length q < 64"
      "hstate ctx1 = hash_blocks (?f @ b)" "hcount ctx1 = hcount ?c" "buffer ctx1 = buffer ?c"
      by (elim exE conjE) (rule that)
    have "take 64 p @ b @ q = p"
      using append_take_drop_id [of 64 p] unfolding b(1) .
    then have "p = (take 64 p @ b) @ q" by (simp only: append.assoc)
    moreover have "length (take 64 p @ b) mod 64 = 0" using b(2) unfolding length_append t64 by simp
    moreover have "hstate ctx1 = hash_blocks (full @ (take 64 p @ b))" using b(4) by simp
    moreover have "hcount ctx1 = hcount ctx" "buffer ctx1 = buffer ctx"
      using b(5,6) by (simp_all add: sha256_transform_def)
    ultimately show ?thesis using b(3) by (intro exI [of _ "take 64 p @ b"] conjI)
  next
    case False
    with "1.prems" show ?thesis
      by (subst (asm) transform_blocks.simps) auto
  qed
qed

lemma sha256_update_ok:
  assumes "ctx_ok ctx full part"
  shows "\<exists>full1 part1. ctx_ok (sha256_update ctx data) full1 part1 \<and> full1 @ part1 = full @ part @ data"
proof -
  note ok = assms [unfolded ctx_ok_def]
  have idx: "unat (hcount ctx mod 64) = length part"
  proof -
    have "(length full + length part) mod 64 = length part"
      using ok by (metis add_0 mod_add_left_eq mod_less)
    with ok count_mod [of "length full + length part"] show ?thesis by (simp only:)
  qed
  let ?n = "length part"
  let ?c1 = "ctx\<lparr>hcount := hcount ctx + of_nat (length data)\<rparr>"
  show ?thesis
  proof (cases "?n > 0 \<and> length data < 64 - ?n")
    case True
    then have "sha256_update ctx data = ?c1\<lparr>buffer := copy_into ?n data (buffer ctx)\<rparr>"
      by (simp add: sha256_update_def idx Let_def)
    moreover have "ctx_ok (?c1\<lparr>buffer := copy_into ?n data (buffer ctx)\<rparr>) full (part @ data)"
      using ok True by (auto simp: ctx_ok_def copy_into_def)
    ultimately show ?thesis by (intro exI [of _ full] exI [of _ "part @ data"]) simp
  next
    case False
    define head where "head = (if ?n > 0 then take (64 - ?n) data else [])"
    define tail where "tail = (if ?n > 0 then drop (64 - ?n) data else data)"
    define c2 where "c2 = (if ?n > 0 then
      sha256_transform (?c1\<lparr>buffer := copy_into ?n head (buffer ctx)\<rparr>) (copy_into ?n head (buffer ctx)) else ?c1)"
    have data: "head @ tail = data" by (simp add: head_def tail_def)
    have b: "copy_into ?n head (buffer ctx) = part @ head \<and> length (part @ head) = 64" if "?n > 0"
      using that False ok by (auto simp: head_def copy_into_def)
    have full: "length (full @ part @ head) mod 64 = 0"
      using ok b by (cases "?n > 0") (auto simp: head_def)
    have cnt: "hcount c2 = hcount ?c1" by (simp add: c2_def sha256_transform_def)
    have len: "length (buffer c2) = 64"
    proof (cases "?n > 0")
      case True
      with b show ?thesis by (simp add: c2_def sha256_transform_def)
    next
      case False
      with ok show ?thesis by (simp add: c2_def)
    qed
    have st: "hstate c2 = hash_blocks (full @ part @ head)"
    proof (cases "?n > 0")
      case True
      with b have b: "copy_into ?n head (buffer ctx) = part @ head" "length (part @ head) = 64" by blast+
      have "hash_blocks (full @ part @ head) = compress (hash_blocks full) (part @ head)"
        using ok b(2) by (intro hash_blocks_step) simp_all
      with True ok show ?thesis unfolding c2_def b(1) by (simp add: sha256_transform_def)
    next
      case False
      with ok show ?thesis by (simp add: c2_def head_def)
    qed
    obtain c3 q where t: "transform_blocks c2 tail = (c3, q)" by (cases "transform_blocks c2 tail")
    from transform_blocks_ok [OF t full st] obtain bl where
      bl: "tail = bl @ q" "length bl mod 64 = 0" "length q < 64" "hstate c3 = hash_blocks ((full @ part @ head) @ bl)"
        "hcount c3 = hcount c2" "buffer c3 = buffer c2" by (elim exE conjE) (rule that)
    have upd: "sha256_update ctx data = (if length q > 0 then c3\<lparr>buffer := copy_into 0 q (buffer c3)\<rparr> else c3)"
    proof -
      have pair: "(if ?n > 0 then
          (sha256_transform (?c1\<lparr>buffer := copy_into ?n (take (64 - ?n) data) (buffer ?c1)\<rparr>)
            (buffer (?c1\<lparr>buffer := copy_into ?n (take (64 - ?n) data) (buffer ?c1)\<rparr>)), drop (64 - ?n) data)
          else (?c1, data)) = (c2, tail)"
        by (simp add: c2_def tail_def head_def)
      show ?thesis
        unfolding sha256_update_def idx Let_def if_not_P [OF False] pair prod.case t by (rule refl)
    qed
    have "length data = length head + length bl + length q" using data bl(1) by auto
    moreover have "hcount ctx = of_nat (length full + length part)" using ok by blast
    ultimately have "hcount c3 = of_nat (length (full @ part @ head @ bl) + length q)"
      using bl(5) cnt by simp
    moreover have "length (full @ part @ head @ bl) mod 64 = 0"
      using mod_add_eq [of "length (full @ part @ head)" 64 "length bl"] full bl(2) by (simp add: add.assoc)
    ultimately have "ctx_ok (sha256_update ctx data) (full @ part @ head @ bl) q"
      unfolding upd ctx_ok_def using bl(3,4,6) len by (cases q) (simp_all add: copy_into_def)
    then show ?thesis
      using bl data by (intro exI [of _ "full @ part @ head @ bl"] exI [of _ q]) auto
  qed
qed

lemma copy_into_append: "length xs = i \<Longrightarrow> copy_into i ys (xs @ zs) = xs @ ys @ drop (length ys) zs"
  by (simp add: copy_into_def)

lemma copy_into_first: "copy_into 0 ys zs = ys @ drop (length ys) zs"
  by (simp add: copy_into_def)

lemma sha256_final_ok:
  assumes "ctx_ok ctx full part"
  shows "sha256_final ctx = sha256 (full @ part)"
proof -
  note ok = assms [unfolded ctx_ok_def]
  let ?n = "length part"
  have ln: "length (full @ part) mod 64 = ?n" and n: "?n < 64"
    using ok by (simp_all, metis add_0 mod_add_left_eq mod_less)
  have idx: "unat (hcount ctx mod 64) = ?n"
    using ok count_mod [of "length full + ?n"] ln by simp
  let ?bits = "map (byte_at (hcount ctx * 8)) [0..<8]"
  have bits: "length ?bits = 8" by simp
  have tot: "of_nat (length (full @ part)) = hcount ctx" using ok by simp
  obtain rest where buf: "buffer ctx = part @ rest" and rest: "length rest = 64 - ?n"
    using ok append_take_drop_id [of ?n "buffer ctx"] by (metis length_drop)
  have buf1: "copy_into ?n [CHR 0x80] (buffer ctx) = (part @ [CHR 0x80]) @ drop 1 rest"
    by (simp add: buf copy_into_append)
  define p where "p = part @ CHR 0x80 # replicate (pad_length (length (full @ part))) NUL @ ?bits"
  have pad: "sha256_pad (full @ part) = full @ p"
    unfolding sha256_pad_def tot p_def by simp
  have "hstate (sha256_transform ctx3 b) = compress (hstate ctx3) b" for ctx3 b
    by (simp add: sha256_transform_def)
  note tr = this
  have "sha256_final ctx = concat (map word_bytes (hash_blocks (full @ p)))"
  proof (cases "?n + 1 > 56")
    case True
    define b where "b = part @ CHR 0x80 # replicate (63 - ?n) NUL"
    have b: "copy_into (?n + 1) (replicate (64 - (?n + 1)) NUL) ((part @ [CHR 0x80]) @ drop 1 rest) = b"
      by (subst copy_into_append) (simp_all add: b_def rest)
    have lb: "length b = 64" using n by (simp add: b_def)
    have buf3: "copy_into 56 ?bits (copy_into 0 (replicate 56 NUL) b) = replicate 56 NUL @ ?bits"
      unfolding copy_into_first by (subst copy_into_append) (simp_all add: lb bits)
    have "63 - ?n + 56 = pad_length (length (full @ part))"
      using True n unfolding pad_length_def ln by simp
    then have "p = b @ replicate 56 NUL @ ?bits"
      unfolding p_def b_def by (metis append.assoc append_Cons replicate_add)
    then have "full @ p = (full @ b) @ replicate 56 NUL @ ?bits" by simp
    moreover have "length (full @ b) mod 64 = 0" using ok unfolding length_append lb by simp
    moreover have "length (replicate 56 NUL @ ?bits) = 64" by simp
    moreover have "hash_blocks (full @ b) = compress (hstate ctx) b"
      using ok lb by (simp add: hash_blocks_step)
    ultimately have "hash_blocks (full @ p) = compress (compress (hstate ctx) b) (replicate 56 NUL @ ?bits)"
      by (simp only: hash_blocks_step)
    then show ?thesis
      unfolding sha256_final_def Let_def idx buf1 if_P [OF True] b prod.case buf3 tr by (simp only:)
  next
    case False
    define b where "b = part @ CHR 0x80 # replicate (55 - ?n) NUL"
    have lb: "length b = 56" using False by (simp add: b_def)
    have b: "copy_into (?n + 1) (replicate (56 - (?n + 1)) NUL) ((part @ [CHR 0x80]) @ drop 1 rest)
        = b @ drop (56 - ?n) rest"
      using False by (subst copy_into_append) (simp_all add: b_def Suc_diff_le [symmetric])
    have buf3: "copy_into 56 ?bits (b @ drop (56 - ?n) rest) = b @ ?bits"
      using rest False by (subst copy_into_append) (simp_all add: lb bits)
    have "pad_length (length (full @ part)) = 55 - ?n"
      using False unfolding pad_length_def ln by simp
    then have "p = b @ ?bits" unfolding p_def b_def by simp
    moreover have "length (b @ ?bits) = 64" by (simp add: lb)
    ultimately have "hash_blocks (full @ p) = compress (hstate ctx) (b @ ?bits)"
      using ok by (simp only: hash_blocks_step)
    then show ?thesis
      unfolding sha256_final_def Let_def idx buf1 if_not_P [OF False] b prod.case buf3 tr by (simp only:)
  qed
  then show ?thesis unfolding sha256_def pad .
qed

lemma sha256_init_ok: "length garbage = 64 \<Longrightarrow> ctx_ok (sha256_init garbage) [] []"
  by (simp add: ctx_ok_def sha256_init_def hash_blocks_def)

lemma sha256_updates_ok:
  "ctx_ok ctx full part \<Longrightarrow>
   \<exists>full1 part1. ctx_ok (foldl sha256_update ctx parts) full1 part1 \<and> full1 @ part1 = full @ part @ concat parts"
proof (induction parts arbitrary: ctx full part)
  case Nil
  then show ?case by auto
next
  case (Cons d parts)
  from sha256_update_ok [OF Cons.prems, of d] obtain f1 p1 where
    1: "ctx_ok (sha256_update ctx d) f1 p1" "f1 @ p1 = full @ part @ d" by (elim exE conjE) (rule that)
  from Cons.IH [OF 1(1)] obtain f2 p2 where
    2: "ctx_ok (foldl sha256_update (sha256_update ctx d) parts) f2 p2" "f2 @ p2 = f1 @ p1 @ concat parts"
    by (elim exE conjE) (rule that)
  have "f2 @ p2 = full @ part @ concat (d # parts)"
    unfolding 2(2) using 1(2) by (metis append.assoc concat.simps(2))
  with 2(1) show ?case by (intro exI [of _ f2] exI [of _ p2]) simp
qed

lemma sha256_digest_concat:
  assumes "length garbage = 64"
  shows "sha256_digest garbage parts = sha256 (concat parts)"
proof -
  from sha256_updates_ok [OF sha256_init_ok [OF assms], of parts] obtain full part where
    "ctx_ok (foldl sha256_update (sha256_init garbage) parts) full part" "full @ part = concat parts" by auto
  then show ?thesis unfolding sha256_digest_def using sha256_final_ok by metis
qed

end
