(* ===== verification/Sha256_Empty.thy ===== *)
theory Sha256_Empty
  imports Sha256
begin

text \<open>
  The hash of the empty message (\<open>empty_blocks\<close>, a test vector of FIPS 180-4), which
  \<open>compute_merkle_root\<close> has as a constant.  The message schedule and the states after every
  eight rounds for its one block are computed by the kernel.
\<close>

lemma expand_add: "expand (m + n) w = expand n (expand m w)"
  by (induction m arbitrary: w) (simp_all add: Let_def)

lemma rounds_length: "length s = 8 \<Longrightarrow> length (rounds kws s) = 8"
  by (induction kws s rule: rounds.induct) (simp_all add: Let_def)

lemma rounds_append: "length s = 8 \<Longrightarrow> rounds (xs @ ys) s = rounds ys (rounds xs s)"
proof (induction xs s rule: rounds.induct)
  case (1 k w kws a b c d e f g h)
  then show ?case by (simp add: Let_def)
qed (auto simp: numeral_eq_Suc length_Suc_conv)

lemma rounds_split: "length s = 8 \<Longrightarrow> rounds kws s = rounds (drop n kws) (rounds (take n kws) s)"
  using rounds_append [of s "take n kws" "drop n kws"] by simp

definition empty_schedule :: "32 word list" where
  "empty_schedule =
    [2147483648, 0, 0, 0, 0, 0, 0, 0, 0, 0, 0, 0, 0, 0, 0, 0, 2147483648, 0, 2117632, 0, 570427392,
     0, 84448578, 2147483648, 1476919296, 4235264, 1451269, 1711282176, 3592562048, 337794312,
     3594910044, 3374850048, 3287351444, 676112230, 109604294, 2742808854, 1904000662, 4274181962,
     2813755136, 2165675682, 2561075048, 62000258, 1562224585, 2975250741, 3286092305, 614207615,
     3297584367, 1575308336, 3741240933, 748767245, 1008022316, 30329261, 369937616, 195877528,
     907775968, 3526495142, 43741191, 1967544444, 133517113, 4161330627, 3704256008, 1581412744,
     1153231965, 996066459]"

lemma empty_load: "load_words (sha256_pad []) = take 16 empty_schedule"
  by code_simp

lemma empty_expand_28: "expand 12 (take 16 empty_schedule) = take 28 empty_schedule"
  by code_simp

lemma empty_expand_40: "expand 12 (take 28 empty_schedule) = take 40 empty_schedule"
  by code_simp

lemma empty_expand_52: "expand 12 (take 40 empty_schedule) = take 52 empty_schedule"
  by code_simp

lemma empty_expand_64: "expand 12 (take 52 empty_schedule) = take 64 empty_schedule"
  by code_simp

lemma empty_expand: "expand 48 (load_words (sha256_pad [])) = empty_schedule"
proof -
  have "expand (12 + (12 + (12 + 12))) (load_words (sha256_pad [])) = take 64 empty_schedule"
    unfolding expand_add empty_load empty_expand_28 empty_expand_40 empty_expand_52 empty_expand_64 ..
  moreover have "take 64 empty_schedule = empty_schedule" by (simp add: empty_schedule_def)
  ultimately show ?thesis by simp
qed

lemma empty_rounds_1: "rounds (take 8 (drop 0 (zip K empty_schedule)))
    H0
  = [2060825014, 4028650896, 690895682, 1130821424, 1408847307, 2196627567, 1332035834, 3889194014]"
  by code_simp

lemma empty_rounds_2: "rounds (take 8 (drop 8 (zip K empty_schedule)))
    [2060825014, 4028650896, 690895682, 1130821424, 1408847307, 2196627567, 1332035834, 3889194014]
  = [3019933109, 3096116699, 1170215847, 553833165, 1555621987, 483372089, 725774998, 3455974994]"
  by code_simp

lemma empty_rounds_3: "rounds (take 8 (drop 16 (zip K empty_schedule)))
    [3019933109, 3096116699, 1170215847, 553833165, 1555621987, 483372089, 725774998, 3455974994]
  = [2556161365, 1078820948, 2577845017, 1976037592, 741081741, 2976200464, 3263666206, 966081741]"
  by code_simp

lemma empty_rounds_4: "rounds (take 8 (drop 24 (zip K empty_schedule)))
    [2556161365, 1078820948, 2577845017, 1976037592, 741081741, 2976200464, 3263666206, 966081741]
  = [300352095, 2696613087, 1926471693, 1690082844, 3151463532, 1447716390, 2957685293, 2506713973]"
  by code_simp

lemma empty_rounds_5: "rounds (take 8 (drop 32 (zip K empty_schedule)))
    [300352095, 2696613087, 1926471693, 1690082844, 3151463532, 1447716390, 2957685293, 2506713973]
  = [1234768305, 2656625711, 1457773646, 2694206301, 1902882853, 2242319396, 3892832895, 4206914285]"
  by code_simp

lemma empty_rounds_6: "rounds (take 8 (drop 40 (zip K empty_schedule)))
    [1234768305, 2656625711, 1457773646, 2694206301, 1902882853, 2242319396, 3892832895, 4206914285]
  = [911881421, 1419259244, 855262251, 2752082644, 3417569515, 2322236082, 3531982457, 2855016464]"
  by code_simp

lemma empty_rounds_7: "rounds (take 8 (drop 48 (zip K empty_schedule)))
    [911881421, 1419259244, 855262251, 2752082644, 3417569515, 2322236082, 3531982457, 2855016464]
  = [23298068, 749689034, 974034039, 2981272720, 2918796810, 3850954136, 4254700398, 1134943992]"
  by code_simp

lemma empty_rounds_8: "rounds (take 8 (drop 56 (zip K empty_schedule)))
    [23298068, 749689034, 974034039, 2981272720, 2918796810, 3850954136, 4254700398, 1134943992]
  = [2040978907, 3717492111, 1586299222, 4095722474, 3600805733, 3382061760, 2232532848, 477227836]"
  by code_simp

lemma empty_rounds: "rounds (zip K empty_schedule) H0
  = [2040978907, 3717492111, 1586299222, 4095722474, 3600805733, 3382061760, 2232532848, 477227836]"
proof -
  let ?z = "zip K empty_schedule"
  have step: "rounds (drop n ?z) s = u"
    if "rounds (take 8 (drop n ?z)) s = t" "length s = 8" "m = n + 8" "rounds (drop m ?z) t = u" for n m s t u
    using rounds_split [OF that(2), of "drop n ?z" 8] that by (simp add: add.commute)
  have "rounds (drop 64 ?z) s = s" for s by (simp add: K_def)
  note e = this
  have "rounds (drop 0 ?z) H0 = [2040978907, 3717492111, 1586299222, 4095722474, 3600805733, 3382061760, 2232532848, 477227836]"
    by (rule step [OF empty_rounds_1 _ _ step [OF empty_rounds_2 _ _ step [OF empty_rounds_3 _ _ step [OF empty_rounds_4 _ _ step [OF empty_rounds_5 _ _
      step [OF empty_rounds_6 _ _ step [OF empty_rounds_7 _ _ step [OF empty_rounds_8 _ _ e]]]]]]]]) (simp_all add: H0_def)
  then show ?thesis by simp
qed

lemma empty_blocks: "hash_blocks (sha256_pad []) = [3820012610, 2566659092, 2600203464, 2574235940, 665731556, 1687917388, 2761267483, 2018687061]"
proof -
  have "compress H0 (sha256_pad []) = [3820012610, 2566659092, 2600203464, 2574235940, 665731556, 1687917388, 2761267483, 2018687061]"
    unfolding compress_def empty_expand empty_rounds by code_simp
  moreover have "length (sha256_pad []) = 64" by (simp add: sha256_pad_def pad_length_def)
  ultimately show ?thesis by (simp add: hash_blocks_def)
qed

lemma sha256_empty:
  "sha256 [] = map char_of [227, 176, 196, 66, 152, 252, 28, 20, 154, 251, 244, 200, 153, 111, 185, 36, 39,
     174, 65, 228, 100, 155, 147, 76, 164, 149, 153, 27, 120, 82, 184, 85 :: nat]"
  unfolding sha256_def empty_blocks by (simp add: word_bytes_def)

end
