(* ===== verification/Treehash_Merkle.thy ===== *)
theory Treehash_Merkle
  imports Sha256_Empty Posix Runtime
begin

text \<open>
  The Merkle reduction of \<open>src/treehash.c\<close>: leaf digests, the level-by-level pairing loop with
  its allocations, and the root in hexadecimal.  The loop is shown to compute the digest of
  one binary tree over the entries, and two trees with equal digests to be equal unless the two
  computations hash two different strings to the same value.
\<close>

section \<open>The code\<close>

record FileEntry =
  rel_path :: cstr
  hex :: cstr

definition hex_lower :: "nat \<Rightarrow> char" where
  "hex_lower d = (if d < 10 then char_of (48 + d) else char_of (87 + d))"

text \<open>\<open>%02x\<close> of each byte.\<close>

definition hex_of :: "char list \<Rightarrow> cstr" where
  "hex_of bs = concat (map (\<lambda>c. [hex_lower (ubyte c div 16), hex_lower (ubyte c mod 16)]) bs)"

definition compute_leaf_digest :: "char list \<Rightarrow> cstr \<Rightarrow> cstr \<Rightarrow> char list" where
  "compute_leaf_digest garbage file_hex path =
     (let sctx = sha256_init garbage;
          sctx = sha256_update sctx (take 64 file_hex);
          sctx = sha256_update sctx ''  '';
          sctx = sha256_update sctx path;
          sctx = sha256_update sctx [LF] in
      sha256_final sctx)"

text \<open>The inner loop, which fills \<open>next_level\<close> from \<open>current\<close>.\<close>

fun next_level :: "char list \<Rightarrow> char list list \<Rightarrow> char list list" where
  "next_level garbage (a # b # level) =
     (let sctx = sha256_init garbage;
          sctx = sha256_update sctx a;
          sctx = sha256_update sctx b in
      sha256_final sctx # next_level garbage level)"
| "next_level garbage [a] = [a]"
| "next_level garbage [] = []"

lemma length_next_level: "length (next_level garbage level) = (length level + 1) div 2"
  by (induction garbage level rule: next_level.induct) (simp_all add: Let_def)

definition out_of_memory :: "io \<Rightarrow> io" where
  "out_of_memory s = ignore_result (c_write Stderr (''treehash: OUT_OF_MEMORY'' @ [LF])) s"

text \<open>\<open>while (count > 1)\<close>: the last level, or \<open>None\<close> for the return of -1.\<close>

function reduce_levels :: "char list \<Rightarrow> char list list \<Rightarrow> io \<Rightarrow> char list list option \<times> io" where
  "reduce_levels garbage current s =
     (if length current > 1 then
        (let next_count = (length current + 1) div 2 in
         if next_count > SIZE_MAX div 32 then (None, out_of_memory s)
         else
           (case c_malloc s of
              (ok, s1) \<Rightarrow>
                if \<not> ok then (None, out_of_memory s1)
                else reduce_levels garbage (next_level garbage current) s1))
      else (Some current, s))"
  by pat_completeness auto
termination
  by (relation "measure (\<lambda>(garbage, current, s). length current)") (auto simp: length_next_level)

declare reduce_levels.simps [simp del]

text \<open>The result is the 64 characters of \<open>root_hex\<close>; \<open>None\<close> is the return of -1.\<close>

definition compute_merkle_root :: "char list \<Rightarrow> FileEntry list \<Rightarrow> io \<Rightarrow> cstr option \<times> io" where
  "compute_merkle_root garbage entries s =
     (if entries = [] then
        (Some ''e3b0c44298fc1c149afbf4c8996fb92427ae41e4649b934ca495991b7852b855'', s)
      else if length entries > SIZE_MAX div 32 then (None, out_of_memory s)
      else
        (case c_malloc s of
           (ok, s1) \<Rightarrow>
             if \<not> ok then (None, out_of_memory s1)
             else
               (case reduce_levels garbage
                       (map (\<lambda>e. compute_leaf_digest garbage (hex e) (rel_path e)) entries) s1 of
                  (None, s2) \<Rightarrow> (None, s2)
                | (Some level, s2) \<Rightarrow> (Some (hex_of (level ! 0)), s2))))"

section \<open>The tree\<close>

datatype mtree = Leaf FileEntry | Node mtree mtree

definition leaf_input :: "FileEntry \<Rightarrow> char list" where
  "leaf_input e = hex e @ ''  '' @ rel_path e @ [LF]"

primrec mdigest :: "mtree \<Rightarrow> char list" where
  "mdigest (Leaf e) = sha256 (leaf_input e)"
| "mdigest (Node l r) = sha256 (mdigest l @ mdigest r)"

primrec mleaves :: "mtree \<Rightarrow> FileEntry list" where
  "mleaves (Leaf e) = [e]"
| "mleaves (Node l r) = mleaves l @ mleaves r"

text \<open>The strings hashed in the computation of a tree's digest.\<close>

primrec minputs :: "mtree \<Rightarrow> char list list" where
  "minputs (Leaf e) = [leaf_input e]"
| "minputs (Node l r) = (mdigest l @ mdigest r) # minputs l @ minputs r"

fun pair_trees :: "mtree list \<Rightarrow> mtree list" where
  "pair_trees (a # b # ts) = Node a b # pair_trees ts"
| "pair_trees ts = ts"

lemma length_pair_trees: "length (pair_trees ts) = (length ts + 1) div 2"
  by (induction ts rule: pair_trees.induct) simp_all

function build :: "mtree list \<Rightarrow> mtree list" where
  "build ts = (if length ts > 1 then build (pair_trees ts) else ts)"
  by pat_completeness auto
termination by (relation "measure length") (auto simp: length_pair_trees)

declare build.simps [simp del]

definition merkle_tree :: "FileEntry list \<Rightarrow> mtree" where
  "merkle_tree es = hd (build (map Leaf es))"

text \<open>The root of a list of entries, and the strings that are hashed for it.\<close>

definition merkle_root :: "FileEntry list \<Rightarrow> char list" where
  "merkle_root es = (if es = [] then sha256 [] else mdigest (merkle_tree es))"

definition merkle_inputs :: "FileEntry list \<Rightarrow> char list list" where
  "merkle_inputs es = (if es = [] then [[]] else minputs (merkle_tree es))"

section \<open>The loop computes the tree\<close>

lemma pair_trees_leaves: "concat (map mleaves (pair_trees ts)) = concat (map mleaves ts)"
  by (induction ts rule: pair_trees.induct) simp_all

lemma build_single: "ts \<noteq> [] \<Longrightarrow> \<exists>t. build ts = [t] \<and> mleaves t = concat (map mleaves ts)"
proof (induction ts rule: build.induct)
  case (1 ts)
  show ?case
  proof (cases "length ts > 1")
    case True
    have "pair_trees ts \<noteq> []" using length_pair_trees [of ts] True by auto
    from "1.IH" [OF True this] True show ?thesis
      by (simp add: build.simps [of ts] pair_trees_leaves)
  next
    case False
    with "1.prems" obtain t where "ts = [t]" by (cases ts) auto
    then show ?thesis by (simp add: build.simps)
  qed
qed

lemma merkle_tree_leaves: "es \<noteq> [] \<Longrightarrow> mleaves (merkle_tree es) = es"
proof -
  assume "es \<noteq> []"
  then obtain t where "build (map Leaf es) = [t]" "mleaves t = concat (map mleaves (map Leaf es))"
    using build_single [of "map Leaf es"] by auto
  moreover have "concat (map mleaves (map Leaf es)) = es" by (induction es) simp_all
  ultimately show ?thesis by (simp add: merkle_tree_def)
qed

lemma next_level_pairs:
  assumes "length garbage = 64"
  shows "next_level garbage (map mdigest ts) = map mdigest (pair_trees ts)"
proof (induction ts rule: pair_trees.induct)
  case (1 a b ts)
  then show ?case
    using sha256_digest_concat [OF assms, of "[mdigest a, mdigest b]"]
    by (simp add: sha256_digest_def Let_def)
qed simp_all

lemma reduce_levels_build:
  assumes "length garbage = 64"
  shows "fst (reduce_levels garbage (map mdigest ts) s) = None
    \<or> fst (reduce_levels garbage (map mdigest ts) s) = Some (map mdigest (build ts))"
proof (induction ts arbitrary: s rule: build.induct)
  case (1 ts)
  show ?case
  proof (cases "length ts > 1")
    case True
    from "1.IH" [OF True] True show ?thesis
      by (auto simp: reduce_levels.simps [of _ "map mdigest ts"] build.simps [of ts] Let_def
          next_level_pairs [OF assms] split: prod.split)
  next
    case False
    then show ?thesis by (simp add: reduce_levels.simps build.simps)
  qed
qed

lemma reduce_levels_faultless:
  assumes "length garbage = 64" and "mem s = None" and "length ts \<le> SIZE_MAX div 32"
  shows "reduce_levels garbage (map mdigest ts) s = (Some (map mdigest (build ts)), s)"
  using assms(3)
proof (induction ts rule: build.induct)
  case (1 ts)
  show ?case
  proof (cases "length ts > 1")
    case True
    have "length (pair_trees ts) \<le> SIZE_MAX div 32"
      using "1.prems" True unfolding length_pair_trees by linarith
    from "1.IH" [OF True this] True this show ?thesis
      by (simp add: reduce_levels.simps [of _ "map mdigest ts"] build.simps [of ts] Let_def
          next_level_pairs [OF assms(1)] assms(2) length_pair_trees)
  next
    case False
    then show ?thesis by (simp add: reduce_levels.simps build.simps)
  qed
qed

lemma compute_leaf_digest_sha256:
  assumes "length garbage = 64" and "length (hex e) = 64"
  shows "compute_leaf_digest garbage (hex e) (rel_path e) = mdigest (Leaf e)"
  using sha256_digest_concat [OF assms(1), of "[hex e, ''  '', rel_path e, [LF]]"] assms(2)
  by (simp add: compute_leaf_digest_def sha256_digest_def leaf_input_def Let_def)

lemma hex_empty: "hex_of (sha256 []) = ''e3b0c44298fc1c149afbf4c8996fb92427ae41e4649b934ca495991b7852b855''"
  unfolding sha256_empty by (simp add: hex_of_def hex_lower_def char_of_eq_iff)

definition wf_entries :: "FileEntry list \<Rightarrow> bool" where
  "wf_entries es \<longleftrightarrow> (\<forall>e \<in> set es. length (hex e) = 64)"

lemma leaf_level:
  assumes "length garbage = 64" and "wf_entries es"
  shows "map (\<lambda>e. compute_leaf_digest garbage (hex e) (rel_path e)) es = map mdigest (map Leaf es)"
  using assms compute_leaf_digest_sha256 [OF assms(1)] by (auto simp: wf_entries_def)

lemma compute_merkle_root_ok:
  assumes "length garbage = 64" and "wf_entries es" and "compute_merkle_root garbage es s = (Some root, s1)"
  shows "root = hex_of (merkle_root es)"
proof (cases "es = []")
  case True
  then show ?thesis using assms(3) unfolding merkle_root_def by (simp add: compute_merkle_root_def hex_empty)
next
  case False
  obtain ok s2 where m: "c_malloc s = (ok, s2)" by fastforce
  obtain l s3 where r: "reduce_levels garbage (map mdigest (map Leaf es)) s2 = (l, s3)" by fastforce
  from assms(3) False m r obtain level where l: "l = Some level" and root: "root = hex_of (level ! 0)"
    unfolding compute_merkle_root_def leaf_level [OF assms(1,2)] by (auto split: if_splits option.splits)
  from r reduce_levels_build [OF assms(1), of "map Leaf es" s2]
  have "level = map mdigest (build (map Leaf es))" using l by simp
  with root False build_single [of "map Leaf es"] show ?thesis
    by (auto simp: merkle_root_def merkle_tree_def)
qed

lemma compute_merkle_root_faultless:
  assumes "length garbage = 64" and "wf_entries es" and "mem s = None" and "length es \<le> SIZE_MAX div 32"
  shows "compute_merkle_root garbage es s = (Some (hex_of (merkle_root es)), s)"
proof (cases "es = []")
  case True
  then show ?thesis unfolding merkle_root_def by (simp add: compute_merkle_root_def hex_empty)
next
  case False
  have "compute_merkle_root garbage es s =
      (case reduce_levels garbage (map mdigest (map Leaf es)) s of
         (None, s2) \<Rightarrow> (None, s2) | (Some level, s2) \<Rightarrow> (Some (hex_of (level ! 0)), s2))"
    unfolding compute_merkle_root_def leaf_level [OF assms(1,2)] using False assms(3,4) by simp
  also have "\<dots> = (Some (hex_of (map mdigest (build (map Leaf es)) ! 0)), s)"
    unfolding reduce_levels_faultless [OF assms(1,3), of "map Leaf es", unfolded length_map, OF assms(4)] by simp
  finally show ?thesis
    using False build_single [of "map Leaf es"] by (auto simp: merkle_root_def merkle_tree_def)
qed

section \<open>Equal roots\<close>

lemma length_concat_word_bytes: "length (concat (map word_bytes ws)) = 4 * length ws"
  by (induction ws) (simp_all add: word_bytes_def)

lemma length_compress: "length s = 8 \<Longrightarrow> length (compress s b) = 8"
  by (simp add: compress_def rounds_length)

lemma length_sha256: "length (sha256 msg) = 32"
proof -
  have "length s = 8 \<Longrightarrow> length (foldl compress s bs) = 8" for s bs
    by (induction bs arbitrary: s) (simp_all add: length_compress)
  then have "length (hash_blocks p) = 8" for p by (simp add: hash_blocks_def H0_def)
  then show ?thesis by (simp add: sha256_def length_concat_word_bytes)
qed

lemma length_mdigest: "length (mdigest t) = 32"
  by (cases t) (simp_all add: length_sha256)

definition wf_tree :: "mtree \<Rightarrow> bool" where
  "wf_tree t \<longleftrightarrow> wf_entries (mleaves t)"

lemma wf_tree_simps [simp]:
  "wf_tree (Leaf e) \<longleftrightarrow> length (hex e) = 64" "wf_tree (Node l r) \<longleftrightarrow> wf_tree l \<and> wf_tree r"
  by (auto simp: wf_tree_def wf_entries_def)

text \<open>Two different strings among those hashed that have the same hash.\<close>

definition collision :: "char list list \<Rightarrow> char list list \<Rightarrow> bool" where
  "collision xs ys \<longleftrightarrow> (\<exists>x \<in> set xs. \<exists>y \<in> set ys. x \<noteq> y \<and> sha256 x = sha256 y)"

lemma collisionI: "x \<in> set xs \<Longrightarrow> y \<in> set ys \<Longrightarrow> sha256 x = sha256 y \<Longrightarrow> \<not> collision xs ys \<Longrightarrow> x = y"
  by (auto simp: collision_def)

lemma collision_mono: "\<not> collision xs ys \<Longrightarrow> set xs1 \<subseteq> set xs \<Longrightarrow> set ys1 \<subseteq> set ys \<Longrightarrow> \<not> collision xs1 ys1"
  by (auto simp: collision_def)

lemma length_leaf_input: "length (hex e) = 64 \<Longrightarrow> length (leaf_input e) \<ge> 67"
  by (simp add: leaf_input_def)

lemma leaf_input_inject:
  assumes "length (hex e) = 64" and "length (hex f) = 64" and "leaf_input e = leaf_input f"
  shows "(e :: FileEntry) = f"
  using assms by (cases e; cases f) (simp add: leaf_input_def)

lemma mdigest_inject:
  assumes "mdigest t = mdigest u" and "wf_tree t" and "wf_tree u" and "\<not> collision (minputs t) (minputs u)"
  shows "t = u"
  using assms
proof (induction t arbitrary: u)
  case (Leaf e)
  show ?case
  proof (cases u)
    case (Leaf f)
    have "leaf_input e = leaf_input f"
      using Leaf.prems(1) by - (rule collisionI [OF _ _ _ Leaf.prems(4)]; simp add: Leaf)
    moreover have "length (hex e) = 64" "length (hex f) = 64" using Leaf Leaf.prems(2,3) by simp_all
    ultimately have "e = f" by (intro leaf_input_inject)
    then show ?thesis by (simp only: Leaf)
  next
    case (Node l r)
    have "leaf_input e = mdigest l @ mdigest r"
      using Leaf.prems(1) by - (rule collisionI [OF _ _ _ Leaf.prems(4)]; simp add: Node)
    then have "length (leaf_input e) = 64" by (simp add: length_mdigest)
    with Leaf.prems(2) length_leaf_input [of e] show ?thesis by simp
  qed
next
  case (Node l r)
  show ?case
  proof (cases u)
    case (Leaf f)
    have "mdigest l @ mdigest r = leaf_input f"
      using Node.prems(1) by - (rule collisionI [OF _ _ _ Node.prems(4)]; simp add: Leaf)
    then have "length (leaf_input f) = length (mdigest l @ mdigest r)" by simp
    with Leaf Node.prems(3) length_leaf_input [of f] show ?thesis by (simp add: length_mdigest)
  next
    case u: (Node l1 r1)
    have "mdigest l @ mdigest r = mdigest l1 @ mdigest r1"
      using Node.prems(1) by - (rule collisionI [OF _ _ _ Node.prems(4)]; simp add: u)
    then have "mdigest l = mdigest l1" "mdigest r = mdigest r1" by (simp_all add: length_mdigest)
    moreover have "\<not> collision (minputs l) (minputs l1)" "\<not> collision (minputs r) (minputs r1)"
      by (rule collision_mono [OF Node.prems(4)]; auto simp: u)+
    ultimately show ?thesis using u Node.IH Node.prems by simp
  qed
qed

lemma merkle_root_inject:
  assumes "merkle_root es = merkle_root fs" and "wf_entries es" and "wf_entries fs"
    and "\<not> collision (merkle_inputs es) (merkle_inputs fs)"
  shows "es = fs"
proof -
  have input: "\<exists>x \<in> set (merkle_inputs gs). x \<noteq> [] \<and> merkle_root gs = sha256 x" if "gs \<noteq> []" for gs
  proof (cases "merkle_tree gs")
    case (Leaf e)
    with that show ?thesis by (simp add: merkle_root_def merkle_inputs_def leaf_input_def)
  next
    case (Node l r)
    have "mdigest l @ mdigest r \<noteq> []" using length_mdigest [of l] by auto
    with Node that show ?thesis by (simp add: merkle_root_def merkle_inputs_def)
  qed
  show ?thesis
  proof (cases "es = [] \<or> fs = []")
    case True
    then show ?thesis
    proof (rule disjE)
      assume "es = []"
      then show ?thesis
        using assms(1,4) input [of fs] by (auto simp: merkle_root_def merkle_inputs_def collision_def split: if_splits)
    next
      assume "fs = []"
      then show ?thesis
        using assms(1,4) input [of es] by (auto simp: merkle_root_def merkle_inputs_def collision_def split: if_splits)
    qed
  next
    case False
    then have "merkle_tree es = merkle_tree fs"
      using assms by (intro mdigest_inject)
        (simp_all add: merkle_root_def merkle_inputs_def wf_tree_def merkle_tree_leaves)
    with False merkle_tree_leaves [of es] merkle_tree_leaves [of fs] show ?thesis by metis
  qed
qed

lemma ubyte_hex_lower: "d < 16 \<Longrightarrow> ubyte (hex_lower d) = (if d < 10 then 48 + d else 87 + d)"
  by (simp add: hex_lower_def)

lemma hex_lower_inject: "d < 16 \<Longrightarrow> e < 16 \<Longrightarrow> hex_lower d = hex_lower e \<longleftrightarrow> d = e"
  unfolding ubyte_inject [symmetric] by (simp add: ubyte_hex_lower)

lemma hex_of_inject: "hex_of a = hex_of b \<longleftrightarrow> a = b"
proof (induction a arbitrary: b)
  case Nil
  then show ?case by (cases b) (simp_all add: hex_of_def)
next
  case (Cons c a)
  show ?case
  proof (cases b)
    case (Cons d b1)
    have "ubyte c div 16 = ubyte d div 16 \<and> ubyte c mod 16 = ubyte d mod 16 \<longleftrightarrow> c = d"
      by (metis div_mult_mod_eq ubyte_inject)
    with Cons Cons.IH [of b1] show ?thesis
      by (simp add: hex_of_def hex_lower_inject less_mult_imp_div_less) blast
  qed (simp add: hex_of_def)
qed

end
