(* ===== verification/Treehash_Ignore.thy ===== *)
theory Treehash_Ignore
  imports Posix Lines Runtime Escaping
begin

text \<open>
  The ignore rules of \<open>src/treehash.c\<close>: reading a \<open>.gitignore\<close> line by line into the rule
  array, matching one rule, the verdict of the whole array, and removing the rules of a
  directory when the walk leaves it.  \<open>fnmatch\<close> is a parameter.  Sizes of structures are those
  of a 64-bit machine.
\<close>

section \<open>The code\<close>

record IgnoreRule =
  pattern :: cstr
  dir_rel :: cstr
  depth :: nat
  is_negated :: bool
  is_dir_only :: bool
  is_anchored :: bool

record IgnoreRuleArray =
  rule_items :: "IgnoreRule list"
  rule_capacity :: nat

text \<open>
  The growth check that \<open>add_file_entry\<close> and \<open>add_ignore_rule\<close> share: the new capacity, or
  \<open>None\<close> when the array cannot grow.
\<close>

definition grow_array :: "nat \<Rightarrow> nat \<Rightarrow> nat \<Rightarrow> nat \<Rightarrow> io \<Rightarrow> nat option \<times> io" where
  "grow_array first elem_size used capacity s =
     (if used \<ge> capacity then
        (let new_cap = (if capacity = 0 then first else size_times capacity 2) in
         if new_cap \<le> capacity \<or> new_cap > SIZE_MAX div elem_size then (None, s)
         else (case c_malloc s of (ok, s1) \<Rightarrow> if \<not> ok then (None, s1) else (Some new_cap, s1)))
      else (Some capacity, s))"

definition sizeof_IgnoreRule :: nat where "sizeof_IgnoreRule = 24"

definition add_ignore_rule ::
  "IgnoreRuleArray \<Rightarrow> cstr \<Rightarrow> cstr \<Rightarrow> nat \<Rightarrow> bool \<Rightarrow> bool \<Rightarrow> bool \<Rightarrow> io \<Rightarrow> int \<times> IgnoreRuleArray \<times> io" where
  "add_ignore_rule arr pat dir d negated dir_only anchored s =
     (case grow_array 32 sizeof_IgnoreRule (length (rule_items arr)) (rule_capacity arr) s of
        (None, s1) \<Rightarrow> (-1, arr, s1)
      | (Some cap, s1) \<Rightarrow>
          (let arr1 = arr\<lparr>rule_capacity := cap\<rparr> in
           case c_malloc s1 of
             (ok, s2) \<Rightarrow>
               if \<not> ok then (-1, arr1, s2)
               else
                 (case c_malloc s2 of
                    (ok1, s3) \<Rightarrow>
                      if \<not> ok1 then (-1, arr1, s3)
                      else (0, arr1\<lparr>rule_items := rule_items arr1 @
                        [\<lparr>pattern = pat, dir_rel = dir, depth = d, is_negated = negated,
                          is_dir_only = dir_only, is_anchored = anchored\<rparr>]\<rparr>, s3))))"

text \<open>\<open>pop_rules\<close>: the loop drops rules from the end while they have the given depth.\<close>

definition pop_rules :: "IgnoreRuleArray \<Rightarrow> nat \<Rightarrow> IgnoreRuleArray" where
  "pop_rules arr d =
     arr\<lparr>rule_items := rev (dropWhile (\<lambda>r. depth r = d) (rev (rule_items arr)))\<rparr>"

text \<open>The bytes the first loop of \<open>load_gitignore\<close> removes from the end of a line.\<close>

definition strip_end :: "char list \<Rightarrow> char list" where
  "strip_end line = rev (dropWhile (\<lambda>c. c = CR \<or> c = LF \<or> c = SP \<or> c = TAB) (rev line))"

text \<open>
  The rule in one line: pattern, negated, directories only, anchored; \<open>None\<close> is a line without
  a rule.  The line is a buffer that is read as a C string after it is stripped.
\<close>

definition rule_of_pattern :: "bool \<Rightarrow> cstr \<Rightarrow> (cstr \<times> bool \<times> bool \<times> bool) option" where
  "rule_of_pattern negated pat =
     (let dir_only = (last pat = CHR ''/'');
          pat_copy = (if dir_only then butlast pat else pat) in
      if pat_copy = [] then None
      else if hd pat_copy = CHR ''/'' then Some (tl pat_copy, negated, dir_only, True)
      else Some (pat_copy, negated, dir_only, strchr pat_copy CHR ''/'' \<noteq> None))"

definition line_pattern :: "char list \<Rightarrow> (bool \<times> cstr) option" where
  "line_pattern raw =
     (let line = cstr_of (strip_end raw);
          trimmed = dropWhile (\<lambda>c. c = SP \<or> c = TAB) line in
      if trimmed = [] \<or> hd trimmed = CHR ''#'' then None
      else
        (let negated = (hd line = CHR ''!'');
             pat = (if negated then tl line else line) in
         if pat = [] then None else Some (negated, pat)))"

text \<open>The loop over the lines that \<open>getline\<close> returns: 0, or -1 when memory runs out.\<close>

fun load_lines ::
  "cstr \<Rightarrow> nat \<Rightarrow> char list list \<Rightarrow> IgnoreRuleArray \<Rightarrow> io \<Rightarrow> int \<times> IgnoreRuleArray \<times> io" where
  "load_lines rel_dir d [] arr s = (0, arr, s)"
| "load_lines rel_dir d (raw # lines) arr s =
     (case line_pattern raw of
        None \<Rightarrow> load_lines rel_dir d lines arr s
      | Some (negated, pat) \<Rightarrow>
          (case c_malloc s of
             (ok, s1) \<Rightarrow>
               if \<not> ok then (-1, arr, ignore_result (c_write Stderr (''treehash: OUT_OF_MEMORY'' @ [LF])) s1)
               else
                 (case rule_of_pattern negated pat of
                    None \<Rightarrow> load_lines rel_dir d lines arr s1
                  | Some (final_pat, negated, dir_only, anchored) \<Rightarrow>
                      (case add_ignore_rule arr final_pat rel_dir d negated dir_only anchored s1 of
                         (r, arr1, s2) \<Rightarrow>
                           if r \<noteq> 0
                           then (-1, arr1, ignore_result (c_write Stderr (''treehash: OUT_OF_MEMORY'' @ [LF])) s2)
                           else load_lines rel_dir d lines arr1 s2))))"

text \<open>\<open>print_sanitized\<close>, \<open>print_diag_path\<close>, and the error text that follows them.\<close>

definition print_sanitized :: "stream \<Rightarrow> cstr \<Rightarrow> io \<Rightarrow> io" where
  "print_sanitized st str s =
     foldl (\<lambda>s c. ignore_result (c_write st
       (if ubyte c < 0x20 \<or> ubyte c > 0x7E \<or> c = BSL \<or> c = DQ then BSL # CHR ''x'' # hex2_upper c else [c])) s) s str"

definition print_diag_path :: "cstr \<Rightarrow> cstr \<Rightarrow> cstr \<Rightarrow> io \<Rightarrow> io" where
  "print_diag_path prefix path suffix s =
     ignore_result (c_write Stderr suffix) (print_sanitized Stderr path (ignore_result (c_write Stderr prefix) s))"

definition print_errno :: "io \<Rightarrow> io" where
  "print_errno s =
     ignore_result (c_write Stderr [LF]) (ignore_result (c_write Stderr (strerror_of s (errno s))) s)"

text \<open>
  \<open>fopen\<close> of the file answers with an error number, or with the bytes that \<open>getline\<close> delivers
  before it returns -1, at the end of the file or at a read error alike.
\<close>

definition load_gitignore ::
  "(cstr \<Rightarrow> nat + char list) \<Rightarrow> cstr \<Rightarrow> cstr \<Rightarrow> nat \<Rightarrow> IgnoreRuleArray \<Rightarrow> io \<Rightarrow> int \<times> IgnoreRuleArray \<times> io" where
  "load_gitignore fopen gitignore_path rel_dir d arr s =
     (case fopen gitignore_path of
        Inl e \<Rightarrow>
          (let s = s\<lparr>errno := e\<rparr> in
           if errno s = ENOENT then (0, arr, s)
           else (2, arr, print_errno (print_diag_path (''treehash: cannot open '' @ [SQ]) gitignore_path (SQ # '': '') s)))
      | Inr bytes \<Rightarrow> load_lines rel_dir d (lines_of bytes) arr s)"

definition FNM_PATHNAME :: nat where "FNM_PATHNAME = 1"

text \<open>The tail of \<open>match_rule\<close>, from the path below the rule's directory.\<close>

definition base_name :: "cstr \<Rightarrow> cstr" where
  "base_name rel = rev (takeWhile (\<lambda>c. c \<noteq> CHR ''/'') (rev rel))"

definition match_below :: "(cstr \<Rightarrow> cstr \<Rightarrow> nat \<Rightarrow> int) \<Rightarrow> IgnoreRule \<Rightarrow> cstr \<Rightarrow> bool" where
  "match_below fnmatch r rel =
     (if rel = [] then False
      else if is_anchored r then fnmatch (pattern r) rel FNM_PATHNAME = 0
      else if fnmatch (pattern r) (base_name rel) 0 = 0 then True
      else fnmatch (pattern r) rel FNM_PATHNAME = 0)"

definition match_rule :: "(cstr \<Rightarrow> cstr \<Rightarrow> nat \<Rightarrow> int) \<Rightarrow> IgnoreRule \<Rightarrow> cstr \<Rightarrow> bool \<Rightarrow> bool" where
  "match_rule fnmatch r cand_path cand_is_dir =
     (if is_dir_only r \<and> \<not> cand_is_dir then False
      else if dir_rel r \<noteq> [] then
        (let dlen = length (dir_rel r) in
         if take dlen cand_path \<noteq> dir_rel r then False
         else if dlen < length cand_path \<and> cand_path ! dlen \<noteq> CHR ''/'' then False
         else match_below fnmatch r (drop (dlen + 1) cand_path))
      else match_below fnmatch r cand_path)"

text \<open>The loop of \<open>is_path_ignored\<close>.\<close>

definition is_path_ignored ::
  "(cstr \<Rightarrow> cstr \<Rightarrow> nat \<Rightarrow> int) \<Rightarrow> IgnoreRule list \<Rightarrow> cstr \<Rightarrow> bool \<Rightarrow> bool" where
  "is_path_ignored fnmatch rules cand_path cand_is_dir =
     foldl (\<lambda>ignored r. if match_rule fnmatch r cand_path cand_is_dir then \<not> is_negated r else ignored) False rules"

section \<open>What a file of rules adds\<close>

definition line_rule :: "cstr \<Rightarrow> nat \<Rightarrow> char list \<Rightarrow> IgnoreRule option" where
  "line_rule rel_dir d raw =
     (case line_pattern raw of
        None \<Rightarrow> None
      | Some (negated, pat) \<Rightarrow>
          map_option (\<lambda>(p, n, o1, a). \<lparr>pattern = p, dir_rel = rel_dir, depth = d, is_negated = n,
              is_dir_only = o1, is_anchored = a\<rparr>) (rule_of_pattern negated pat))"

definition file_rules :: "cstr \<Rightarrow> nat \<Rightarrow> char list \<Rightarrow> IgnoreRule list" where
  "file_rules rel_dir d bytes = List.map_filter (line_rule rel_dir d) (lines_of bytes)"

text \<open>The array never holds more rules than were allocated for it.\<close>

definition rules_fit :: "IgnoreRuleArray \<Rightarrow> bool" where
  "rules_fit arr \<longleftrightarrow> length (rule_items arr) \<le> rule_capacity arr"

text \<open>What an operation that only writes diagnostics leaves alone.\<close>

definition out_kept :: "io \<Rightarrow> io \<Rightarrow> bool" where
  "out_kept s s1 \<longleftrightarrow> out s1 = out s"

lemma out_kept_simps [simp]: "out_kept s s" "out_kept s (s1\<lparr>errno := e\<rparr>) \<longleftrightarrow> out_kept s s1"
  "out_kept s (ignore_result (c_write Stderr t) s1) \<longleftrightarrow> out_kept s s1"
  by (simp_all add: out_kept_def)

lemma out_kept_trans: "out_kept s s1 \<Longrightarrow> out_kept s1 s2 \<Longrightarrow> out_kept s s2"
  by (simp add: out_kept_def)

lemma out_kept_malloc: "c_malloc s = (ok, s1) \<Longrightarrow> out_kept s s1"
  by (auto simp: out_kept_def dest: c_malloc_frame)

lemma out_kept_sanitized [simp]: "out_kept s (print_sanitized Stderr str s1) \<longleftrightarrow> out_kept s s1"
  unfolding print_sanitized_def by (induction str arbitrary: s1) simp_all

lemma out_kept_diag [simp]: "out_kept s (print_diag_path p q r s1) \<longleftrightarrow> out_kept s s1"
  by (simp add: print_diag_path_def)

lemma out_kept_errno [simp]: "out_kept s (print_errno s1) \<longleftrightarrow> out_kept s s1"
  by (simp add: print_errno_def)

lemma grow_array_ok:
  assumes "grow_array first n used cap s = (r, s1)" and "used \<le> cap" and "first > 0"
  shows "out_kept s s1 \<and> (\<forall>c. r = Some c \<longrightarrow> used < c)"
  using assms
  by (auto simp: grow_array_def Let_def split: if_splits prod.splits dest: out_kept_malloc)

lemma add_ignore_rule_ok:
  assumes "add_ignore_rule arr p rd d n o1 a s = (r, arr1, s1)" and "rules_fit arr"
  shows "out_kept s s1 \<and> rules_fit arr1 \<and> (r = 0 \<or> r = -1)
    \<and> (r = 0 \<longrightarrow> rule_items arr1 = rule_items arr @
          [\<lparr>pattern = p, dir_rel = rd, depth = d, is_negated = n, is_dir_only = o1, is_anchored = a\<rparr>])"
proof -
  obtain g s2 where g: "grow_array 32 sizeof_IgnoreRule (length (rule_items arr)) (rule_capacity arr) s = (g, s2)"
    by fastforce
  from grow_array_ok [OF this] assms(2) have k: "out_kept s s2" "\<And>c. g = Some c \<Longrightarrow> length (rule_items arr) < c"
    by (auto simp: rules_fit_def)
  show ?thesis
  proof (cases g)
    case None
    with assms g k show ?thesis by (auto simp: add_ignore_rule_def)
  next
    case (Some c)
    obtain b1 s3 where 3: "c_malloc s2 = (b1, s3)" by fastforce
    obtain b2 s4 where 4: "c_malloc s3 = (b2, s4)" by fastforce
    from k(1) out_kept_malloc [OF 3] out_kept_malloc [OF 4] have "out_kept s s3" "out_kept s s4"
      by (blast intro: out_kept_trans)+
    with assms g Some k(2) [OF Some] 3 4 show ?thesis
      by (auto simp: add_ignore_rule_def rules_fit_def Let_def split: if_splits)
  qed
qed

lemma load_lines_ok:
  assumes "load_lines rd d lines arr s = (r, arr1, s1)" and "rules_fit arr"
  shows "out_kept s s1 \<and> rules_fit arr1 \<and> (r = 0 \<or> r = -1)
    \<and> (r = 0 \<longrightarrow> rule_items arr1 = rule_items arr @ List.map_filter (line_rule rd d) lines)"
  using assms
proof (induction lines arbitrary: arr s)
  case (Cons raw lines)
  show ?case
  proof (cases "line_pattern raw")
    case None
    then have "line_rule rd d raw = None" by (simp add: line_rule_def)
    with Cons.IH [of arr s] Cons.prems None show ?thesis by (simp add: map_filter_simps)
  next
    case (Some np)
    obtain negated pat where np: "np = (negated, pat)" by fastforce
    obtain ok s2 where m: "c_malloc s = (ok, s2)" by fastforce
    note k = out_kept_malloc [OF m]
    show ?thesis
    proof (cases "ok \<and> rule_of_pattern negated pat = None")
      case True
      then have "line_rule rd d raw = None" using Some np by (simp add: line_rule_def)
      with Cons.IH [of arr s2] Cons.prems Some np m True out_kept_trans [OF k] show ?thesis
        by (auto simp: map_filter_simps)
    next
      case False
      show ?thesis
      proof (cases ok)
        case True
        with False obtain f n o1 a where ru: "rule_of_pattern negated pat = Some (f, n, o1, a)"
          by (cases "rule_of_pattern negated pat") auto
        obtain r2 arr2 s3 where ad: "add_ignore_rule arr f rd d n o1 a s2 = (r2, arr2, s3)"
          by (cases "add_ignore_rule arr f rd d n o1 a s2") auto
        from add_ignore_rule_ok [OF this Cons.prems(2)] k have a2: "out_kept s s3" "rules_fit arr2"
          "r2 = 0 \<Longrightarrow> rule_items arr2 = rule_items arr @ [\<lparr>pattern = f, dir_rel = rd, depth = d,
              is_negated = n, is_dir_only = o1, is_anchored = a\<rparr>]"
          by (auto intro: out_kept_trans)
        show ?thesis
        proof (cases "r2 = 0")
          case r2: True
          from Cons.prems(1) Some np m True ru ad r2 have l: "load_lines rd d lines arr2 s3 = (r, arr1, s1)" by simp
          have "line_rule rd d raw = Some \<lparr>pattern = f, dir_rel = rd, depth = d,
              is_negated = n, is_dir_only = o1, is_anchored = a\<rparr>"
            using Some np ru by (simp add: line_rule_def)
          with Cons.IH [OF l a2(2)] a2(3) [OF r2] out_kept_trans [OF a2(1)]
          show ?thesis by (auto simp: map_filter_simps)
        next
          case False
          with Cons.prems(1) Some np m True ru ad a2 show ?thesis by auto
        qed
      next
        case False
        with Cons.prems Some np m k show ?thesis by auto
      qed
    qed
  qed
qed (auto simp: map_filter_simps)

lemma load_gitignore_ok:
  assumes "load_gitignore fopen p rd d arr s = (r, arr1, s1)" and "rules_fit arr"
  shows "out_kept s s1 \<and> rules_fit arr1 \<and> (r = 0 \<or> r = -1 \<or> r = 2)
    \<and> (r = 0 \<longrightarrow> rule_items arr1 = rule_items arr @
          (case fopen p of Inl e \<Rightarrow> [] | Inr bytes \<Rightarrow> file_rules rd d bytes))"
proof (cases "fopen p")
  case (Inl e)
  with assms show ?thesis by (auto simp: load_gitignore_def Let_def split: if_splits)
next
  case (Inr bytes)
  with assms load_lines_ok [of rd d "lines_of bytes" arr s r arr1 s1] show ?thesis
    by (auto simp: load_gitignore_def file_rules_def)
qed

lemma file_rules_depth: "r \<in> set (file_rules rd d bytes) \<Longrightarrow> depth r = d"
  by (auto simp: file_rules_def List.map_filter_def line_rule_def split: option.splits)

lemma pop_rules_items:
  assumes "\<forall>r \<in> set new. depth r = d" and "\<forall>r \<in> set base. depth r < d" and "rule_items arr = base @ new"
  shows "rule_items (pop_rules arr d) = base" "rule_capacity (pop_rules arr d) = rule_capacity arr"
proof -
  have "dropWhile (\<lambda>r. depth r = d) (rev new @ rev base) = dropWhile (\<lambda>r. depth r = d) (rev base)"
    using assms(1) by (subst dropWhile_append2) auto
  also have "\<dots> = rev base"
    using assms(2) by (cases base rule: rev_cases) auto
  finally show "rule_items (pop_rules arr d) = base" by (simp add: pop_rules_def assms(3))
qed (simp add: pop_rules_def)

lemma pop_rules_fit: "rules_fit arr \<Longrightarrow> rules_fit (pop_rules arr d)"
  using length_dropWhile_le [of "\<lambda>r. depth r = d" "rev (rule_items arr)"]
  by (simp add: rules_fit_def pop_rules_def)

text \<open>The verdict is that of the last rule that matches.\<close>

lemma is_path_ignored_last:
  "is_path_ignored fnmatch rules p b =
     (case find (\<lambda>r. match_rule fnmatch r p b) (rev rules) of None \<Rightarrow> False | Some r \<Rightarrow> \<not> is_negated r)"
proof (induction rules rule: rev_induct)
  case (snoc r rules)
  then show ?case by (simp add: is_path_ignored_def)
qed (simp add: is_path_ignored_def)

text \<open>
  What it means for a rule to apply to a path, without the code: the path is below the directory of
  the rule, and the part below it matches as a whole or, unless the rule is anchored, its last
  segment does.  A path is hidden when the last rule that applies to it is not negated.
\<close>

definition last_segment :: "cstr \<Rightarrow> cstr \<Rightarrow> bool" where
  "last_segment base below \<longleftrightarrow> CHR ''/'' \<notin> set base \<and> (below = base \<or> (\<exists>d. below = d @ CHR ''/'' # base))"

definition applies :: "(cstr \<Rightarrow> cstr \<Rightarrow> nat \<Rightarrow> int) \<Rightarrow> IgnoreRule \<Rightarrow> cstr \<Rightarrow> bool \<Rightarrow> bool" where
  "applies fnmatch r p is_dir \<longleftrightarrow>
     (is_dir_only r \<longrightarrow> is_dir)
     \<and> (\<exists>below. below \<noteq> [] \<and> (if dir_rel r = [] then p = below else p = dir_rel r @ CHR ''/'' # below)
          \<and> (fnmatch (pattern r) below FNM_PATHNAME = 0
             \<or> \<not> is_anchored r \<and> (\<exists>base. last_segment base below \<and> fnmatch (pattern r) base 0 = 0)))"

definition hidden :: "(cstr \<Rightarrow> cstr \<Rightarrow> nat \<Rightarrow> int) \<Rightarrow> IgnoreRule list \<Rightarrow> cstr \<Rightarrow> bool \<Rightarrow> bool" where
  "hidden fnmatch rs p is_dir \<longleftrightarrow>
     (\<exists>above r later. rs = above @ r # later \<and> applies fnmatch r p is_dir \<and> \<not> is_negated r
        \<and> (\<forall>q \<in> set later. \<not> applies fnmatch q p is_dir))"

lemma last_segment_base_name: "last_segment base below \<longleftrightarrow> base = base_name below"
proof
  assume l: "last_segment base below"
  then have n: "\<forall>c \<in> set (rev base). c \<noteq> CHR ''/''" by (auto simp: last_segment_def)
  from l consider "below = base" | d where "below = d @ CHR ''/'' # base" by (auto simp: last_segment_def)
  then show "base = base_name below"
  proof cases
    case 1
    have t: "takeWhile (\<lambda>c. c \<noteq> CHR ''/'') (rev base) = rev base" using n by (simp add: takeWhile_eq_all_conv)
    show ?thesis unfolding 1 base_name_def t by simp
  next
    case 2
    have t: "takeWhile (\<lambda>c. c \<noteq> CHR ''/'') (rev base @ CHR ''/'' # rev d) = rev base"
      using n by (subst takeWhile_append2) simp_all
    have b: "rev below = rev base @ CHR ''/'' # rev d" by (simp add: 2)
    show ?thesis unfolding base_name_def b t by simp
  qed
next
  assume b: "base = base_name below"
  let ?t = "takeWhile (\<lambda>c. c \<noteq> CHR ''/'') (rev below)" and ?d = "dropWhile (\<lambda>c. c \<noteq> CHR ''/'') (rev below)"
  have s: "below = rev ?d @ base" using takeWhile_dropWhile_id [of "\<lambda>c. c \<noteq> CHR ''/''" "rev below"]
    unfolding b base_name_def by (metis rev_append rev_rev_ident)
  have n: "CHR ''/'' \<notin> set base" unfolding b base_name_def by (auto dest: set_takeWhileD)
  show "last_segment base below"
  proof (cases ?d)
    case Nil
    with s n show ?thesis by (simp add: last_segment_def)
  next
    case (Cons c d)
    with hd_dropWhile [of "\<lambda>c. c \<noteq> CHR ''/''" "rev below"] have "c = CHR ''/''" by simp
    with s Cons n show ?thesis by (auto simp: last_segment_def)
  qed
qed

lemma match_below_applies:
  "match_below fnmatch r below \<longleftrightarrow> below \<noteq> []
     \<and> (fnmatch (pattern r) below FNM_PATHNAME = 0
        \<or> \<not> is_anchored r \<and> (\<exists>base. last_segment base below \<and> fnmatch (pattern r) base 0 = 0))"
  by (auto simp: match_below_def last_segment_base_name)

lemma match_rule_applies: "match_rule fnmatch r p is_dir \<longleftrightarrow> applies fnmatch r p is_dir"
proof (cases "dir_rel r = []")
  case True
  then show ?thesis by (auto simp: match_rule_def applies_def match_below_applies)
next
  case False
  let ?n = "length (dir_rel r)"
  have l: "?n < length p \<and> p ! ?n = CHR ''/''"
    if "take ?n p = dir_rel r" "\<not> (?n < length p \<and> p ! ?n \<noteq> CHR ''/'')" "drop (?n + 1) p \<noteq> []"
    using that by (cases "?n < length p") auto
  have d: "take ?n p = dir_rel r \<and> \<not> (?n < length p \<and> p ! ?n \<noteq> CHR ''/'') \<and> drop (?n + 1) p = below
      \<longleftrightarrow> p = dir_rel r @ CHR ''/'' # below" if "below \<noteq> []" for below
  proof
    assume a: "take ?n p = dir_rel r \<and> \<not> (?n < length p \<and> p ! ?n \<noteq> CHR ''/'') \<and> drop (?n + 1) p = below"
    with l that have n: "?n < length p" "p ! ?n = CHR ''/''" by auto
    from id_take_nth_drop [OF n(1)] a n(2) show "p = dir_rel r @ CHR ''/'' # below" by simp
  qed auto
  have "match_rule fnmatch r p is_dir \<longleftrightarrow> (is_dir_only r \<longrightarrow> is_dir)
      \<and> (take ?n p = dir_rel r \<and> \<not> (?n < length p \<and> p ! ?n \<noteq> CHR ''/'') \<and> match_below fnmatch r (drop (?n + 1) p))"
    using False by (simp add: match_rule_def Let_def)
  also have "\<dots> \<longleftrightarrow> (is_dir_only r \<longrightarrow> is_dir) \<and> (\<exists>below. below \<noteq> [] \<and> match_below fnmatch r below
      \<and> p = dir_rel r @ CHR ''/'' # below)"
  proof (cases "drop (?n + 1) p = []")
    case True
    then have "\<not> match_below fnmatch r (drop (?n + 1) p)" by (simp add: match_below_def)
    moreover have "p \<noteq> dir_rel r @ CHR ''/'' # below" if "below \<noteq> []" for below using True that by auto
    ultimately show ?thesis by blast
  next
    case ne: False
    have "below = drop (?n + 1) p" if "p = dir_rel r @ CHR ''/'' # below" for below using that by simp
    moreover note d [OF ne]
    ultimately show ?thesis using ne by metis
  qed
  also have "\<dots> \<longleftrightarrow> applies fnmatch r p is_dir"
    unfolding applies_def match_below_applies if_not_P [OF False] by blast
  finally show ?thesis .
qed

lemma find_last:
  "find P (rev rs) = Some r \<longleftrightarrow> (\<exists>above later. rs = above @ r # later \<and> P r \<and> (\<forall>q \<in> set later. \<not> P q))"
proof (induction rs rule: rev_induct)
  case (snoc x rs)
  show ?case
  proof (cases "P x")
    case True
    have "(\<exists>above later. rs @ [x] = above @ r # later \<and> P r \<and> (\<forall>q \<in> set later. \<not> P q)) \<longleftrightarrow> r = x"
    proof
      assume "\<exists>above later. rs @ [x] = above @ r # later \<and> P r \<and> (\<forall>q \<in> set later. \<not> P q)"
      then obtain above later where a: "rs @ [x] = above @ r # later" "\<forall>q \<in> set later. \<not> P q" by blast
      from a True show "r = x" by (cases later rule: rev_cases) auto
    next
      assume "r = x"
      with True show "\<exists>above later. rs @ [x] = above @ r # later \<and> P r \<and> (\<forall>q \<in> set later. \<not> P q)"
        by (intro exI [of _ rs] exI [of _ "[]"]) simp
    qed
    with True show ?thesis by auto
  next
    case False
    have "(\<exists>above later. rs @ [x] = above @ r # later \<and> P r \<and> (\<forall>q \<in> set later. \<not> P q))
        \<longleftrightarrow> (\<exists>above later. rs = above @ r # later \<and> P r \<and> (\<forall>q \<in> set later. \<not> P q))"
    proof
      assume "\<exists>above later. rs @ [x] = above @ r # later \<and> P r \<and> (\<forall>q \<in> set later. \<not> P q)"
      then obtain above later where a: "rs @ [x] = above @ r # later" "P r" "\<forall>q \<in> set later. \<not> P q" by blast
      with False have "later \<noteq> []" by auto
      then obtain l y where "later = l @ [y]" by (cases later rule: rev_cases) auto
      with a show "\<exists>above later. rs = above @ r # later \<and> P r \<and> (\<forall>q \<in> set later. \<not> P q)" by auto
    next
      assume "\<exists>above later. rs = above @ r # later \<and> P r \<and> (\<forall>q \<in> set later. \<not> P q)"
      then obtain above later where "rs = above @ r # later" "P r" "\<forall>q \<in> set later. \<not> P q" by blast
      with False show "\<exists>above later. rs @ [x] = above @ r # later \<and> P r \<and> (\<forall>q \<in> set later. \<not> P q)"
        by (intro exI [of _ above] exI [of _ "later @ [x]"]) auto
    qed
    with False snoc show ?thesis by simp
  qed
qed simp

lemma is_path_ignored_hidden: "is_path_ignored fnmatch rs p is_dir \<longleftrightarrow> hidden fnmatch rs p is_dir"
proof -
  have "is_path_ignored fnmatch rs p is_dir
      \<longleftrightarrow> (\<exists>r. find (\<lambda>r. match_rule fnmatch r p is_dir) (rev rs) = Some r \<and> \<not> is_negated r)"
    by (simp add: is_path_ignored_last split: option.split)
  then show ?thesis unfolding hidden_def find_last match_rule_applies by blast
qed

end
