(* ===== verification/Treehash_Walk.thy ===== *)
theory Treehash_Walk
  imports Treehash_Merkle Treehash_Ignore
begin

text \<open>
  The directory walk of \<open>src/treehash.c\<close>: hashing a file by its descriptor, entering a directory
  (depth bound, cycle check against the array of ancestors, \<open>.gitignore\<close>), and the loop over
  its entries with the recursive call.  The file system answers through \<open>tree_os\<close>.
\<close>

section \<open>The code\<close>

record tree_os =
  lstat_of :: "cstr \<Rightarrow> nat + stat"
  opendir_of :: "cstr \<Rightarrow> nat + cstr list \<times> nat"
  open_of :: "cstr \<Rightarrow> open_answers"
  fopen_of :: "cstr \<Rightarrow> nat + char list"
  fnmatch_of :: "cstr \<Rightarrow> cstr \<Rightarrow> nat \<Rightarrow> int"

text \<open>
  \<open>opendir_of\<close> answers with the names \<open>readdir\<close> returns and the \<open>errno\<close> that its last call
  leaves: 0 at the end of the directory.
\<close>

record FileEntryArray =
  items :: "FileEntry list"
  capacity :: nat

record TreehashContext =
  entries :: FileEntryArray
  rules :: IgnoreRuleArray
  ancestors :: "(nat \<times> nat) list"
  ancestor_count :: nat

definition TREEHASH_MAX_DEPTH :: nat where "TREEHASH_MAX_DEPTH = 256"

definition sizeof_FileEntry :: nat where "sizeof_FileEntry = 80"

definition add_file_entry :: "FileEntryArray \<Rightarrow> cstr \<Rightarrow> cstr \<Rightarrow> io \<Rightarrow> int \<times> FileEntryArray \<times> io" where
  "add_file_entry arr path h s =
     (case grow_array 64 sizeof_FileEntry (length (items arr)) (capacity arr) s of
        (None, s1) \<Rightarrow> (-1, arr, s1)
      | (Some cap, s1) \<Rightarrow>
          (let arr1 = arr\<lparr>capacity := cap\<rparr> in
           case c_malloc s1 of
             (ok, s2) \<Rightarrow>
               if \<not> ok then (-1, arr1, s2)
               else (0, arr1\<lparr>items := items arr1 @ [\<lparr>rel_path = path, hex = h\<rparr>]\<rparr>, s2)))"

text \<open>\<open>hash_file_sha256\<close>: \<open>open\<close> made again after \<open>EINTR\<close>, then the loop over \<open>read\<close>.\<close>

fun open_retry :: "open_answers \<Rightarrow> nat + read_answers \<times> nat option" where
  "open_retry (Open_interrupted a) = open_retry a"
| "open_retry (Open_error e) = Inl e"
| "open_retry (Opened reads close_error) = Inr (reads, close_error)"

fun read_loop :: "read_answers \<Rightarrow> SHA256_CTX \<Rightarrow> nat + SHA256_CTX" where
  "read_loop (Read_interrupted a) sctx = read_loop a sctx"
| "read_loop (Read_error e) sctx = Inl e"
| "read_loop (Read_bytes bs a) sctx =
     (if bs = [] then Inr sctx else read_loop a (sha256_update sctx bs))"
| "read_loop Read_eof sctx = Inr sctx"

text \<open>The 64 characters of \<open>hex_out\<close>, or the \<open>errno\<close> that a return of -1 leaves.\<close>

definition hash_file_sha256 :: "tree_os \<Rightarrow> char list \<Rightarrow> cstr \<Rightarrow> nat + cstr" where
  "hash_file_sha256 os garbage path =
     (case open_retry (open_of os path) of
        Inl e \<Rightarrow> Inl e
      | Inr (reads, close_error) \<Rightarrow>
          (case read_loop reads (sha256_init garbage) of
             Inl e \<Rightarrow> Inl e
           | Inr sctx \<Rightarrow>
               (case close_error of Some e \<Rightarrow> Inl e | None \<Rightarrow> Inr (hex_of (sha256_final sctx)))))"

definition path_length_exceeded :: "io \<Rightarrow> io" where
  "path_length_exceeded s = ignore_result (c_write Stderr (''treehash: PATH_LENGTH_EXCEEDED'' @ [LF])) s"

definition cannot :: "cstr \<Rightarrow> cstr \<Rightarrow> io \<Rightarrow> io" where
  "cannot what path s =
     print_errno (print_diag_path (''treehash: cannot '' @ what @ '' '' @ [SQ]) path (SQ # '': '') s)"

text \<open>The code before the loop of \<open>walk_dir\<close>: \<open>Inl\<close> is an early return.\<close>

definition enter_dir ::
  "tree_os \<Rightarrow> TreehashContext \<Rightarrow> cstr \<Rightarrow> cstr \<Rightarrow> nat \<Rightarrow> io
    \<Rightarrow> (int + cstr list \<times> nat) \<times> TreehashContext \<times> io" where
  "enter_dir os ctx disk rel d s =
     (case lstat_of os disk of
        Inl e \<Rightarrow> (Inl 2, ctx, cannot ''access'' disk (s\<lparr>errno := e\<rparr>))
      | Inr st \<Rightarrow>
          if \<not> S_ISDIR (st_mode st) then
            (Inl 2, ctx, print_diag_path (''treehash: '' @ [SQ]) disk (SQ # '': Not a directory'' @ [LF]) s)
          else if (st_dev st, st_ino st) \<in> set (take (ancestor_count ctx) (ancestors ctx)) then
            (Inl 2, ctx, print_diag_path (''treehash: CYCLE_DETECTED: '' @ [DQ]) disk [DQ, LF] s)
          else
            (let ctx1 = ctx\<lparr>ancestors := (ancestors ctx)[ancestor_count ctx := (st_dev st, st_ino st)],
                            ancestor_count := ancestor_count ctx + 1\<rparr>;
                 leave = ctx1\<lparr>ancestor_count := ancestor_count ctx1 - 1\<rparr> in
             case opendir_of os disk of
               Inl e \<Rightarrow> (Inl 2, leave, cannot ''open directory'' disk (s\<lparr>errno := e\<rparr>))
             | Inr (names, end_errno) \<Rightarrow>
                 (let gitignore_path = disk @ ''/.gitignore'' in
                  if length gitignore_path \<ge> PATH_MAX then (Inl 2, leave, path_length_exceeded s)
                  else
                    (case lstat_of os gitignore_path of
                       Inl e \<Rightarrow> (Inr (names, end_errno), ctx1, s\<lparr>errno := e\<rparr>)
                     | Inr gst \<Rightarrow>
                         if \<not> S_ISREG (st_mode gst) then (Inr (names, end_errno), ctx1, s)
                         else
                           (case load_gitignore (fopen_of os) gitignore_path rel d (rules ctx1) s of
                              (gres, arr, s1) \<Rightarrow>
                                if gres \<noteq> 0 then (Inl gres, leave\<lparr>rules := arr\<rparr>, s1)
                                else (Inr (names, end_errno), ctx1\<lparr>rules := arr\<rparr>, s1))))))"

text \<open>\<open>pop_rules(ctx, depth); ctx->ancestor_count--;\<close>\<close>

definition leave_dir :: "nat \<Rightarrow> TreehashContext \<Rightarrow> TreehashContext" where
  "leave_dir d ctx =
     ctx\<lparr>rules := pop_rules (rules ctx) d, ancestor_count := ancestor_count ctx - 1\<rparr>"

definition skipped_name :: "cstr \<Rightarrow> bool" where
  "skipped_name name \<longleftrightarrow> name = ''.'' \<or> name = ''..'' \<or> name = ''.git''"

text \<open>The two \<open>snprintf\<close> calls: the path on disk and the path below the root.\<close>

definition join_path :: "cstr \<Rightarrow> cstr \<Rightarrow> cstr" where
  "join_path dir name = dir @ CHR ''/'' # name"

definition child_rel :: "cstr \<Rightarrow> cstr \<Rightarrow> cstr" where
  "child_rel rel name = (if rel = [] then name else join_path rel name)"

definition child_paths :: "cstr \<Rightarrow> cstr \<Rightarrow> cstr \<Rightarrow> (cstr \<times> cstr) option" where
  "child_paths disk rel name =
     (if length (join_path disk name) \<ge> PATH_MAX then None
      else if length (child_rel rel name) \<ge> PATH_MAX then None
      else Some (join_path disk name, child_rel rel name))"

function walk_dir ::
    "tree_os \<Rightarrow> char list \<Rightarrow> cstr \<Rightarrow> cstr \<Rightarrow> nat \<Rightarrow> TreehashContext \<Rightarrow> io \<Rightarrow> int \<times> TreehashContext \<times> io"
  and walk_entries ::
    "tree_os \<Rightarrow> char list \<Rightarrow> cstr \<Rightarrow> cstr \<Rightarrow> nat \<Rightarrow> nat \<Rightarrow> cstr list \<Rightarrow> TreehashContext \<Rightarrow> io
      \<Rightarrow> int \<times> TreehashContext \<times> io"
where
  "walk_dir os garbage disk rel d ctx s =
     (if d \<ge> TREEHASH_MAX_DEPTH
      then (2, ctx, ignore_result (c_write Stderr (''treehash: RECURSION_DEPTH_EXCEEDED'' @ [LF])) s)
      else
        (case enter_dir os ctx disk rel d s of
           (Inl r, ctx1, s1) \<Rightarrow> (r, ctx1, s1)
         | (Inr (names, end_errno), ctx1, s1) \<Rightarrow>
             walk_entries os garbage disk rel d end_errno names ctx1 (s1\<lparr>errno := 0\<rparr>)))"
| "walk_entries os garbage disk rel d end_errno [] ctx s =
     (let s1 = (if end_errno \<noteq> 0 then s\<lparr>errno := end_errno\<rparr> else s) in
      if errno s1 \<noteq> 0 then (2, leave_dir d ctx, cannot ''read directory'' disk s1)
      else (0, leave_dir d ctx, s1))"
| "walk_entries os garbage disk rel d end_errno (name # names) ctx s =
     (if skipped_name name then walk_entries os garbage disk rel d end_errno names ctx s
      else
        (case child_paths disk rel name of
           None \<Rightarrow> (2, leave_dir d ctx, path_length_exceeded s)
         | Some (cdisk, crel) \<Rightarrow>
             (case lstat_of os cdisk of
                Inl e \<Rightarrow> (2, leave_dir d ctx, cannot ''access'' cdisk (s\<lparr>errno := e\<rparr>))
              | Inr st \<Rightarrow>
                  if S_ISLNK (st_mode st) then walk_entries os garbage disk rel d end_errno names ctx s
                  else if S_ISDIR (st_mode st) then
                    (if is_path_ignored (fnmatch_of os) (rule_items (rules ctx)) crel True
                     then walk_entries os garbage disk rel d end_errno names ctx s
                     else
                       (case walk_dir os garbage cdisk crel (d + 1) ctx s of
                          (ret, ctx1, s1) \<Rightarrow>
                            if ret \<noteq> 0 then (ret, leave_dir d ctx1, s1)
                            else walk_entries os garbage disk rel d end_errno names ctx1 (s1\<lparr>errno := 0\<rparr>)))
                  else if S_ISREG (st_mode st) then
                    (if is_path_ignored (fnmatch_of os) (rule_items (rules ctx)) crel False
                     then walk_entries os garbage disk rel d end_errno names ctx s
                     else
                       (case hash_file_sha256 os garbage cdisk of
                          Inl e \<Rightarrow> (2, leave_dir d ctx, cannot ''read'' cdisk (s\<lparr>errno := e\<rparr>))
                        | Inr h \<Rightarrow>
                            (case add_file_entry (entries ctx) crel h s of
                               (r, arr, s1) \<Rightarrow>
                                 if r \<noteq> 0 then (2, leave_dir d (ctx\<lparr>entries := arr\<rparr>), out_of_memory s1)
                                 else walk_entries os garbage disk rel d end_errno names
                                        (ctx\<lparr>entries := arr\<rparr>) (s1\<lparr>errno := 0\<rparr>))))
                  else walk_entries os garbage disk rel d end_errno names ctx (s\<lparr>errno := 0\<rparr>))))"
  by pat_completeness auto
termination
  by (relation "measures [
      \<lambda>x. case x of Inl (os, garbage, disk, rel, d, ctx, s) \<Rightarrow>
                      if d \<ge> TREEHASH_MAX_DEPTH then 0 else 2 * (TREEHASH_MAX_DEPTH - d) + 3
                  | Inr (os, garbage, disk, rel, d, end_errno, names, ctx, s) \<Rightarrow> 2 * (TREEHASH_MAX_DEPTH - d) + 2,
      \<lambda>x. case x of Inl y \<Rightarrow> 0
                  | Inr (os, garbage, disk, rel, d, end_errno, names, ctx, s) \<Rightarrow> length names]")
    auto

declare walk_dir.simps [simp del] walk_entries.simps [simp del]

end
