(* ===== verification/Treehash_Correct.thy ===== *)
theory Treehash_Correct
  imports Treehash_Walk
begin

text \<open>
  The walk refines a pure listing of the tree: when \<open>walk_dir\<close> returns 0 it has appended
  exactly \<open>listing\<close> to the entries and restored the rules and the ancestors, and whatever it
  returns it has written nothing to stdout and kept its arrays within their capacities.
\<close>

section \<open>Hashing a file\<close>

text \<open>The bytes a descriptor delivers, and the digest of the file at a path.\<close>

fun content :: "read_answers \<Rightarrow> char list" where
  "content (Read_interrupted a) = content a"
| "content (Read_error e) = []"
| "content (Read_bytes bs a) = (if bs = [] then [] else bs @ content a)"
| "content Read_eof = []"

definition file_content :: "tree_os \<Rightarrow> cstr \<Rightarrow> char list" where
  "file_content os path = (case open_retry (open_of os path) of Inl e \<Rightarrow> [] | Inr (reads, c) \<Rightarrow> content reads)"

definition file_hex :: "tree_os \<Rightarrow> cstr \<Rightarrow> cstr" where
  "file_hex os path = hex_of (sha256 (file_content os path))"

lemma read_loop_content:
  "read_loop a sctx = Inr sctx1 \<Longrightarrow> \<exists>parts. sctx1 = foldl sha256_update sctx parts \<and> concat parts = content a"
proof (induction a arbitrary: sctx)
  case (Read_bytes bs a)
  show ?case
  proof (cases "bs = []")
    case True
    with Read_bytes show ?thesis by (intro exI [of _ "[]"]) simp
  next
    case False
    with Read_bytes obtain parts where "sctx1 = foldl sha256_update (sha256_update sctx bs) parts"
      "concat parts = content a" by auto
    with False show ?thesis by (intro exI [of _ "bs # parts"]) simp
  qed
qed (auto intro: exI [of _ "[]"])

lemma hash_file_ok:
  assumes "hash_file_sha256 os garbage path = Inr h" and "length garbage = 64"
  shows "h = file_hex os path"
proof -
  from assms(1) obtain reads c sctx where
    o: "open_retry (open_of os path) = Inr (reads, c)" "read_loop reads (sha256_init garbage) = Inr sctx"
      "h = hex_of (sha256_final sctx)"
    by (auto simp: hash_file_sha256_def split: sum.splits option.splits)
  from read_loop_content [OF o(2)] obtain parts where
    "sctx = foldl sha256_update (sha256_init garbage) parts" "concat parts = content reads" by auto
  with sha256_digest_concat [OF assms(2), of parts] o show ?thesis
    by (simp add: sha256_digest_def file_hex_def file_content_def)
qed

lemma length_hex_of: "length (hex_of bs) = 2 * length bs"
  by (induction bs) (simp_all add: hex_of_def)

lemma length_file_hex [simp]: "length (file_hex os path) = 64"
  by (simp add: file_hex_def length_hex_of length_sha256)

section \<open>The listing\<close>

definition dir_rules :: "tree_os \<Rightarrow> cstr \<Rightarrow> cstr \<Rightarrow> nat \<Rightarrow> IgnoreRule list" where
  "dir_rules os disk rel d =
     (case lstat_of os (disk @ ''/.gitignore'') of
        Inl e \<Rightarrow> []
      | Inr st \<Rightarrow>
          if S_ISREG (st_mode st)
          then (case fopen_of os (disk @ ''/.gitignore'') of Inl e \<Rightarrow> [] | Inr bytes \<Rightarrow> file_rules rel d bytes)
          else [])"

lemma dir_rules_depth: "\<forall>r \<in> set (dir_rules os disk rel d). depth r = d"
proof -
  have "dir_rules os disk rel d = [] \<or> (\<exists>bytes. dir_rules os disk rel d = file_rules rel d bytes)"
    by (auto simp: dir_rules_def split: sum.split)
  with file_rules_depth show ?thesis by fastforce
qed

text \<open>The entries of one name in a directory; \<open>sub\<close> lists a subdirectory.\<close>

definition name_listing ::
  "tree_os \<Rightarrow> (cstr \<Rightarrow> cstr \<Rightarrow> FileEntry list) \<Rightarrow> IgnoreRule list \<Rightarrow> cstr \<Rightarrow> cstr \<Rightarrow> cstr \<Rightarrow> FileEntry list" where
  "name_listing os sub rs disk rel name =
     (if skipped_name name then []
      else
        (let cdisk = join_path disk name; crel = child_rel rel name in
         case lstat_of os cdisk of
           Inl e \<Rightarrow> []
         | Inr st \<Rightarrow>
             if S_ISLNK (st_mode st) then []
             else if S_ISDIR (st_mode st) then
               (if is_path_ignored (fnmatch_of os) rs crel True then [] else sub cdisk crel)
             else if S_ISREG (st_mode st) \<and> \<not> is_path_ignored (fnmatch_of os) rs crel False
             then [\<lparr>rel_path = crel, hex = file_hex os cdisk\<rparr>] else []))"

definition names_of :: "tree_os \<Rightarrow> cstr \<Rightarrow> cstr list" where
  "names_of os disk = (case opendir_of os disk of Inl e \<Rightarrow> [] | Inr (names, e) \<Rightarrow> names)"

fun listing :: "tree_os \<Rightarrow> nat \<Rightarrow> nat \<Rightarrow> IgnoreRule list \<Rightarrow> cstr \<Rightarrow> cstr \<Rightarrow> FileEntry list" where
  "listing os 0 d rs disk rel = []"
| "listing os (Suc n) d rs disk rel =
     (let rs1 = rs @ dir_rules os disk rel d in
      concat (map (name_listing os (listing os n (d + 1) rs1) rs1 disk rel) (names_of os disk)))"

section \<open>Invariants\<close>

definition ctx_fit :: "TreehashContext \<Rightarrow> bool" where
  "ctx_fit ctx \<longleftrightarrow> rules_fit (rules ctx) \<and> length (items (entries ctx)) \<le> capacity (entries ctx)
     \<and> length (ancestors ctx) = TREEHASH_MAX_DEPTH"

text \<open>Outside the directories of depth \<open>d\<close> and more.\<close>

definition ctx_inv :: "nat \<Rightarrow> TreehashContext \<Rightarrow> bool" where
  "ctx_inv d ctx \<longleftrightarrow> ctx_fit ctx \<and> ancestor_count ctx = d \<and> (\<forall>r \<in> set (rule_items (rules ctx)). depth r < d)"

text \<open>Inside a directory of depth \<open>d\<close> entered with the rules \<open>base\<close> and the ancestors \<open>anc\<close>.\<close>

definition in_dir :: "nat \<Rightarrow> IgnoreRule list \<Rightarrow> IgnoreRule list \<Rightarrow> (nat \<times> nat) list \<Rightarrow> TreehashContext \<Rightarrow> bool" where
  "in_dir d base new anc ctx \<longleftrightarrow> ctx_fit ctx \<and> ancestor_count ctx = d + 1 \<and> take (d + 1) (ancestors ctx) = anc
     \<and> rule_items (rules ctx) = base @ new \<and> (\<forall>r \<in> set base. depth r < d) \<and> (\<forall>r \<in> set new. depth r = d)"

lemma leave_dir_inv:
  assumes "in_dir d base new anc ctx"
  shows "ctx_inv d (leave_dir d ctx) \<and> rule_items (rules (leave_dir d ctx)) = base
    \<and> entries (leave_dir d ctx) = entries ctx \<and> take d (ancestors (leave_dir d ctx)) = take d anc"
proof -
  note i = assms [unfolded in_dir_def]
  from i pop_rules_items [of new d base "rules ctx"]
  have p: "rule_items (pop_rules (rules ctx) d) = base" by blast
  moreover have "take d (take (d + 1) (ancestors ctx)) = take d (ancestors ctx)" by simp
  ultimately show ?thesis
    using i pop_rules_fit [of "rules ctx" d] by (auto simp: leave_dir_def ctx_inv_def ctx_fit_def)
qed

lemma leave_dir_fit: "ctx_fit ctx \<Longrightarrow> ctx_fit (leave_dir d ctx)"
  by (simp add: ctx_fit_def leave_dir_def pop_rules_fit)

lemma add_file_entry_ok:
  assumes "add_file_entry arr p h s = (r, arr1, s1)" and "length (items arr) \<le> capacity arr"
  shows "out_kept s s1 \<and> length (items arr1) \<le> capacity arr1
    \<and> (r = 0 \<longrightarrow> items arr1 = items arr @ [\<lparr>rel_path = p, hex = h\<rparr>])"
proof -
  obtain g s2 where g: "grow_array 64 sizeof_FileEntry (length (items arr)) (capacity arr) s = (g, s2)"
    by fastforce
  from grow_array_ok [OF this assms(2)] have k: "out_kept s s2" "\<And>c. g = Some c \<Longrightarrow> length (items arr) < c" by auto
  show ?thesis
  proof (cases g)
    case None
    with assms g k show ?thesis by (auto simp: add_file_entry_def)
  next
    case (Some c)
    obtain b s3 where 3: "c_malloc s2 = (b, s3)" by fastforce
    from k(1) out_kept_malloc [OF 3] have "out_kept s s3" by (rule out_kept_trans)
    with assms g Some k(2) [OF Some] 3 show ?thesis
      by (auto simp: add_file_entry_def Let_def split: if_splits)
  qed
qed

lemma out_kept_reports [simp]:
  "out_kept s (cannot w p s1) \<longleftrightarrow> out_kept s s1" "out_kept s (path_length_exceeded s1) \<longleftrightarrow> out_kept s s1"
  "out_kept s (out_of_memory s1) \<longleftrightarrow> out_kept s s1"
  by (simp_all add: cannot_def path_length_exceeded_def out_of_memory_def)

lemma reduce_levels_out: "out_kept s (snd (reduce_levels garbage level s))"
proof (induction garbage level s rule: reduce_levels.induct)
  case (1 garbage level s)
  obtain ok s2 where m: "c_malloc s = (ok, s2)" by fastforce
  note k = out_kept_malloc [OF m]
  show ?case
  proof (cases "1 < length level \<and> \<not> (length level + 1) div 2 > SIZE_MAX div 32 \<and> ok")
    case True
    with 1 [OF _ refl _ m [symmetric]] out_kept_trans [OF k] m show ?thesis
      by (simp add: reduce_levels.simps [of garbage level s] Let_def)
  next
    case False
    with k m show ?thesis
      by (subst reduce_levels.simps) (auto simp: Let_def)
  qed
qed

lemma compute_merkle_root_out: "out_kept s (snd (compute_merkle_root garbage es s))"
proof -
  obtain ok s2 where m: "c_malloc s = (ok, s2)" by fastforce
  obtain l s3 where r: "reduce_levels garbage
      (map (\<lambda>e. compute_leaf_digest garbage (hex e) (rel_path e)) es) s2 = (l, s3)" by fastforce
  with reduce_levels_out [of s2 garbage] out_kept_trans [OF out_kept_malloc [OF m]] have "out_kept s s3"
    by (metis snd_conv)
  with m r out_kept_malloc [OF m] show ?thesis
    by (auto simp: compute_merkle_root_def split: option.split)
qed

lemma enter_dir_ok:
  assumes "enter_dir os ctx disk rel d s = (res, ctx1, s1)" and "ctx_inv d ctx" and "d < TREEHASH_MAX_DEPTH"
  shows "out_kept s s1 \<and> ctx_fit ctx1 \<and> (\<forall>r. res = Inl r \<longrightarrow> r \<noteq> 0)
    \<and> (\<forall>names e. res = Inr (names, e) \<longrightarrow> names_of os disk = names
        \<and> (\<exists>anc. take d anc = take d (ancestors ctx) \<and> length anc = d + 1
             \<and> in_dir d (rule_items (rules ctx)) (dir_rules os disk rel d) anc ctx1)
        \<and> entries ctx1 = entries ctx)"
proof -
  note inv = assms(2) [unfolded ctx_inv_def ctx_fit_def]
  show ?thesis
  proof (cases "lstat_of os disk")
    case (Inl e)
    with assms(1) inv show ?thesis by (auto simp: enter_dir_def ctx_fit_def)
  next
    case (Inr st)
    show ?thesis
    proof (cases "\<not> S_ISDIR (st_mode st) \<or> (st_dev st, st_ino st) \<in> set (take (ancestor_count ctx) (ancestors ctx))")
      case True
      with assms(1) Inr inv show ?thesis by (auto simp: enter_dir_def ctx_fit_def split: if_splits)
    next
      case dir: False
      let ?c = "ctx\<lparr>ancestors := (ancestors ctx)[ancestor_count ctx := (st_dev st, st_ino st)],
                    ancestor_count := ancestor_count ctx + 1\<rparr>"
      let ?anc = "take (d + 1) (ancestors ?c)"
      have anc: "take d ?anc = take d (ancestors ctx)" "length ?anc = d + 1" "ancestor_count ?c = d + 1"
        using inv assms(3) by simp_all
      show ?thesis
      proof (cases "opendir_of os disk")
        case (Inl e)
        with assms(1) Inr dir inv show ?thesis by (auto simp: enter_dir_def ctx_fit_def Let_def)
      next
        case od: (Inr ne)
        obtain names end_errno where ne: "ne = (names, end_errno)" by fastforce
        show ?thesis
        proof (cases "length (disk @ ''/.gitignore'') \<ge> PATH_MAX")
          case True
          with assms(1) Inr dir od ne inv show ?thesis by (auto simp: enter_dir_def ctx_fit_def Let_def)
        next
          case short: False
          show ?thesis
          proof (cases "\<exists>gst. lstat_of os (disk @ ''/.gitignore'') = Inr gst \<and> S_ISREG (st_mode gst)")
            case False
            then have "dir_rules os disk rel d = []" by (auto simp: dir_rules_def split: sum.split)
            then show ?thesis
              using assms(1) Inr dir od ne short False inv anc
              by (auto simp: enter_dir_def ctx_fit_def Let_def names_of_def in_dir_def
                  split: sum.splits if_splits intro!: exI [of _ ?anc])
          next
            case True
            then obtain gst where gst: "lstat_of os (disk @ ''/.gitignore'') = Inr gst" "S_ISREG (st_mode gst)" by blast
            obtain gres arr s2 where lg: "load_gitignore (fopen_of os) (disk @ ''/.gitignore'') rel d (rules ctx) s
              = (gres, arr, s2)" by (metis prod_cases3)
            from load_gitignore_ok [OF lg] inv have l: "out_kept s s2" "rules_fit arr"
              "gres = 0 \<Longrightarrow> rule_items arr = rule_items (rules ctx) @ dir_rules os disk rel d"
              using gst by (auto simp: dir_rules_def)
            have dep: "\<forall>r \<in> set (dir_rules os disk rel d). depth r = d"
              by (rule dir_rules_depth)
            show ?thesis
            proof (cases "gres = 0")
              case True
              with assms(1) Inr dir od ne short gst lg have
                "res = Inr (names, end_errno)" "ctx1 = ?c\<lparr>rules := arr\<rparr>" "s1 = s2"
                by (auto simp: enter_dir_def Let_def)
              moreover from this have "in_dir d (rule_items (rules ctx)) (dir_rules os disk rel d) ?anc ctx1"
                using inv l True dep anc by (simp add: in_dir_def ctx_fit_def)
              ultimately show ?thesis
                using l anc od ne by (auto simp: in_dir_def names_of_def)
            next
              case False
              with assms(1) Inr dir od ne short gst lg have
                "res = Inl gres" "ctx1 = ?c\<lparr>ancestor_count := ancestor_count ?c - 1, rules := arr\<rparr>" "s1 = s2"
                by (auto simp: enter_dir_def Let_def)
              with l inv False show ?thesis by (simp add: ctx_fit_def)
            qed
          qed
        qed
      qed
    qed
  qed
qed

section \<open>The walk\<close>

text \<open>What a call of \<open>walk_dir\<close> at depth \<open>d\<close> promises.\<close>

definition walk_spec :: "tree_os \<Rightarrow> char list \<Rightarrow> nat \<Rightarrow> bool" where
  "walk_spec os garbage d \<longleftrightarrow>
     (\<forall>disk rel ctx s r ctx1 s1. walk_dir os garbage disk rel d ctx s = (r, ctx1, s1) \<longrightarrow> ctx_inv d ctx \<longrightarrow>
        out_kept s s1 \<and> ctx_fit ctx1
        \<and> (r = 0 \<longrightarrow> ctx_inv d ctx1 \<and> rule_items (rules ctx1) = rule_items (rules ctx)
             \<and> take d (ancestors ctx1) = take d (ancestors ctx)
             \<and> items (entries ctx1) = items (entries ctx)
                 @ listing os (TREEHASH_MAX_DEPTH - d) d (rule_items (rules ctx)) disk rel))"

lemma in_dir_calls: "in_dir d base new anc ctx \<Longrightarrow> ctx_inv (d + 1) ctx"
  by (auto simp: in_dir_def ctx_inv_def less_Suc_eq)

lemma in_dir_fit: "in_dir d base new anc ctx \<Longrightarrow> ctx_fit ctx"
  by (simp add: in_dir_def)

lemma walk_entries_ok:
  assumes sub: "walk_spec os garbage (d + 1)" and garbage: "length garbage = 64"
    and "walk_entries os garbage disk rel d ee names ctx s = (r, ctx1, s1)" and "in_dir d base new anc ctx"
  defines "rs \<equiv> base @ new"
  defines "list_sub \<equiv> listing os (TREEHASH_MAX_DEPTH - (d + 1)) (d + 1) rs"
  shows "out_kept s s1 \<and> ctx_fit ctx1
    \<and> (r = 0 \<longrightarrow> ctx_inv d ctx1 \<and> rule_items (rules ctx1) = base \<and> take d (ancestors ctx1) = take d anc
         \<and> items (entries ctx1) = items (entries ctx)
             @ concat (map (name_listing os list_sub rs disk rel) names))"
  using assms(3,4)
proof (induction names arbitrary: ctx s)
  case Nil
  with leave_dir_inv [OF Nil.prems(2)] leave_dir_fit [OF in_dir_fit [OF Nil.prems(2)], of d] show ?case
    by (auto simp: walk_entries.simps Let_def split: if_splits)
next
  case (Cons name names)
  note dir = Cons.prems(2)
  note left = leave_dir_fit [OF in_dir_fit [OF dir], of d]
  have rs: "rule_items (rules ctx) = rs" using dir by (simp add: in_dir_def rs_def)
  note call = Cons.prems(1) [unfolded walk_entries.simps rs]
  show ?case
  proof (cases "skipped_name name")
    case True
    then have "name_listing os list_sub rs disk rel name = []" by (simp add: name_listing_def)
    moreover from call True have "walk_entries os garbage disk rel d ee names ctx s = (r, ctx1, s1)" by simp
    note Cons.IH [OF this dir]
    ultimately show ?thesis by simp
  next
    case use: False
    show ?thesis
    proof (cases "child_paths disk rel name")
      case None
      with call use left show ?thesis by auto
    next
      case (Some cc)
      then have cc: "cc = (join_path disk name, child_rel rel name)"
        by (auto simp: child_paths_def split: if_splits)
      let ?cd = "join_path disk name" and ?cr = "child_rel rel name"
      show ?thesis
      proof (cases "lstat_of os ?cd")
        case (Inl e)
        with call use Some cc left show ?thesis by auto
      next
        case (Inr st)
        note listed = name_listing_def [of os list_sub rs disk rel name]
        consider (skip) s2 where "name_listing os list_sub rs disk rel name = []" "out_kept s s2"
            "walk_entries os garbage disk rel d ee names ctx s2 = (r, ctx1, s1)"
          | (dir) "S_ISDIR (st_mode st)" "\<not> S_ISLNK (st_mode st)" "\<not> is_path_ignored (fnmatch_of os) rs ?cr True"
          | (reg) "S_ISREG (st_mode st)" "\<not> S_ISDIR (st_mode st)" "\<not> S_ISLNK (st_mode st)"
              "\<not> is_path_ignored (fnmatch_of os) rs ?cr False"
          using call use Some cc Inr listed that(1) [of s] that(1) [of "s\<lparr>errno := 0\<rparr>"]
          by (simp add: Let_def split: if_splits)
        then show ?thesis
        proof cases
          case skip
          from Cons.IH [OF skip(3) dir] skip(1) out_kept_trans [OF skip(2)] show ?thesis by simp
        next
          case dir
          obtain ret ctx2 s2 where w: "walk_dir os garbage ?cd ?cr (d + 1) ctx s = (ret, ctx2, s2)"
            by (metis prod_cases3)
          from sub [unfolded walk_spec_def, rule_format, OF w in_dir_calls [OF Cons.prems(2)]] have w1: "out_kept s s2" "ctx_fit ctx2"
            and w2: "ret = 0 \<Longrightarrow> ctx_inv (d + 1) ctx2 \<and> rule_items (rules ctx2) = rule_items (rules ctx)
              \<and> take (d + 1) (ancestors ctx2) = take (d + 1) (ancestors ctx)
              \<and> items (entries ctx2) = items (entries ctx) @ list_sub ?cd ?cr"
            by (simp_all add: list_sub_def rs)
          show ?thesis
          proof (cases "ret = 0")
            case True
            with w2 Cons.prems(2) have "in_dir d base new anc ctx2"
              by (simp add: in_dir_def ctx_inv_def)
            moreover from call use Some cc Inr dir w True
            have "walk_entries os garbage disk rel d ee names ctx2 (s2\<lparr>errno := 0\<rparr>) = (r, ctx1, s1)" by simp
            ultimately have "out_kept s2 s1 \<and> ctx_fit ctx1 \<and> (r = 0 \<longrightarrow> ctx_inv d ctx1
                \<and> rule_items (rules ctx1) = base \<and> take d (ancestors ctx1) = take d anc
                \<and> items (entries ctx1) = items (entries ctx2)
                    @ concat (map (name_listing os list_sub rs disk rel) names))"
              using Cons.IH [of ctx2 "s2\<lparr>errno := 0\<rparr>"] by (simp add: out_kept_def)
            moreover have "name_listing os list_sub rs disk rel name = list_sub ?cd ?cr"
              unfolding listed using use Inr dir by simp
            ultimately show ?thesis using w1 w2 True by (auto intro: out_kept_trans)
          next
            case False
            with call use Some cc Inr dir w leave_dir_fit [OF w1(2), of d] w1(1) show ?thesis by auto
          qed
        next
          case reg
          have l: "name_listing os list_sub rs disk rel name = [\<lparr>rel_path = ?cr, hex = file_hex os ?cd\<rparr>]"
            unfolding listed using use Inr reg by simp
          show ?thesis
          proof (cases "hash_file_sha256 os garbage ?cd")
            case (Inl e)
            with call use Some cc Inr reg left show ?thesis by auto
          next
            case h: (Inr h)
            note hex = hash_file_ok [OF h garbage]
            obtain r2 arr s2 where ad: "add_file_entry (entries ctx) ?cr h s = (r2, arr, s2)"
              by (metis prod_cases3)
            with add_file_entry_ok [OF this] Cons.prems(2) have a: "out_kept s s2"
              "length (items arr) \<le> capacity arr"
              "r2 = 0 \<Longrightarrow> items arr = items (entries ctx) @ [\<lparr>rel_path = ?cr, hex = h\<rparr>]"
              by (auto simp: in_dir_def ctx_fit_def)
            have d2: "in_dir d base new anc (ctx\<lparr>entries := arr\<rparr>)"
              using Cons.prems(2) a(2) by (simp add: in_dir_def ctx_fit_def)
            show ?thesis
            proof (cases "r2 = 0")
              case True
              with call use Some cc Inr reg h ad
              have "walk_entries os garbage disk rel d ee names (ctx\<lparr>entries := arr\<rparr>) (s2\<lparr>errno := 0\<rparr>)
                = (r, ctx1, s1)" by simp
              from Cons.IH [OF this d2] a True l hex show ?thesis
                by (auto simp: out_kept_def)
            next
              case False
              with call use Some cc Inr reg h ad leave_dir_fit [OF in_dir_fit [OF d2], of d] a(1)
              show ?thesis by auto
            qed
          qed
        qed
      qed
    qed
  qed
qed

lemma walk_dir_ok:
  assumes "length garbage = 64"
  shows "walk_spec os garbage d"
proof (induction "TREEHASH_MAX_DEPTH - d" arbitrary: d)
  case 0
  then show ?case by (auto simp: walk_spec_def walk_dir.simps ctx_inv_def)
next
  case (Suc n)
  then have d: "d < TREEHASH_MAX_DEPTH" "TREEHASH_MAX_DEPTH - d = Suc n" "TREEHASH_MAX_DEPTH - (d + 1) = n" by simp_all
  from Suc.hyps(1) [of "d + 1"] d have sub: "walk_spec os garbage (d + 1)" by simp
  show ?case
    unfolding walk_spec_def
  proof (intro allI impI)
    fix disk rel ctx s r ctx1 s1
    assume call: "walk_dir os garbage disk rel d ctx s = (r, ctx1, s1)" and inv: "ctx_inv d ctx"
    let ?goal = "out_kept s s1 \<and> ctx_fit ctx1
        \<and> (r = 0 \<longrightarrow> ctx_inv d ctx1 \<and> rule_items (rules ctx1) = rule_items (rules ctx)
             \<and> take d (ancestors ctx1) = take d (ancestors ctx)
             \<and> items (entries ctx1) = items (entries ctx)
                 @ listing os (TREEHASH_MAX_DEPTH - d) d (rule_items (rules ctx)) disk rel)"
    obtain res ctx2 s2 where en: "enter_dir os ctx disk rel d s = (res, ctx2, s2)" by (metis prod_cases3)
    note e = enter_dir_ok [OF en inv d(1)]
    show ?goal
    proof (cases res)
      case (Inl r2)
      with call en d e show ?thesis by (simp add: walk_dir.simps)
    next
      case (Inr ne)
      obtain names ee where ne: "ne = (names, ee)" by fastforce
      from e Inr ne obtain anc where a: "take d anc = take d (ancestors ctx)"
        "in_dir d (rule_items (rules ctx)) (dir_rules os disk rel d) anc ctx2" "entries ctx2 = entries ctx"
        "names_of os disk = names" "out_kept s s2" by blast
      from call en Inr ne d have "walk_entries os garbage disk rel d ee names ctx2 (s2\<lparr>errno := 0\<rparr>) = (r, ctx1, s1)"
        by (simp add: walk_dir.simps)
      from walk_entries_ok [OF sub assms this a(2)] a d(2,3) show ?thesis
        by (auto simp: Let_def out_kept_def)
    qed
  qed
qed

end
