(* ===== verification/Treehash.thy ===== *)
theory Treehash
  imports Treehash_Correct
begin

text \<open>
  \<open>main\<close> of \<open>src/treehash.c\<close>: command line, normalisation of the operand, walk, sorting, root and
  manifest; and the properties of the program.
\<close>

section \<open>The code\<close>

text \<open>The loop of \<open>has_dotdot_segment\<close>; \<open>prev\<close> is the byte before \<open>p\<close>, if there is one.\<close>

fun dotdot_from :: "char option \<Rightarrow> cstr \<Rightarrow> bool" where
  "dotdot_from prev [] = False"
| "dotdot_from prev (c # p) =
     (if c = CHR ''.'' \<and> take 1 p = ''.''
         \<and> (prev = None \<or> prev = Some CHR ''/'') \<and> (length p = 1 \<or> p ! 1 = CHR ''/'')
      then True else dotdot_from (Some c) p)"

definition has_dotdot_segment :: "cstr \<Rightarrow> bool" where
  "has_dotdot_segment path = dotdot_from None path"

text \<open>The loop that shortens \<open>norm_dir\<close>.\<close>

function trim_dir :: "cstr \<Rightarrow> cstr" where
  "trim_dir p =
     (if length p > 1 then
        (if p ! (length p - 1) = CHR ''/'' then trim_dir (take (length p - 1) p)
         else if p ! (length p - 2) = CHR ''/'' \<and> p ! (length p - 1) = CHR ''.''
         then trim_dir (take (length p - 2) p)
         else p)
      else p)"
  by pat_completeness auto
termination by (relation "measure length") auto

declare trim_dir.simps [simp del]

definition normalise :: "cstr \<Rightarrow> cstr" where
  "normalise raw = (let p = trim_dir raw in if length p = 0 then ''.'' else p)"

definition USAGE :: cstr where
  "USAGE = ''Usage: treehash [OPTIONS] [WORKSPACE_DIR]'' @ [LF] @ [LF]
     @ ''Compute deterministic SHA-256 Merkle tree root hash and pin manifest.'' @ [LF] @ [LF]
     @ ''Options:'' @ [LF]
     @ ''  --help     Display this help and exit'' @ [LF]
     @ ''  --version  Output version information and exit'' @ [LF]"

text \<open>The loop over \<open>argv\<close>: \<open>Inl\<close> is a return, \<open>Inr\<close> the operand.\<close>

fun parse_args :: "nat \<Rightarrow> cstr list \<Rightarrow> cstr option \<Rightarrow> io \<Rightarrow> int \<times> io + cstr option" where
  "parse_args argc [] raw s = Inr raw"
| "parse_args argc (a # as) raw s =
     (if strcmp a ''--help'' = 0 then
        (if argc = 2 then Inl (0, ignore_result (c_write Stdout USAGE) s)
         else Inl (2, ignore_result (c_write Stderr
           (''treehash: cannot combine '' @ [SQ] @ ''--help'' @ [SQ] @ '' with operands or other options'' @ [LF])) s))
      else if strcmp a ''--version'' = 0 then
        (if argc = 2 then Inl (0, ignore_result (c_write Stdout (''treehash 0.1.0'' @ [LF])) s)
         else Inl (2, ignore_result (c_write Stderr
           (''treehash: cannot combine '' @ [SQ] @ ''--version'' @ [SQ] @ '' with operands or other options'' @ [LF])) s))
      else if take 1 a = ''-'' then
        Inl (2, print_diag_path (''treehash: unknown option '' @ [SQ]) a [SQ, LF] s)
      else
        (case raw of
           None \<Rightarrow> parse_args argc as (Some a) s
         | Some r \<Rightarrow> Inl (2, ignore_result (c_write Stderr
             (''treehash: too many arguments; expected at most one workspace directory'' @ [LF])) s)))"

definition calloc_context :: TreehashContext where
  "calloc_context =
     \<lparr>entries = \<lparr>items = [], capacity = 0\<rparr>, rules = \<lparr>rule_items = [], rule_capacity = 0\<rparr>,
      ancestors = replicate TREEHASH_MAX_DEPTH (0, 0), ancestor_count = 0\<rparr>"

text \<open>\<open>qsort\<close> with \<open>compare_file_entries\<close>, which compares as \<open>strcmp\<close> does.\<close>

definition sort_entries :: "FileEntry list \<Rightarrow> FileEntry list" where
  "sort_entries es = sort_key rel_path es"

fun print_entries :: "FileEntry list \<Rightarrow> io \<Rightarrow> int \<times> io" where
  "print_entries [] s = (0, s)"
| "print_entries (e # es) s =
     (case c_write Stdout (hex e @ ''  '' @ rel_path e @ [LF]) s of
        (r, s1) \<Rightarrow> if r < 0 then (2, s1) else print_entries es s1)"

text \<open>\<open>main\<close> from the walk on.\<close>

definition report :: "char list \<Rightarrow> FileEntry list \<Rightarrow> io \<Rightarrow> int \<times> io" where
  "report garbage found s =
     (let es = (if length found > 0 then sort_entries found else found) in
      case compute_merkle_root garbage es s of
        (None, s1) \<Rightarrow> (2, s1)
      | (Some root_hex, s1) \<Rightarrow>
          (case c_write Stdout (''ROOT '' @ root_hex @ [LF]) s1 of
             (r, s2) \<Rightarrow>
               if r < 0 then (2, s2)
               else
                 (case print_entries es s2 of
                    (r1, s3) \<Rightarrow>
                      if r1 \<noteq> 0 then (2, s3)
                      else
                        (case c_fflush Stdout s3 of
                           (r2, s4) \<Rightarrow> if r2 \<noteq> 0 \<or> c_ferror Stdout s4 then (2, s4) else (0, s4)))))"

text \<open>\<open>main\<close> after the loop over \<open>argv\<close>.\<close>

definition run :: "tree_os \<Rightarrow> char list \<Rightarrow> cstr \<Rightarrow> io \<Rightarrow> int \<times> io" where
  "run os garbage raw s =
     (if raw = [] then
        (2, ignore_result (c_write Stderr (''treehash: invalid empty workspace directory'' @ [LF])) s)
      else if has_dotdot_segment raw then
        (2, print_diag_path (''treehash: PATH_ESCAPE: '' @ [DQ]) raw [DQ, LF] s)
      else if length raw \<ge> PATH_MAX then (2, path_length_exceeded s)
      else
        (let norm_dir = normalise raw in
         case lstat_of os norm_dir of
           Inl e \<Rightarrow> (2, cannot ''access'' raw (s\<lparr>errno := e\<rparr>))
         | Inr st \<Rightarrow>
             if \<not> S_ISDIR (st_mode st)
             then (2, print_diag_path (''treehash: '' @ [SQ]) raw (SQ # '': Not a directory'' @ [LF]) s)
             else
               (case c_malloc s of
                  (ok, s1) \<Rightarrow>
                    if \<not> ok then (2, out_of_memory s1)
                    else
                      (case walk_dir os garbage norm_dir [] 0 calloc_context s1 of
                         (walk_res, ctx, s2) \<Rightarrow>
                           if walk_res \<noteq> 0 then (2, s2)
                           else report garbage (items (entries ctx)) s2))))"

definition main :: "tree_os \<Rightarrow> char list \<Rightarrow> cstr list \<Rightarrow> io \<Rightarrow> int \<times> io" where
  "main os garbage argv s =
     (case parse_args (length argv) (tl argv) None s of
        Inl result \<Rightarrow> result
      | Inr raw \<Rightarrow> run os garbage (case raw of None \<Rightarrow> ''.'' | Some r \<Rightarrow> r) s)"

section \<open>What the report says\<close>

definition tree_entries :: "tree_os \<Rightarrow> cstr \<Rightarrow> FileEntry list" where
  "tree_entries os dir = sort_entries (listing os TREEHASH_MAX_DEPTH 0 [] dir [])"

definition manifest :: "FileEntry list \<Rightarrow> cstr" where
  "manifest es = concat (map (\<lambda>e. hex e @ ''  '' @ rel_path e @ [LF]) es)"

definition report_text :: "FileEntry list \<Rightarrow> cstr" where
  "report_text es = ''ROOT '' @ hex_of (merkle_root es) @ [LF] @ manifest es"

lemma listing_wf: "wf_entries (listing os n d rs disk rel)"
proof (induction n arbitrary: d rs disk rel)
  case (Suc n)
  have "wf_entries (name_listing os (listing os n (d + 1) rs1) rs1 disk rel name)" for rs1 name
    using Suc.IH [of "d + 1" rs1] by (auto simp: name_listing_def wf_entries_def Let_def split: sum.splits if_splits)
  then show ?case by (auto simp: wf_entries_def Let_def)
qed (simp add: wf_entries_def)

lemma sort_entries_set [simp]: "set (sort_entries es) = set es" "sort_entries [] = []"
  "length (sort_entries es) = length es"
  by (simp_all add: sort_entries_def)

lemma tree_entries_wf: "wf_entries (tree_entries os dir)"
  using listing_wf by (simp add: tree_entries_def wf_entries_def)

lemma print_entries_write:
  "print_entries es s = (r, s1) \<Longrightarrow> (r = 0 \<and> c_write Stdout (manifest es) s = (0, s1)) \<or> r = 2"
proof (induction es arbitrary: s)
  case (Cons e es)
  let ?l = "hex e @ ''  '' @ rel_path e @ [LF]"
  obtain r2 s2 where w: "c_write Stdout ?l s = (r2, s2)" by fastforce
  then consider "r2 = 0" | "r2 = -1" using c_write_result by blast
  then show ?case
  proof cases
    case 1
    from Cons.prems w 1 have "print_entries es s2 = (r, s1)" by simp
    from Cons.IH [OF this] c_write_append [where st = Stdout and t = ?l and s = s and u = "manifest es"] w 1
    show ?thesis by (auto simp: manifest_def)
  next
    case 2
    with Cons.prems w show ?thesis by simp
  qed
qed (simp add: manifest_def)

lemma report_status:
  assumes "report garbage found s = (status, s1)" and "length garbage = 64" and "wf_entries found"
  shows "status = 2 \<or> status = 0 \<and> text_of Stdout s1 = text_of Stdout s @ report_text (sort_entries found)
    \<and> \<not> ferr (out s1) \<and> flush_errno (out s1) = None"
proof -
  let ?es = "sort_entries found"
  have es: "(if length found > 0 then ?es else found) = ?es" by simp
  note rep = assms(1) [unfolded report_def Let_def es]
  have wf: "wf_entries ?es" using assms(3) by (simp add: wf_entries_def)
  obtain c s2 where c: "compute_merkle_root garbage ?es s = (c, s2)" by fastforce
  show ?thesis
  proof (cases c)
    case None
    with rep c show ?thesis by simp
  next
    case (Some root)
    with compute_merkle_root_ok [OF assms(2) wf] c have root: "root = hex_of (merkle_root ?es)" by blast
    have keep: "text_of Stdout s2 = text_of Stdout s"
      using compute_merkle_root_out [of s garbage ?es] c by (simp add: text_of_def out_kept_def)
    obtain r s3 where w: "c_write Stdout (''ROOT '' @ root @ [LF]) s2 = (r, s3)" by fastforce
    obtain r1 s4 where p: "print_entries ?es s3 = (r1, s4)" by fastforce
    have pw: "c_write Stdout (manifest ?es) s3 = (0, s4) \<and> r1 = 0 \<or> r1 = 2"
      using print_entries_write [OF p] by blast
    have w0: "r = 0 \<or> r = -1" using w c_write_result by blast
    show ?thesis
    proof (cases "status = 2")
      case False
      with rep c Some w p w0 pw have ok: "r = 0" "r1 = 0"
        by (auto split: if_splits)
      with pw have m: "c_write Stdout (manifest ?es) s3 = (0, s4)" by auto
      from c_write_done [OF w [unfolded ok(1)]] c_write_done [OF m] keep root
      have "text_of Stdout s4 = text_of Stdout s @ report_text ?es" by (simp add: report_text_def)
      moreover from rep c Some w p ok False have
        "status = 0 \<and> s1 = s4 \<and> \<not> ferr (out s4) \<and> flush_errno (out s4) = None"
        by (auto simp: c_fflush_def c_ferror_def split: if_splits option.splits)
      ultimately show ?thesis by simp
    qed simp
  qed
qed

lemma run_status:
  assumes "run os garbage raw s = (status, s1)" and "length garbage = 64"
  shows "status = 2 \<or> status = 0 \<and> text_of Stdout s1 = text_of Stdout s @ report_text (tree_entries os (normalise raw))
    \<and> \<not> ferr (out s1) \<and> flush_errno (out s1) = None"
proof (cases "status = 2")
  case False
  with assms(1) obtain s2 s3 ctx where m: "c_malloc s = (True, s2)"
    and w: "walk_dir os garbage (normalise raw) [] 0 calloc_context s2 = (0, ctx, s3)"
    and r: "report garbage (items (entries ctx)) s3 = (status, s1)"
    by (auto simp: run_def Let_def split: if_splits sum.splits prod.splits)
  have "ctx_inv 0 calloc_context"
    by (simp add: ctx_inv_def ctx_fit_def calloc_context_def rules_fit_def)
  from walk_dir_ok [OF assms(2), of os 0, unfolded walk_spec_def, rule_format, OF w this]
  have found: "items (entries ctx) = listing os TREEHASH_MAX_DEPTH 0 [] (normalise raw) []" and "out_kept s2 s3"
    by (simp_all add: calloc_context_def)
  moreover note out_kept_malloc [OF m]
  ultimately have "text_of Stdout s3 = text_of Stdout s" by (simp add: out_kept_def text_of_def)
  with report_status [OF r assms(2)] found listing_wf show ?thesis
    by (simp add: tree_entries_def)
qed simp

definition operand :: "cstr list \<Rightarrow> cstr" where
  "operand argv = (if length argv \<le> 1 then ''.'' else argv ! 1)"

definition informational :: "cstr list \<Rightarrow> bool" where
  "informational argv \<longleftrightarrow> length argv = 2 \<and> (argv ! 1 = ''--help'' \<or> argv ! 1 = ''--version'')"

lemma main_cases:
  assumes "main os garbage argv s = (status, s1)" and "\<not> informational argv"
  shows "status = 2 \<or> run os garbage (operand argv) s = (status, s1)"
proof -
  consider "tl argv = []" | a where "tl argv = [a]" | a b as where "tl argv = a # b # as"
    by (cases "tl argv"; cases "tl (tl argv)") auto
  then show ?thesis
  proof cases
    case 1
    then have "length argv \<le> 1" by (cases argv) auto
    with 1 assms show ?thesis by (simp add: main_def operand_def)
  next
    case 2
    then obtain p where p: "argv = [p, a]" by (cases argv) auto
    with assms show ?thesis
      by (auto simp: main_def operand_def informational_def split: if_splits)
  next
    case 3
    then obtain p where p: "argv = p # a # b # as" by (cases argv) auto
    with assms show ?thesis
      by (auto simp: main_def split: if_splits)
  qed
qed

lemma main_reports:
  assumes "main os garbage argv s = (status, s1)" and "\<not> informational argv" and "length garbage = 64"
  shows "status = 2 \<or> status = 0
    \<and> text_of Stdout s1 = text_of Stdout s @ report_text (tree_entries os (normalise (operand argv)))
    \<and> \<not> ferr (out s1) \<and> flush_errno (out s1) = None"
  using main_cases [OF assms(1,2)] run_status [OF _ assms(3)] by blast

lemma print_entries_quiet: "quiet Stdout s \<Longrightarrow> print_entries es s = (0, emit Stdout (manifest es) s)"
proof (induction es arbitrary: s)
  case Nil
  then show ?case by (simp add: manifest_def emit_def)
next
  case (Cons e es)
  then show ?case by (simp add: c_write_quiet manifest_def)
qed

lemma report_completes:
  assumes "faultless s" and "length garbage = 64" and "wf_entries found" and "length found \<le> SIZE_MAX div 32"
  shows "report garbage found s = (0, emit Stdout (report_text (sort_entries found)) s)"
proof -
  let ?es = "sort_entries found"
  note f = faultlessD [OF assms(1)]
  have es: "(if length found > 0 then ?es else found) = ?es" by simp
  have "wf_entries ?es" "length ?es \<le> SIZE_MAX div 32" using assms(3,4) by (simp_all add: wf_entries_def)
  from compute_merkle_root_faultless [OF assms(2) this(1) f(3) this(2)]
  have root: "compute_merkle_root garbage ?es s = (Some (hex_of (merkle_root ?es)), s)" .
  have e: "faultless (emit Stdout t s)" for t using assms(1) by simp
  show ?thesis
    unfolding report_def Let_def es root
    using f(1) faultlessD(5,6) [OF e]
    by (simp add: c_write_quiet print_entries_quiet report_text_def)
qed

lemma main_informational:
  assumes "main os garbage argv s = (status, s1)" and "informational argv"
  shows "status = 0"
proof -
  from assms(2) obtain p a where "argv = [p, a]" "a = ''--help'' \<or> a = ''--version''"
    by (cases argv; cases "tl argv") (auto simp: informational_def)
  with assms(1) show ?thesis by (auto simp: main_def)
qed

section \<open>The files of a tree\<close>







section \<open>The order of readdir\<close>

text \<open>Two file systems that differ in the order in which \<open>readdir\<close> returns names only.\<close>

definition same_tree :: "tree_os \<Rightarrow> tree_os \<Rightarrow> bool" where
  "same_tree os1 os2 \<longleftrightarrow> lstat_of os1 = lstat_of os2 \<and> open_of os1 = open_of os2
     \<and> fopen_of os1 = fopen_of os2 \<and> fnmatch_of os1 = fnmatch_of os2
     \<and> (\<forall>p. mset (names_of os1 p) = mset (names_of os2 p))"

text \<open>\<open>readdir\<close> never returns an empty name.\<close>

definition proper_names :: "tree_os \<Rightarrow> bool" where
  "proper_names os \<longleftrightarrow> (\<forall>p. [] \<notin> set (names_of os p))"

lemma mset_concat_map:
  assumes "mset xs = mset ys" and "\<And>x. mset (f x) = mset (g x)"
  shows "mset (concat (map f xs)) = mset (concat (map g ys))"
proof -
  have m: "mset (concat (map h zs)) = \<Sum>\<^sub># (image_mset (\<lambda>x. mset (h x)) (mset zs))"
    for h :: "'a \<Rightarrow> 'b list" and zs
    by (induction zs) simp_all
  show ?thesis unfolding m assms(1) assms(2) ..
qed

lemma listing_perm:
  assumes "same_tree os1 os2"
  shows "mset (listing os1 n d rs disk rel) = mset (listing os2 n d rs disk rel)"
proof (induction n arbitrary: d rs disk rel)
  case (Suc n)
  from assms have same: "lstat_of os1 = lstat_of os2" "open_of os1 = open_of os2" "fopen_of os1 = fopen_of os2"
    "fnmatch_of os1 = fnmatch_of os2" "mset (names_of os1 p) = mset (names_of os2 p)" for p
    by (simp_all add: same_tree_def)
  have r: "dir_rules os1 disk rel d = dir_rules os2 disk rel d" unfolding dir_rules_def same ..
  have h: "file_hex os1 p = file_hex os2 p" for p unfolding file_hex_def file_content_def same ..
  have "mset (name_listing os1 (listing os1 n (d + 1) rs1) rs1 disk rel name)
      = mset (name_listing os2 (listing os2 n (d + 1) rs1) rs1 disk rel name)" for rs1 name
    unfolding name_listing_def Let_def h same using Suc.IH by (simp split: sum.split)
  then show ?case
    using same unfolding listing.simps Let_def r by (intro mset_concat_map) simp_all
qed simp

text \<open>The path below the root determines the digest.\<close>

lemma listing_hex:
  assumes "proper_names os" and "disk = (if rel = [] then root else join_path root rel)"
    and "e \<in> set (listing os n d rs disk rel)"
  shows "hex e = file_hex os (join_path root (rel_path e))"
  using assms(2,3)
proof (induction n arbitrary: d rs disk rel)
  case (Suc n)
  from Suc.prems obtain name rs1 where n: "name \<in> set (names_of os disk)"
    and e: "e \<in> set (name_listing os (listing os n (d + 1) rs1) rs1 disk rel name)"
    by (auto simp: Let_def)
  have "name \<noteq> []" using n assms(1) by (auto simp: proper_names_def)
  then have j: "join_path disk name = join_path root (child_rel rel name)" "child_rel rel name \<noteq> []"
    using Suc.prems(1) by (auto simp: join_path_def child_rel_def)
  from e show ?case
    using Suc.IH [of "join_path disk name" "child_rel rel name" "d + 1" rs1] j
    by (auto simp: name_listing_def Let_def split: sum.splits if_splits)
qed simp

lemma sort_key_mset_eq:
  assumes "mset xs = mset ys" and "inj_on f (set xs)"
  shows "sort_key f xs = sort_key f ys"
proof (rule properties_for_sort_key)
  fix k assume k: "k \<in> set (sort_key f ys)"
  have set: "set xs = set ys" using assms(1) by (rule mset_eq_setD)
  have "filter (\<lambda>x. f k = f x) zs = replicate (count (mset xs) k) k" if "mset zs = mset xs" for zs
  proof -
    have "filter (\<lambda>x. f k = f x) zs = filter (\<lambda>x. x = k) zs"
      using k set assms(2) mset_eq_setD [OF that] by (intro filter_cong) (auto dest: inj_onD)
    also have "\<dots> = replicate (count (mset zs) k) k" by (induction zs) auto
    finally show ?thesis using that by simp
  qed
  with assms(1) show "filter (\<lambda>x. f k = f x) (sort_key f ys) = filter (\<lambda>x. f k = f x) xs" by simp
qed (use assms in simp_all)

lemma tree_entries_order:
  assumes "same_tree os1 os2" and "proper_names os1"
  shows "tree_entries os1 dir = tree_entries os2 dir"
proof -
  let ?l = "listing os1 TREEHASH_MAX_DEPTH 0 [] dir []"
  have "inj_on rel_path (set ?l)"
  proof (rule inj_onI)
    fix e f assume "e \<in> set ?l" "f \<in> set ?l" "rel_path e = rel_path f"
    with listing_hex [OF assms(2), of dir "[]" dir] show "e = f" by simp
  qed
  with listing_perm [OF assms(1)] show ?thesis
    unfolding tree_entries_def sort_entries_def by (intro sort_key_mset_eq) simp_all
qed

section \<open>Operands\<close>

fun segments :: "cstr \<Rightarrow> cstr list" where
  "segments [] = [[]]"
| "segments (c # p) =
     (if c = CHR ''/'' then [] # segments p
      else (c # hd (segments p)) # tl (segments p))"

definition proper_segments :: "cstr \<Rightarrow> cstr list" where
  "proper_segments p = filter (\<lambda>x. x \<noteq> [] \<and> x \<noteq> ''.'') (segments p)"

lemma segments_not_Nil [simp]: "segments p \<noteq> []"
  by (cases p) simp_all

lemma hd_segments: "hd (segments p) = takeWhile (\<lambda>c. c \<noteq> CHR ''/'') p"
  by (induction p) simp_all

lemma segments_append: "segments (p @ CHR ''/'' # q) = segments p @ segments q"
  by (induction p) simp_all

lemma dotdot_segments:
  "dotdot_from prev p \<longleftrightarrow>
     ''..'' \<in> set (if prev = None \<or> prev = Some CHR ''/'' then segments p else tl (segments p))"
proof (induction p arbitrary: prev)
  case (Cons c p)
  show ?case
  proof (cases "c = CHR ''/''")
    case True
    with Cons.IH [of "Some c"] show ?thesis by simp
  next
    case False
    have "(take 1 p = ''.'' \<and> (length p = 1 \<or> p ! 1 = CHR ''/'')) \<longleftrightarrow> hd (segments p) = ''.''"
      by (cases p; cases "tl p") (auto simp: hd_segments)
    with False Cons.IH [of "Some c"] show ?thesis by auto
  qed
qed simp

lemma trim_dir_segments: "proper_segments (trim_dir p) = proper_segments p"
proof (induction p rule: trim_dir.induct)
  case (1 p)
  show ?case
  proof (cases "length p > 1")
    case long: True
    show ?thesis
    proof (cases "p ! (length p - 1) = CHR ''/''")
      case True
      have "p = take (length p - 1) p @ [CHR ''/'']"
        using long True by (metis One_nat_def Suc_pred' append_take_drop_id id_take_nth_drop less_imp_diff_less
            Cons_nth_drop_Suc drop_all order.refl lessI zero_less_one order_less_trans diff_Suc_less)
      then have "segments p = segments (take (length p - 1) p) @ [[]]"
        by (metis segments.simps(1) segments_append)
      with "1.IH"(1) [OF long True] long True show ?thesis
        by (simp add: trim_dir.simps [of p] proper_segments_def)
    next
      case nslash: False
      show ?thesis
      proof (cases "p ! (length p - 2) = CHR ''/'' \<and> p ! (length p - 1) = CHR ''.''")
        case True
        have "length p - 2 < length p" "Suc (length p - 2) = length p - 1" "length p - 1 < length p" "Suc (length p - 1) = length p"
          using long by simp_all
        then have "p = take (length p - 2) p @ CHR ''/'' # ''.''"
          using True by (metis Cons_nth_drop_Suc append_take_drop_id drop_all order.refl)
        then have "segments p = segments (take (length p - 2) p) @ [''.'']"
          using segments_append [of "take (length p - 2) p" "''.''"] by simp
        with "1.IH"(2) [OF long nslash True] long True nslash show ?thesis
          by (simp add: trim_dir.simps [of p] proper_segments_def)
      next
        case False
        with nslash show ?thesis by (subst trim_dir.simps) auto
      qed
    qed
  next
    case False
    then show ?thesis by (simp add: trim_dir.simps [of p])
  qed
qed

lemma trim_dir_hd: "trim_dir p \<noteq> [] \<Longrightarrow> hd (trim_dir p) = hd p"
proof (induction p rule: trim_dir.induct)
  case (1 p)
  have t: "trim_dir [] = []" by (simp add: trim_dir.simps)
  have k: "take n p \<noteq> [] \<Longrightarrow> hd (take n p) = hd p" for n by (cases n; cases p) simp_all
  show ?case
    using 1 t k [of "length p - 1"] k [of "length p - 2"]
    by (cases "take (length p - 1) p = []"; cases "take (length p - 2) p = []")
      (auto simp: trim_dir.simps [of p] split: if_splits)
qed

section \<open>Properties\<close>

text \<open>
  C20. The streaming interface computes SHA-256: however a message is cut into updates, and
  whatever the uninitialised buffer holds, \<open>sha256_final\<close> returns the digest of the padded
  message.
\<close>

theorem sha256_streaming:
  assumes "length garbage = 64"
  shows "sha256_final (foldl sha256_update (sha256_init garbage) parts) = sha256 (concat parts)"
  using sha256_digest_concat [OF assms, of parts] by (simp only: sha256_digest_def)

theorem sha256_streaming_witness:
  "sha256_final (foldl sha256_update (sha256_init (replicate 64 CHR ''?'')) [''ab'', [], ''c'']) = sha256 ''abc''"
  using sha256_streaming [of "replicate 64 CHR ''?''" "[''ab'', [], ''c'']"] by simp

text \<open>
  C15. The root binds the manifest: two lists of entries for which \<open>compute_merkle_root\<close> returns
  the same root are equal, in number, order, paths and digests, or the two computations hash two
  different strings with the same SHA-256 digest.  This includes the constant root of the empty
  list and the odd nodes that are carried up unchanged.
\<close>

theorem merkle_binding:
  assumes "length garbage = 64" and "wf_entries es" and "wf_entries fs"
    and "compute_merkle_root garbage es s = (Some root, s1)"
    and "compute_merkle_root garbage fs t = (Some root, t1)"
  shows "es = fs \<or> (\<exists>x \<in> set (merkle_inputs es). \<exists>y \<in> set (merkle_inputs fs). x \<noteq> y \<and> sha256 x = sha256 y)"
proof -
  from compute_merkle_root_ok [OF assms(1,2,4)] compute_merkle_root_ok [OF assms(1,3,5)]
  have "merkle_root es = merkle_root fs" by (simp add: hex_of_inject)
  with merkle_root_inject [OF this assms(2,3)] show ?thesis by (auto simp: collision_def)
qed

definition sample_entry :: "cstr \<Rightarrow> FileEntry" where
  "sample_entry path = \<lparr>rel_path = path, hex = replicate 64 CHR ''0''\<rparr>"

lemma sample_entries_wf: "wf_entries (map sample_entry ps)"
  by (simp add: wf_entries_def sample_entry_def)

theorem merkle_binding_witness:
  "\<exists>root. compute_merkle_root (replicate 64 NUL) (map sample_entry [''a'', ''b'', ''c'']) clear_io = (Some root, clear_io)
    \<and> (map sample_entry [''a'', ''b'', ''c''] = map sample_entry [''a'', ''b'', ''c'']
       \<or> (\<exists>x \<in> set (merkle_inputs (map sample_entry [''a'', ''b'', ''c''])).
          \<exists>y \<in> set (merkle_inputs (map sample_entry [''a'', ''b'', ''c''])). x \<noteq> y \<and> sha256 x = sha256 y))"
proof -
  have "mem clear_io = None" "length (map sample_entry [''a'', ''b'', ''c'']) \<le> SIZE_MAX div 32"
    by (simp_all add: clear_io_def SIZE_MAX_def)
  from compute_merkle_root_faultless [OF length_replicate sample_entries_wf this]
  obtain root where r: "compute_merkle_root (replicate 64 NUL) (map sample_entry [''a'', ''b'', ''c'']) clear_io
      = (Some root, clear_io)" by blast
  with merkle_binding [OF length_replicate sample_entries_wf sample_entries_wf r r] show ?thesis by blast
qed

text \<open>
  C16. The walk refines the listing: called where the rules and ancestors are those of the
  directories above, \<open>walk_dir\<close> writes nothing to stdout and keeps both arrays within their
  capacities and the array of ancestors at 256 elements, whatever it returns; and when it returns
  0 it has appended exactly the entries of \<open>listing\<close> and restored the rules, the number of
  ancestors and the ancestors themselves.
\<close>

theorem walk_dir_refines:
  assumes "walk_dir os garbage disk rel d ctx s = (r, ctx1, s1)" and "ctx_inv d ctx" and "length garbage = 64"
  shows "out s1 = out s \<and> ctx_fit ctx1
    \<and> (r = 0 \<longrightarrow> ctx_inv d ctx1 \<and> rule_items (rules ctx1) = rule_items (rules ctx)
         \<and> take d (ancestors ctx1) = take d (ancestors ctx)
         \<and> items (entries ctx1) = items (entries ctx)
             @ listing os (TREEHASH_MAX_DEPTH - d) d (rule_items (rules ctx)) disk rel)"
  using walk_dir_ok [OF assms(3), of os d, unfolded walk_spec_def, rule_format, OF assms(1,2)]
  by (simp add: out_kept_def)


text \<open>
  C18. The verdict of a run can be trusted under every fault of the file system, the allocator
  and the streams: the status is 0 or 2, and with status 0 stdout has taken the root line and
  the complete manifest of the sorted entries of the tree, and was flushed.  The informational
  options are the exception: they exit with status 0 whatever becomes of their text.
\<close>

theorem treehash_sound:
  assumes "main os garbage argv s = (status, s1)" and "length garbage = 64"
  shows "if informational argv then status = 0
    else status = 2 \<or> status = 0
      \<and> text_of Stdout s1 = text_of Stdout s @ report_text (tree_entries os (normalise (operand argv)))
      \<and> \<not> ferr (out s1) \<and> flush_errno (out s1) = None"
  using main_reports [OF assms(1) _ assms(2)] main_informational [OF assms(1)] by simp

text \<open>
  C19. The output does not depend on the order in which \<open>readdir\<close> returns names: two runs with
  status 0 on file systems that differ in that order only append the same text to stdout.
\<close>

theorem readdir_order_irrelevant:
  assumes "same_tree os1 os2" and "proper_names os1" and "length garbage = 64" and "\<not> informational argv"
    and "main os1 garbage argv s = (0, s1)" and "main os2 garbage argv s = (0, s2)"
  shows "text_of Stdout s1 = text_of Stdout s2"
  using main_reports [OF assms(5,4,3)] main_reports [OF assms(6,4,3)] tree_entries_order [OF assms(1,2)] by simp

text \<open>
  C21. Operands: one with a segment \<open>..\<close> is refused without a look at the file system; otherwise
  normalisation keeps the segments other than empty ones and \<open>.\<close>, and keeps the path absolute
  unless nothing is left of it.  The exception is reached: \<open>/.\<close> becomes the current directory,
  while \<open>/\<close> stays the root directory.
\<close>

theorem operand_normalised:
  "(''..'' \<in> set (segments raw) \<longrightarrow> raw \<noteq> [] \<and> (\<exists>s1. run os garbage raw s = (2, s1) \<and> out s1 = out s))
   \<and> proper_segments (normalise raw) = proper_segments raw
   \<and> (trim_dir raw \<noteq> [] \<longrightarrow> (hd (normalise raw) = CHR ''/'' \<longleftrightarrow> hd raw = CHR ''/''))
   \<and> normalise ''/.'' = ''.'' \<and> normalise ''/'' = ''/''"
proof (intro conjI impI)
  assume dd: "''..'' \<in> set (segments raw)"
  then show "raw \<noteq> []" by auto
  with dd have "has_dotdot_segment raw" by (simp add: has_dotdot_segment_def dotdot_segments)
  with \<open>raw \<noteq> []\<close> show "\<exists>s1. run os garbage raw s = (2, s1) \<and> out s1 = out s"
    using out_kept_diag [of s _ _ _ s] by (simp add: run_def out_kept_def)
next
  show "proper_segments (normalise raw) = proper_segments raw"
    using trim_dir_segments [of raw] by (auto simp: normalise_def Let_def proper_segments_def)
next
  assume "trim_dir raw \<noteq> []"
  with trim_dir_hd [OF this] show "hd (normalise raw) = CHR ''/'' \<longleftrightarrow> hd raw = CHR ''/''"
    by (simp add: normalise_def Let_def)
qed (simp_all add: normalise_def trim_dir.simps Let_def)

section \<open>Closed examples\<close>

text \<open>A directory with one regular file, and the same with its names in another order.\<close>

definition sample_os :: "cstr list \<Rightarrow> tree_os" where
  "sample_os names =
     \<lparr>lstat_of = (\<lambda>p. if p = ''.'' then Inr \<lparr>st_mode = 16384, st_dev = 1, st_ino = 1, st_uid = 0\<rparr>
                      else if p = ''./a'' then Inr \<lparr>st_mode = 32768, st_dev = 1, st_ino = 2, st_uid = 0\<rparr>
                      else Inl 2),
      opendir_of = (\<lambda>p. if p = ''.'' then Inr (names, 0) else Inl 2),
      open_of = (\<lambda>p. Open_interrupted (Opened (Read_bytes ''hi'' (Read_interrupted Read_eof)) None)),
      fopen_of = (\<lambda>p. Inl 2), fnmatch_of = (\<lambda>p q f. 1)\<rparr>"

lemma sample_walk:
  assumes "names = [''.'', ''a'', ''..''] \<or> names = [''a'', ''..'', ''.'']"
  shows "\<exists>ctx s1. walk_dir (sample_os names) garbage ''.'' [] 0 calloc_context clear_io = (0, ctx, s1)
    \<and> length (items (entries ctx)) = 1 \<and> faultless s1"
  using assms
  by (elim disjE)
    (simp_all add: walk_dir.simps walk_entries.simps enter_dir_def sample_os_def calloc_context_def TREEHASH_MAX_DEPTH_def
      PATH_MAX_def skipped_name_def child_paths_def join_path_def child_rel_def is_path_ignored_def Let_def
      hash_file_sha256_def add_file_entry_def grow_array_def sizeof_FileEntry_def SIZE_MAX_def clear_io_def
      leave_dir_def pop_rules_def faultless_def quiet_def clear_stream_def)

lemma treehash_sample_run:
  assumes "names = [''.'', ''a'', ''..''] \<or> names = [''a'', ''..'', ''.'']" and "length garbage = 64"
  shows "\<exists>s1. main (sample_os names) garbage [''treehash''] clear_io = (0, s1)"
proof -
  from sample_walk [OF assms(1), of garbage] obtain ctx s1 where
    w: "walk_dir (sample_os names) garbage ''.'' [] 0 calloc_context clear_io = (0, ctx, s1)"
    and n: "length (items (entries ctx)) = 1" and f: "faultless s1" by blast
  have "ctx_inv 0 calloc_context"
    by (simp add: ctx_inv_def ctx_fit_def calloc_context_def rules_fit_def)
  from walk_dir_ok [OF assms(2), of _ 0, unfolded walk_spec_def, rule_format, OF w this]
  have "wf_entries (items (entries ctx))" using listing_wf by (simp add: calloc_context_def)
  from report_completes [OF f assms(2) this] n
  have "report garbage (items (entries ctx)) s1 = (0, emit Stdout (report_text (sort_entries (items (entries ctx)))) s1)"
    by (simp add: SIZE_MAX_def)
  moreover have "normalise ''.'' = ''.''" "\<not> has_dotdot_segment ''.''"
    by (simp_all add: normalise_def trim_dir.simps has_dotdot_segment_def)
  moreover have "lstat_of (sample_os names) ''.'' = Inr \<lparr>st_mode = 16384, st_dev = 1, st_ino = 1, st_uid = 0\<rparr>"
    by (simp add: sample_os_def)
  ultimately show ?thesis
    using w by (simp add: main_def run_def Let_def PATH_MAX_def clear_io_def)
qed

abbreviation sample_names :: "cstr list" where "sample_names \<equiv> [''.'', ''a'', ''..'']"

theorem treehash_sound_witness:
  "\<exists>s1. main (sample_os sample_names) (replicate 64 NUL) [''treehash''] clear_io = (0, s1)
     \<and> text_of Stdout s1 = report_text (tree_entries (sample_os sample_names) ''.'')"
proof -
  from treehash_sample_run [of sample_names "replicate 64 NUL"]
  obtain s1 where m: "main (sample_os sample_names) (replicate 64 NUL) [''treehash''] clear_io = (0, s1)" by auto
  have "\<not> informational [''treehash'']" "normalise (operand [''treehash'']) = ''.''" "text_of Stdout clear_io = []"
    by (simp_all add: informational_def operand_def normalise_def trim_dir.simps text_of_def clear_io_def clear_stream_def)
  with treehash_sound [OF m] m show ?thesis by simp
qed


theorem walk_dir_refines_witness:
  "\<exists>ctx s1. walk_dir (sample_os sample_names) (replicate 64 NUL) ''.'' [] 0 calloc_context clear_io = (0, ctx, s1)
     \<and> items (entries ctx) = listing (sample_os sample_names) TREEHASH_MAX_DEPTH 0 [] ''.'' []"
proof -
  from sample_walk [of sample_names "replicate 64 NUL"] obtain ctx s1 where
    w: "walk_dir (sample_os sample_names) (replicate 64 NUL) ''.'' [] 0 calloc_context clear_io = (0, ctx, s1)" by auto
  have "ctx_inv 0 calloc_context"
    by (simp add: ctx_inv_def ctx_fit_def calloc_context_def rules_fit_def)
  from walk_dir_refines [OF w this] w show ?thesis by (simp add: calloc_context_def)
qed

theorem readdir_order_irrelevant_witness:
  "\<exists>s1 s2. main (sample_os sample_names) (replicate 64 NUL) [''treehash''] clear_io = (0, s1)
     \<and> main (sample_os [''a'', ''..'', ''.'']) (replicate 64 NUL) [''treehash''] clear_io = (0, s2)
     \<and> text_of Stdout s1 = text_of Stdout s2"
proof -
  from treehash_sample_run [of sample_names "replicate 64 NUL"]
  obtain s1 where m1: "main (sample_os sample_names) (replicate 64 NUL) [''treehash''] clear_io = (0, s1)" by auto
  from treehash_sample_run [of "[''a'', ''..'', ''.'']" "replicate 64 NUL"]
  obtain s2 where m2: "main (sample_os [''a'', ''..'', ''.'']) (replicate 64 NUL) [''treehash''] clear_io = (0, s2)" by auto
  have "same_tree (sample_os sample_names) (sample_os [''a'', ''..'', ''.''])" "proper_names (sample_os sample_names)"
    "\<not> informational [''treehash'']"
    by (auto simp: same_tree_def proper_names_def informational_def sample_os_def names_of_def)
  from readdir_order_irrelevant [OF this(1,2) length_replicate this(3) m1 m2] m1 m2 show ?thesis by blast
qed

theorem operand_normalised_witness:
  "(\<exists>s1. run (sample_os []) [] ''a/../b'' clear_io = (2, s1) \<and> out s1 = out clear_io)
   \<and> hd (normalise ''/a/.'') = CHR ''/''"
proof -
  have "''..'' \<in> set (segments ''a/../b'')" by simp
  moreover have "trim_dir ''/a/.'' = ''/a''" by (simp add: trim_dir.simps)
  ultimately show ?thesis
    using operand_normalised [of "''a/../b''" "sample_os []" "[]" clear_io] operand_normalised [of "''/a/.''" "sample_os []" "[]" clear_io]
    by simp
qed

end
