(* ===== verification/Probing.thy ===== *)
theory Probing
  imports Prelude
begin

text \<open>
  Linear probing in a table of slots whose size is a power of two, as \<open>src/pathaudit.c\<close> writes
  it out for its two indexes: an empty slot holds \<open>SIZE_MAX\<close>, any other slot the position of an
  item.  The probe loops of the code need not end on an arbitrary table (they are
  \<open>partial_function (option)\<close>, \<open>None\<close> is a loop that never returns); on a table that meets
  \<open>table_ok\<close> they do, and find what a search of the items finds.
\<close>

unbundle bit_operations_syntax

section \<open>The loops\<close>

text \<open>\<open>while (slots[slot] != SIZE_MAX) slot = (slot + 1) & mask;\<close>\<close>

partial_function (option) probe_free :: "nat list \<Rightarrow> nat \<Rightarrow> nat option" where
  "probe_free slots slot =
     (if slots ! slot \<noteq> SIZE_MAX then probe_free slots ((slot + 1) AND (length slots - 1)) else Some slot)"

text \<open>
  The search loop: it ends at an empty slot (\<open>Some None\<close>) or at an item that is a hit
  (\<open>Some (Some idx)\<close>).
\<close>

partial_function (option) probe_find :: "(nat \<Rightarrow> bool) \<Rightarrow> nat list \<Rightarrow> nat \<Rightarrow> nat option option" where
  "probe_find hit slots slot =
     (let idx = slots ! slot in
      if idx = SIZE_MAX then Some None
      else if hit idx then Some (Some idx)
      else probe_find hit slots ((slot + 1) AND (length slots - 1)))"

text \<open>The loop of a rehash, which enters the items with the hash values \<open>hs\<close> from position \<open>i\<close> on.\<close>

fun fill_slots :: "nat list \<Rightarrow> nat \<Rightarrow> nat list \<Rightarrow> nat list option" where
  "fill_slots [] i slots = Some slots"
| "fill_slots (h # hs) i slots =
     (case probe_free slots (h AND (length slots - 1)) of
        None \<Rightarrow> None
      | Some slot \<Rightarrow> fill_slots hs (i + 1) (slots[slot := i]))"

text \<open>\<open>while (new_cap / 2 < len)\<close>: the new capacity, or \<open>Some None\<close> for \<open>return false\<close>.\<close>

partial_function (option) grow_cap :: "nat \<Rightarrow> nat \<Rightarrow> nat option option" where
  "grow_cap used new_cap =
     (if new_cap div 2 < used then
        (if new_cap > SIZE_MAX div 2 then Some None else grow_cap used (new_cap * 2))
      else Some (Some new_cap))"

section \<open>Well-formed tables\<close>

definition at :: "nat list \<Rightarrow> nat \<Rightarrow> nat \<Rightarrow> nat" where
  "at sl h n = sl ! ((h + n) mod length sl)"

definition pow2 :: "nat \<Rightarrow> bool" where
  "pow2 c \<longleftrightarrow> (\<exists>k. c = 2 ^ k)"

definition occupied :: "nat list \<Rightarrow> nat set" where
  "occupied sl = {p. p < length sl \<and> sl ! p \<noteq> SIZE_MAX}"

text \<open>
  The table holds the items with the hash values \<open>hs\<close>: every item can be reached from its home
  slot over slots that are not empty, and every slot that is not empty holds the position of an
  item.
\<close>

definition table_ok :: "nat list \<Rightarrow> nat list \<Rightarrow> bool" where
  "table_ok hs sl \<longleftrightarrow> pow2 (length sl) \<and> length hs < SIZE_MAX \<and> card (occupied sl) = length hs
     \<and> (\<forall>p \<in> occupied sl. sl ! p < length hs)
     \<and> (\<forall>i < length hs. \<exists>n. at sl (hs ! i) n = i \<and> (\<forall>m < n. at sl (hs ! i) m \<noteq> SIZE_MAX))"

lemma pow2_pos: "pow2 c \<Longrightarrow> 0 < c"
  by (auto simp: pow2_def)

lemma and_mask: "pow2 c \<Longrightarrow> x AND (c - 1) = x mod (c :: nat)"
  by (auto simp: pow2_def take_bit_eq_mod [symmetric] take_bit_eq_mask mask_eq_exp_minus_1)

lemma pow2_and:
  assumes "c \<noteq> 0" and "c AND (c - 1) = (0 :: nat)"
  shows "pow2 c"
proof -
  obtain k where k: "2 ^ k \<le> c" "c < 2 ^ Suc k"
    using ex_power_ivl1 [of 2 c] assms(1) by auto
  show ?thesis
  proof (cases "c = 2 ^ k")
    case True
    then show ?thesis by (auto simp: pow2_def)
  next
    case False
    with k have "drop_bit k c = 1" "drop_bit k (c - 1) = 1"
      by (auto simp: drop_bit_eq_div div_nat_eqI)
    then have "bit c k" "bit (c - 1) k" by (simp_all add: bit_iff_odd_drop_bit)
    then have "bit (c AND (c - 1)) k" by (simp add: bit_and_iff)
    with assms(2) show ?thesis by simp
  qed
qed

lemma next_slot: "pow2 (length sl) \<Longrightarrow> ((h + n) mod length sl + 1) AND (length sl - 1) = (h + Suc n) mod length sl"
  using and_mask [of "length sl" "(h + n) mod length sl + 1"] by (simp add: mod_simps)

lemma probe_free_at:
  assumes "pow2 (length sl)" and "at sl h (n + k) = SIZE_MAX" and "\<forall>m < k. at sl h (n + m) \<noteq> SIZE_MAX"
  shows "probe_free sl ((h + n) mod length sl) = Some ((h + (n + k)) mod length sl)"
  using assms(2,3)
proof (induction k arbitrary: n)
  case 0
  then show ?case by (subst probe_free.simps) (simp add: at_def)
next
  case (Suc k)
  have "\<forall>m < k. at sl h (Suc n + m) \<noteq> SIZE_MAX" using Suc.prems(2) by (metis Suc_mono add_Suc_shift)
  with Suc.IH [of "Suc n"] Suc.prems(1) have
    "probe_free sl ((h + Suc n) mod length sl) = Some ((h + (n + Suc k)) mod length sl)" by simp
  moreover have "sl ! ((h + n) mod length sl) \<noteq> SIZE_MAX" using Suc.prems(2) by (auto simp: at_def)
  ultimately show ?case
    using next_slot [OF assms(1), of h n] by (subst probe_free.simps) simp
qed

lemma probe_find_at:
  assumes "pow2 (length sl)" and "at sl h (n + k) = SIZE_MAX \<or> hit (at sl h (n + k))"
    and "\<forall>m < k. at sl h (n + m) \<noteq> SIZE_MAX \<and> \<not> hit (at sl h (n + m))"
  shows "probe_find hit sl ((h + n) mod length sl) =
    Some (if at sl h (n + k) = SIZE_MAX then None else Some (at sl h (n + k)))"
  using assms(2,3)
proof (induction k arbitrary: n)
  case 0
  then show ?case by (subst probe_find.simps) (auto simp: at_def Let_def)
next
  case (Suc k)
  have "\<forall>m < k. at sl h (Suc n + m) \<noteq> SIZE_MAX \<and> \<not> hit (at sl h (Suc n + m))"
    using Suc.prems(2) by (metis Suc_mono add_Suc_shift)
  with Suc.IH [of "Suc n"] Suc.prems(1) have "probe_find hit sl ((h + Suc n) mod length sl) =
      Some (if at sl h (n + Suc k) = SIZE_MAX then None else Some (at sl h (n + Suc k)))" by simp
  moreover have "sl ! ((h + n) mod length sl) \<noteq> SIZE_MAX" "\<not> hit (sl ! ((h + n) mod length sl))"
    using Suc.prems(2) by (auto simp: at_def)
  ultimately show ?case
    using next_slot [OF assms(1), of h n] by (subst probe_find.simps) (simp add: Let_def)
qed

lemma reach:
  assumes "q < length sl"
  shows "\<exists>n. (h + n) mod length sl = q"
proof -
  let ?c = "length sl"
  have "?c * (h div ?c) + h mod ?c = h" by simp
  moreover have "h mod ?c < ?c" using assms by (intro mod_less_divisor) linarith
  ultimately have "h + (?c - h mod ?c + q) = q + ?c * (h div ?c + 1)" unfolding distrib_left by linarith
  then have "(h + (?c - h mod ?c + q)) mod ?c = q" using assms by (simp only: mod_mult_self2 mod_less)
  then show ?thesis by blast
qed

text \<open>A table with fewer items than slots has an empty slot on every path.\<close>

lemma free_slot:
  assumes "card (occupied sl) < length sl"
  shows "\<exists>n. at sl h n = SIZE_MAX"
proof -
  have "card {..< length sl} = length sl" by simp
  with assms have "occupied sl \<noteq> {..< length sl}" by (metis less_irrefl)
  then obtain q where "q < length sl" "sl ! q = SIZE_MAX" by (auto simp: occupied_def)
  with reach [of q sl h] show ?thesis by (auto simp: at_def)
qed

lemma least_such: "\<exists>n. P n \<Longrightarrow> \<exists>n. P n \<and> (\<forall>m < n. \<not> P (m :: nat))"
  by (rule exists_least_iff [of P, THEN iffD1])

lemma probe_free_ok:
  assumes "pow2 (length sl)" and "card (occupied sl) < length sl"
  shows "\<exists>n. probe_free sl (h AND (length sl - 1)) = Some ((h + n) mod length sl)
    \<and> at sl h n = SIZE_MAX \<and> (\<forall>m < n. at sl h m \<noteq> SIZE_MAX)"
proof -
  from least_such [OF free_slot [OF assms(2)]] obtain n where
    n: "at sl h n = SIZE_MAX" "\<forall>m < n. at sl h m \<noteq> SIZE_MAX" by blast
  from probe_free_at [OF assms(1), of h 0 n] n and_mask [OF assms(1)] show ?thesis by auto
qed

text \<open>The search ends and finds an item that is a hit exactly when there is one with that hash value.\<close>

lemma probe_find_ok:
  assumes ok: "table_ok hs sl" and room: "length hs < length sl"
    and hash: "\<And>i. i < length hs \<Longrightarrow> hit i \<Longrightarrow> hs ! i = h"
    and one: "\<And>i j. i < length hs \<Longrightarrow> j < length hs \<Longrightarrow> hit i \<Longrightarrow> hit j \<Longrightarrow> i = j"
  shows "probe_find hit sl (h AND (length sl - 1)) =
    Some (if \<exists>i < length hs. hit i then Some (THE i. i < length hs \<and> hit i) else None)"
proof -
  note t = ok [unfolded table_ok_def]
  let ?stop = "\<lambda>n. at sl h n = SIZE_MAX \<or> hit (at sl h n)"
  have "card (occupied sl) < length sl" using t room by simp
  then have "\<exists>n. ?stop n" using free_slot by blast
  from least_such [OF this] obtain n where n: "?stop n" "\<forall>m < n. \<not> ?stop m" by blast
  from probe_find_at [where sl = sl and h = h and n = 0 and k = n and hit = hit] t n and_mask [of "length sl" h]
  have find: "probe_find hit sl (h AND (length sl - 1)) =
      Some (if at sl h n = SIZE_MAX then None else Some (at sl h n))" by auto
  have slot: "at sl h n \<noteq> SIZE_MAX \<Longrightarrow> at sl h n < length hs"
    using t pow2_pos [of "length sl"] by (auto simp: at_def occupied_def)
  show ?thesis
  proof (cases "\<exists>i < length hs. hit i")
    case True
    then obtain i where i: "i < length hs" "hit i" by blast
    with t hash obtain k where k: "at sl h k = i" "\<forall>m < k. at sl h m \<noteq> SIZE_MAX" by metis
    have "n \<le> k" using n(2) k(1) i(2) by (meson not_le)
    then have "at sl h n \<noteq> SIZE_MAX" using k i t by (metis order_le_less less_irrefl order_less_trans)
    with n(1) slot have "at sl h n < length hs" "hit (at sl h n)" by blast+
    with one have "(THE i. i < length hs \<and> hit i) = at sl h n" by (intro the_equality) blast+
    with find True \<open>at sl h n \<noteq> SIZE_MAX\<close> show ?thesis by simp
  next
    case False
    with n(1) slot have "at sl h n = SIZE_MAX" by blast
    with find False show ?thesis by simp
  qed
qed

section \<open>Entering items\<close>

lemma table_empty: "pow2 c \<Longrightarrow> table_ok [] (replicate c SIZE_MAX)"
  by (simp add: table_ok_def occupied_def SIZE_MAX_def)

lemma table_enter:
  assumes ok: "table_ok hs sl" and room: "length hs < length sl" and small: "length hs + 1 < SIZE_MAX"
    and free: "at sl h n = SIZE_MAX" "\<forall>m < n. at sl h m \<noteq> SIZE_MAX"
  shows "table_ok (hs @ [h]) (sl[(h + n) mod length sl := length hs])"
proof -
  note t = ok [unfolded table_ok_def]
  let ?p = "(h + n) mod length sl" and ?sl = "sl[(h + n) mod length sl := length hs]"
  have p: "?p < length sl" using t pow2_pos by (metis mod_less_divisor)
  have new: "length hs \<noteq> SIZE_MAX" using small by simp
  have at_new: "at ?sl g m = (if (g + m) mod length sl = ?p then length hs else at sl g m)" for g m
    using p by (simp add: at_def nth_list_update)
  have occ: "occupied ?sl = insert ?p (occupied sl)"
    using p new by (auto simp: occupied_def nth_list_update)
  have "?p \<notin> occupied sl" using free(1) by (simp add: occupied_def at_def)
  moreover have "finite (occupied sl)" by (simp add: occupied_def)
  ultimately have "card (occupied ?sl) = length (hs @ [h])" using occ t by simp
  moreover have "\<forall>q \<in> occupied ?sl. ?sl ! q < length (hs @ [h])"
    using t occ p by (auto simp: nth_list_update less_Suc_eq)
  moreover have "\<exists>m. at ?sl ((hs @ [h]) ! i) m = i \<and> (\<forall>k < m. at ?sl ((hs @ [h]) ! i) k \<noteq> SIZE_MAX)"
    if i: "i < length (hs @ [h])" for i
  proof (cases "i = length hs")
    case True
    with free at_new new show ?thesis by (intro exI [of _ n]) auto
  next
    case False
    with i have l: "i < length hs" by simp
    with t obtain m where m: "at sl (hs ! i) m = i" "\<forall>k < m. at sl (hs ! i) k \<noteq> SIZE_MAX" by blast
    from m(1) l free(1) t have "(hs ! i + m) mod length sl \<noteq> ?p" by (auto simp: at_def)
    with m at_new new l show ?thesis by (intro exI [of _ m]) (auto simp: nth_append)
  qed
  ultimately show ?thesis using t small by (simp add: table_ok_def)
qed

lemma insert_ok:
  assumes "table_ok hs sl" and "length hs < length sl" and "length hs + 1 < SIZE_MAX"
  shows "\<exists>p. probe_free sl (h AND (length sl - 1)) = Some p
    \<and> table_ok (hs @ [h]) (sl[p := length hs])"
proof -
  note t = assms(1) [unfolded table_ok_def]
  from probe_free_ok [of sl h] t assms(2) obtain n where
    n: "probe_free sl (h AND (length sl - 1)) = Some ((h + n) mod length sl)" "at sl h n = SIZE_MAX"
      "\<forall>m < n. at sl h m \<noteq> SIZE_MAX" by auto
  with table_enter [OF assms n(2,3)] show ?thesis by blast
qed

lemma fill_slots_ok:
  assumes "table_ok before sl" and "length before + length hs < length sl" and "length before + length hs < SIZE_MAX"
  shows "\<exists>sl1. fill_slots hs (length before) sl = Some sl1 \<and> table_ok (before @ hs) sl1 \<and> length sl1 = length sl"
  using assms
proof (induction hs arbitrary: before sl)
  case (Cons h hs)
  from insert_ok [OF Cons.prems(1), of h] Cons.prems(2,3) obtain p where
    p: "probe_free sl (h AND (length sl - 1)) = Some p" "table_ok (before @ [h]) (sl[p := length before])" by auto
  with Cons.IH [OF p(2)] Cons.prems(2,3) show ?case by auto
qed simp

lemma rehash_ok:
  assumes "pow2 c" and "length hs < c" and "length hs < SIZE_MAX"
  shows "\<exists>sl. fill_slots hs 0 (replicate c SIZE_MAX) = Some sl \<and> table_ok hs sl \<and> length sl = c"
  using fill_slots_ok [OF table_empty [OF assms(1)], of hs] assms(2,3) by auto

lemma grow_cap_ok:
  assumes "pow2 c" and "c > 1"
  shows "grow_cap used c = Some None \<or> (\<exists>c1. grow_cap used c = Some (Some c1) \<and> pow2 c1 \<and> used \<le> c1 div 2 \<and> c \<le> c1)"
  using assms
proof (induction "SIZE_MAX - c" arbitrary: c rule: less_induct)
  case less
  show ?case
  proof (cases "c div 2 < used \<and> \<not> c > SIZE_MAX div 2")
    case True
    then have "c * 2 \<le> SIZE_MAX" by linarith
    with less.prems(2) have "SIZE_MAX - c * 2 < SIZE_MAX - c" "c * 2 > 1" by linarith+
    moreover have "pow2 (c * 2)" using less.prems(1) unfolding pow2_def by (metis power_Suc2)
    ultimately have "grow_cap used (c * 2) = Some None \<or>
      (\<exists>c1. grow_cap used (c * 2) = Some (Some c1) \<and> pow2 c1 \<and> used \<le> c1 div 2 \<and> c * 2 \<le> c1)"
      using less.hyps [of "c * 2"] by blast
    with True show ?thesis by (subst (1 2) grow_cap.simps) auto
  next
    case False
    with less.prems show ?thesis by (subst (1 2) grow_cap.simps) auto
  qed
qed

end
