(* ===== verification/Pathaudit_Output.thy ===== *)
theory Pathaudit_Output
  imports Quoting Posix
begin

text \<open>
  The output of \<open>src/pathaudit.c\<close>: checked writes, the quoted printer, diagnostics, the closing
  flush that decides the status, and the hazard codes.  What each function writes is one write
  of a text, so that only the room of stdout decides whether it fails.
\<close>

section \<open>The code\<close>

datatype HazardCode =
    HAZARD_EMPTY_ROOT
  | HAZARD_RELATIVE_ROOT
  | HAZARD_MISSING_ROOT
  | HAZARD_NON_DIRECTORY_ROOT
  | HAZARD_GROUP_WRITABLE
  | HAZARD_WORLD_WRITABLE
  | HAZARD_UNSAFE_OWNER

text \<open>The value of the enumeration constant, \<open>(int)code\<close>.\<close>

primrec code_rank :: "HazardCode \<Rightarrow> nat" where
  "code_rank HAZARD_EMPTY_ROOT = 0"
| "code_rank HAZARD_RELATIVE_ROOT = 1"
| "code_rank HAZARD_MISSING_ROOT = 2"
| "code_rank HAZARD_NON_DIRECTORY_ROOT = 3"
| "code_rank HAZARD_GROUP_WRITABLE = 4"
| "code_rank HAZARD_WORLD_WRITABLE = 5"
| "code_rank HAZARD_UNSAFE_OWNER = 6"

definition HAZARD_NAMES :: "cstr list" where
  "HAZARD_NAMES = [''EMPTY_ROOT'', ''RELATIVE_ROOT'', ''MISSING_ROOT'', ''NON_DIRECTORY_ROOT'',
     ''GROUP_WRITABLE'', ''WORLD_WRITABLE'', ''UNSAFE_OWNER'']"

definition USAGE_TEXT :: cstr where
  "USAGE_TEXT = ''usage: pathaudit [--] ROOT...'' @ [LF] @ ''   or: pathaudit --path'' @ [LF]
     @ ''   or: pathaudit --command NAME'' @ [LF]"

definition HELP_TEXT :: cstr where
  "HELP_TEXT = ''usage: pathaudit [--] ROOT...'' @ [LF] @ ''   or: pathaudit --path'' @ [LF]
     @ ''   or: pathaudit --command NAME'' @ [LF]
     @ ''Scan PATH directory roots for hazards.'' @ [LF]"

definition VERSION_TEXT :: cstr where "VERSION_TEXT = ''pathaudit 0.1.0'' @ [LF]"

definition fputc_checked :: "char \<Rightarrow> stream \<Rightarrow> io \<Rightarrow> int \<times> io" where
  "fputc_checked ch st s = (case c_write st [ch] s of (r, s1) \<Rightarrow> (if r = -1 then -1 else 0, s1))"

definition fputs_checked :: "cstr \<Rightarrow> stream \<Rightarrow> io \<Rightarrow> int \<times> io" where
  "fputs_checked t st s = (case c_write st t s of (r, s1) \<Rightarrow> (if r = -1 then -1 else 0, s1))"

fun put_quoted_bytes :: "stream \<Rightarrow> cstr \<Rightarrow> io \<Rightarrow> int \<times> io" where
  "put_quoted_bytes st [] s = (0, s)"
| "put_quoted_bytes st (ch # p) s =
     (case (if ch = DQ then fputs_checked [BSL, DQ] st s
            else if ch = BSL then fputs_checked [BSL, BSL] st s
            else if ubyte ch \<ge> 0x20 \<and> ubyte ch \<le> 0x7e then fputc_checked ch st s
            else c_write st (BSL # CHR ''x'' # hex2_upper ch) s) of
        (r, s1) \<Rightarrow> if r \<noteq> 0 then (-1, s1) else put_quoted_bytes st p s1)"

definition put_escaped_quoted :: "stream \<Rightarrow> cstr \<Rightarrow> io \<Rightarrow> int \<times> io" where
  "put_escaped_quoted st t s =
     (case fputc_checked DQ st s of
        (r, s1) \<Rightarrow>
          if r \<noteq> 0 then (-1, s1)
          else (case put_quoted_bytes st t s1 of
                  (r1, s2) \<Rightarrow> if r1 \<noteq> 0 then (-1, s2) else fputc_checked DQ st s2))"

definition emit_stdout_write_error :: "io \<Rightarrow> int \<times> io" where
  "emit_stdout_write_error s =
     (2, ignore_result (c_write Stderr (''pathaudit: STDOUT_WRITE'' @ [LF])) s)"

definition complete_stdout :: "int \<Rightarrow> io \<Rightarrow> int \<times> io" where
  "complete_stdout status s =
     (case c_fflush Stdout s of
        (r, s1) \<Rightarrow> if r \<noteq> 0 \<or> c_ferror Stdout s1 then emit_stdout_write_error s1 else (status, s1))"

definition emit_diag_reason :: "cstr \<Rightarrow> io \<Rightarrow> io" where
  "emit_diag_reason reason s = ignore_result (c_write Stderr (''pathaudit: '' @ reason @ [LF])) s"

definition emit_diag_reason_root :: "cstr \<Rightarrow> cstr \<Rightarrow> io \<Rightarrow> io" where
  "emit_diag_reason_root reason root s =
     ignore_result (c_write Stderr [LF])
       (ignore_result (put_escaped_quoted Stderr root)
         (ignore_result (c_write Stderr (''pathaudit: '' @ reason @ '': '')) s))"

definition emit_usage_diag :: "cstr \<Rightarrow> io \<Rightarrow> io" where
  "emit_usage_diag reason s =
     ignore_result (fputs_checked USAGE_TEXT Stderr) (emit_diag_reason reason s)"

text \<open>The functions that give up with status 2 on a path that cannot be inspected.\<close>

definition emit_inspection_error_on_path :: "nat \<Rightarrow> cstr \<Rightarrow> io \<Rightarrow> int \<times> io" where
  "emit_inspection_error_on_path e path s =
     (let reason = ''INSPECTION_ERROR_'' @ dec e in
      if length reason \<ge> 64 then (2, emit_diag_reason ''OUT_OF_MEMORY'' s)
      else (2, emit_diag_reason_root reason path s))"

definition handle_help :: "io \<Rightarrow> int \<times> io" where
  "handle_help s =
     (case fputs_checked HELP_TEXT Stdout s of
        (r, s1) \<Rightarrow> if r \<noteq> 0 then emit_stdout_write_error s1 else complete_stdout 0 s1)"

definition handle_version :: "io \<Rightarrow> int \<times> io" where
  "handle_version s =
     (case fputs_checked VERSION_TEXT Stdout s of
        (r, s1) \<Rightarrow> if r \<noteq> 0 then emit_stdout_write_error s1 else complete_stdout 0 s1)"

section \<open>What it writes\<close>

lemma pathaudit_fputc_write [simp]: "fputc_checked ch st = c_write st [ch]"
  by (rule ext) (auto simp: fputc_checked_def split: prod.split dest: c_write_result)

lemma pathaudit_fputs_write [simp]: "fputs_checked t st = c_write st t"
  by (rule ext) (auto simp: fputs_checked_def split: prod.split dest: c_write_result)

interpretation pathaudit_quoted: quoted_printer put_quoted_bytes put_escaped_quoted
  by unfold_locales (simp_all add: put_escaped_quoted_def split: prod.split)

lemma out_diag_reason [simp]: "out (emit_diag_reason r s) = out s"
  by (simp add: emit_diag_reason_def)

lemma out_diag_reason_root [simp]: "out (emit_diag_reason_root r p s) = out s"
  by (simp add: emit_diag_reason_root_def ignore_result_def pathaudit_quoted.quoted_write)
    (simp add: c_write_def Let_def)

lemma mem_diag_reason [simp]: "mem (emit_diag_reason r s) = mem s"
  by (simp add: emit_diag_reason_def ignore_result_def)

lemma mem_diag_reason_root [simp]: "mem (emit_diag_reason_root r p s) = mem s"
  by (simp add: emit_diag_reason_root_def ignore_result_def pathaudit_quoted.quoted_write)

lemma out_usage_diag [simp]: "out (emit_usage_diag r s) = out s"
  by (simp add: emit_usage_diag_def)

lemma inspection_error_out [simp]:
  "fst (emit_inspection_error_on_path e p s) = 2" "out (snd (emit_inspection_error_on_path e p s)) = out s"
  "mem (snd (emit_inspection_error_on_path e p s)) = mem s"
  by (simp_all add: emit_inspection_error_on_path_def Let_def)

lemma write_error_status [simp]: "fst (emit_stdout_write_error s) = 2"
  by (simp add: emit_stdout_write_error_def)

text \<open>A status other than 2 of the closing flush means that stdout took everything.\<close>

lemma audit_stdout_status:
  "complete_stdout n s = (status, s1) \<Longrightarrow> status \<noteq> 2 \<Longrightarrow>
     status = n \<and> s1 = s \<and> \<not> ferr (out s) \<and> flush_errno (out s) = None"
  by (auto simp: complete_stdout_def c_fflush_def c_ferror_def emit_stdout_write_error_def
      split: option.splits if_splits prod.splits)

lemma complete_stdout_faultless: "faultless s \<Longrightarrow> complete_stdout n s = (n, s)"
  by (simp add: complete_stdout_def faultlessD)

lemma hazard_name_no_control:
  "TAB \<notin> set (HAZARD_NAMES ! code_rank c)" "LF \<notin> set (HAZARD_NAMES ! code_rank c)"
  by (cases c; simp add: HAZARD_NAMES_def numeral_2_eq_2 numeral_3_eq_3)+

text \<open>A loop that writes one line after the other and stops at the first failure.\<close>

lemma write_loop:
  assumes "\<And>s. loop [] s = (0, s)"
    and "\<And>x xs s. loop (x # xs) s =
      (case c_write Stdout (line x) s of (r, s1) \<Rightarrow> if r \<noteq> 0 then emit_stdout_write_error s1 else loop xs s1)"
  shows "loop xs s =
    (case c_write Stdout (concat (map line xs)) s of (r, s1) \<Rightarrow> if r \<noteq> 0 then emit_stdout_write_error s1 else (0, s1))"
proof (induction xs arbitrary: s)
  case (Cons x xs)
  show ?case
    using assms(2) [of x xs s] Cons.IH
      c_write_append [where st = Stdout and t = "line x" and u = "concat (map line xs)" and s = s]
      c_write_result [where st = Stdout and t = "line x" and s = s]
    by (auto split: prod.splits if_splits)
qed (simp add: assms(1))

end
