(* ===== verification/Pathaudit_Index.thy ===== *)
theory Pathaudit_Index
  imports Probing Pathaudit_Output
begin

unbundle bit_operations_syntax

text \<open>
  The winner and shadow tables of \<open>src/pathaudit.c\<close> with their open-addressing indexes, on a
  64-bit machine.  An operation with a probe loop returns an option: \<open>None\<close> is a call that
  never returns.  The interface both tables offer to their clients is the locale
  \<open>keyed_table\<close>; its two interpretations show that every operation returns, that a search
  finds what is in the table, and that a failed append leaves the table as it was.
\<close>

section \<open>Hashing\<close>

definition FNV_OFFSET :: "64 word" where "FNV_OFFSET = 14695981039346656037"
definition FNV_PRIME :: "64 word" where "FNV_PRIME = 1099511628211"

text \<open>One round of the loops: \<open>hash ^= *p; hash *= prime;\<close>\<close>

definition fnv_byte :: "64 word \<Rightarrow> char \<Rightarrow> 64 word" where
  "fnv_byte h c = (h XOR of_char c) * FNV_PRIME"

definition hash_command_bytes :: "cstr \<Rightarrow> 64 word" where
  "hash_command_bytes text = foldl fnv_byte FNV_OFFSET text"

definition hash_command_shadow_pair :: "cstr \<Rightarrow> cstr \<Rightarrow> 64 word" where
  "hash_command_shadow_pair command shadow =
     foldl fnv_byte ((hash_command_bytes command XOR 31) * FNV_PRIME) shadow"

section \<open>Tables\<close>

record WinnerEntry =
  wcommand :: cstr
  wpath :: cstr

record WinnerBuffer =
  witems :: "WinnerEntry list"
  wcap :: nat
  windex_slots :: "nat list option"
  windex_cap :: nat

record ShadowRecord =
  scommand :: cstr
  swinner :: cstr
  sshadow :: cstr
  shadow_index :: nat

record ShadowBuffer =
  sitems :: "ShadowRecord list"
  scap :: nat
  sindex_slots :: "nat list option"
  sindex_cap :: nat

definition no_winners :: WinnerBuffer where
  "no_winners = \<lparr>witems = [], wcap = 0, windex_slots = None, windex_cap = 0\<rparr>"

definition no_shadows :: ShadowBuffer where
  "no_shadows = \<lparr>sitems = [], scap = 0, sindex_slots = None, sindex_cap = 0\<rparr>"

text \<open>
  The part of the two rehash functions they share: the check of the new capacity, the allocation
  and the loop that enters the items with the hash values \<open>hs\<close>.
\<close>

definition index_rehash :: "nat list \<Rightarrow> nat \<Rightarrow> io \<Rightarrow> (nat list option \<times> io) option" where
  "index_rehash hs new_cap s =
     (if new_cap = 0 \<or> new_cap AND (new_cap - 1) \<noteq> 0 \<or> new_cap > SIZE_MAX div 8 then Some (None, s)
      else
        (case c_malloc s of
           (ok, s1) \<Rightarrow>
             if \<not> ok then Some (None, s1)
             else map_option (\<lambda>slots. (Some slots, s1)) (fill_slots hs 0 (replicate new_cap SIZE_MAX))))"

definition winner_hashes :: "WinnerBuffer \<Rightarrow> nat list" where
  "winner_hashes b = map (\<lambda>w. unat (hash_command_bytes (wcommand w))) (witems b)"

definition winners_index_rehash :: "WinnerBuffer \<Rightarrow> nat \<Rightarrow> io \<Rightarrow> (bool \<times> WinnerBuffer \<times> io) option" where
  "winners_index_rehash b new_cap s =
     (case index_rehash (winner_hashes b) new_cap s of
        None \<Rightarrow> None
      | Some (None, s1) \<Rightarrow> Some (False, b, s1)
      | Some (Some slots, s1) \<Rightarrow> Some (True, b\<lparr>windex_slots := Some slots, windex_cap := new_cap\<rparr>, s1))"

text \<open>The new capacity of an index with capacity \<open>index_cap\<close> for \<open>used\<close> items.\<close>

definition new_index_cap :: "nat \<Rightarrow> nat \<Rightarrow> nat option option" where
  "new_index_cap used index_cap =
     (if index_cap = 0 then grow_cap used 16
      else if index_cap > SIZE_MAX div 2 then Some None
      else grow_cap used (index_cap * 2))"

definition winners_index_insert_tail :: "WinnerBuffer \<Rightarrow> io \<Rightarrow> (bool \<times> WinnerBuffer \<times> io) option" where
  "winners_index_insert_tail b s =
     (if witems b = [] then Some (False, b, s)
      else
        (let item_index = length (witems b) - 1 in
         if windex_cap b = 0 \<or> length (witems b) > windex_cap b div 2 then
           (case new_index_cap (length (witems b)) (windex_cap b) of
              None \<Rightarrow> None
            | Some None \<Rightarrow> Some (False, b, s)
            | Some (Some new_cap) \<Rightarrow> winners_index_rehash b new_cap s)
         else
           (let slots = the (windex_slots b) in
            case probe_free slots (winner_hashes b ! item_index AND (windex_cap b - 1)) of
              None \<Rightarrow> None
            | Some slot \<Rightarrow> Some (True, b\<lparr>windex_slots := Some (slots[slot := item_index])\<rparr>, s))))"

text \<open>The entry that is found, if there is one.\<close>

definition winners_find :: "WinnerBuffer \<Rightarrow> cstr \<Rightarrow> WinnerEntry option option" where
  "winners_find b command =
     (if windex_cap b = 0 \<or> windex_slots b = None then Some None
      else
        map_option (map_option (nth (witems b)))
          (probe_find (\<lambda>idx. wcommand (witems b ! idx) = command) (the (windex_slots b))
            (unat (hash_command_bytes command) AND (windex_cap b - 1))))"

text \<open>The growth of an array: the new capacity, or \<open>None\<close> for \<open>return false\<close>.\<close>

definition reserve :: "nat \<Rightarrow> nat \<Rightarrow> nat \<Rightarrow> nat \<Rightarrow> io \<Rightarrow> nat option \<times> io" where
  "reserve first elem_size used cap s =
     (if used = cap then
        (let new_cap = (if cap = 0 then first else size_times cap 2) in
         if new_cap \<le> cap \<or> new_cap > SIZE_MAX div elem_size then (None, s)
         else (case c_malloc s of (ok, s1) \<Rightarrow> if \<not> ok then (None, s1) else (Some new_cap, s1)))
      else (Some cap, s))"

definition winners_append :: "WinnerBuffer \<Rightarrow> cstr \<Rightarrow> cstr \<Rightarrow> io \<Rightarrow> (bool \<times> WinnerBuffer \<times> io) option" where
  "winners_append b command path s =
     (case reserve 16 16 (length (witems b)) (wcap b) s of
        (None, s1) \<Rightarrow> Some (False, b, s1)
      | (Some cap, s1) \<Rightarrow>
          (let b1 = b\<lparr>wcap := cap, witems := witems b @ [\<lparr>wcommand = command, wpath = path\<rparr>]\<rparr> in
           case winners_index_insert_tail b1 s1 of
             None \<Rightarrow> None
           | Some (ok, b2, s2) \<Rightarrow>
               if \<not> ok then Some (False, b2\<lparr>witems := butlast (witems b2)\<rparr>, s2) else Some (True, b2, s2)))"

definition shadow_hashes :: "ShadowBuffer \<Rightarrow> nat list" where
  "shadow_hashes b = map (\<lambda>r. unat (hash_command_shadow_pair (scommand r) (sshadow r))) (sitems b)"

definition shadows_index_rehash :: "ShadowBuffer \<Rightarrow> nat \<Rightarrow> io \<Rightarrow> (bool \<times> ShadowBuffer \<times> io) option" where
  "shadows_index_rehash b new_cap s =
     (case index_rehash (shadow_hashes b) new_cap s of
        None \<Rightarrow> None
      | Some (None, s1) \<Rightarrow> Some (False, b, s1)
      | Some (Some slots, s1) \<Rightarrow> Some (True, b\<lparr>sindex_slots := Some slots, sindex_cap := new_cap\<rparr>, s1))"

definition shadows_index_invalidate :: "ShadowBuffer \<Rightarrow> ShadowBuffer" where
  "shadows_index_invalidate b = b\<lparr>sindex_slots := None, sindex_cap := 0\<rparr>"

definition shadows_index_insert_tail :: "ShadowBuffer \<Rightarrow> io \<Rightarrow> (bool \<times> ShadowBuffer \<times> io) option" where
  "shadows_index_insert_tail b s =
     (if sitems b = [] then Some (False, b, s)
      else
        (let item_index = length (sitems b) - 1 in
         if sindex_cap b = 0 \<or> length (sitems b) > sindex_cap b div 2 then
           (case new_index_cap (length (sitems b)) (sindex_cap b) of
              None \<Rightarrow> None
            | Some None \<Rightarrow> Some (False, b, s)
            | Some (Some new_cap) \<Rightarrow> shadows_index_rehash b new_cap s)
         else
           (let slots = the (sindex_slots b) in
            case probe_free slots (shadow_hashes b ! item_index AND (sindex_cap b - 1)) of
              None \<Rightarrow> None
            | Some slot \<Rightarrow> Some (True, b\<lparr>sindex_slots := Some (slots[slot := item_index])\<rparr>, s))))"

definition shadows_append ::
  "ShadowBuffer \<Rightarrow> cstr \<Rightarrow> cstr \<Rightarrow> cstr \<Rightarrow> nat \<Rightarrow> io \<Rightarrow> (bool \<times> ShadowBuffer \<times> io) option" where
  "shadows_append b command winner shadow index s =
     (case reserve 16 32 (length (sitems b)) (scap b) s of
        (None, s1) \<Rightarrow> Some (False, b, s1)
      | (Some cap, s1) \<Rightarrow>
          (let b1 = b\<lparr>scap := cap, sitems := sitems b
                 @ [\<lparr>scommand = command, swinner = winner, sshadow = shadow, shadow_index = index\<rparr>]\<rparr> in
           case shadows_index_insert_tail b1 s1 of
             None \<Rightarrow> None
           | Some (ok, b2, s2) \<Rightarrow>
               if \<not> ok then Some (False, b2\<lparr>sitems := butlast (sitems b2)\<rparr>, s2) else Some (True, b2, s2)))"

definition shadow_tuple_recorded :: "ShadowBuffer \<Rightarrow> cstr \<Rightarrow> cstr \<Rightarrow> cstr \<Rightarrow> bool option" where
  "shadow_tuple_recorded b command winner shadow =
     (if sindex_cap b = 0 \<or> sindex_slots b = None then Some False
      else
        map_option (\<lambda>r. r \<noteq> None)
          (probe_find (\<lambda>idx. let item = sitems b ! idx in
               scommand item = command \<and> sshadow item = shadow \<and> swinner item = winner)
            (the (sindex_slots b))
            (unat (hash_command_shadow_pair command shadow) AND (sindex_cap b - 1))))"

section \<open>The interface\<close>

locale keyed_table =
  fixes ok :: "'b \<Rightarrow> bool"
    and contents :: "'b \<Rightarrow> 'i list"
    and key :: "'i \<Rightarrow> 'k"
    and admits :: "'b \<Rightarrow> 'i \<Rightarrow> bool"
    and recorded :: "'b \<Rightarrow> 'k \<Rightarrow> bool option"
    and add :: "'b \<Rightarrow> 'i \<Rightarrow> io \<Rightarrow> (bool \<times> 'b \<times> io) option"
  assumes recorded: "ok b \<Longrightarrow> recorded b k = Some (k \<in> key ` set (contents b))"
    and add: "ok b \<Longrightarrow> admits b i \<Longrightarrow> \<exists>r b1 s1. add b i s = Some (r, b1, s1) \<and> ok b1 \<and> out s1 = out s
        \<and> contents b1 = (if r then contents b @ [i] else contents b)
        \<and> (mem s = None \<longrightarrow> mem s1 = None) \<and> (\<not> r \<longrightarrow> mem s \<noteq> None \<or> 2 ^ 57 \<le> length (contents b))"
begin

lemma add_returns: "ok b \<Longrightarrow> admits b i \<Longrightarrow> add b i s \<noteq> None"
  using add [of b i s] by auto

lemma added:
  assumes "ok b" and "admits b i" and "add b i s = Some (r, b1, s1)"
  shows "ok b1" "contents b1 = (if r then contents b @ [i] else contents b)" "out s1 = out s"
    "recorded b1 k = Some (k \<in> key ` set (contents b) \<or> r \<and> k = key i)"
  using add [OF assms(1,2), of s] assms(3) recorded [of b1 k] by auto

lemma refused:
  assumes "ok b" and "admits b i" and "add b i s = Some (False, b1, s1)"
  shows "mem s \<noteq> None \<or> 2 ^ 57 \<le> length (contents b)"
  using add [OF assms(1,2), of s] assms(3) by auto

end

section \<open>The tables meet it\<close>

text \<open>An index of items with the hash values \<open>hs\<close>, at most half full.\<close>

definition index_ok :: "nat list \<Rightarrow> nat list option \<Rightarrow> nat \<Rightarrow> bool" where
  "index_ok hs slots cap \<longleftrightarrow>
     (case slots of
        None \<Rightarrow> hs = [] \<and> cap = 0
      | Some sl \<Rightarrow> cap = length sl \<and> table_ok hs sl \<and> 2 * length hs \<le> cap \<and> 16 \<le> cap \<and> cap \<le> SIZE_MAX div 8)"

lemma c_malloc_out: "c_malloc s = (ok, s1) \<Longrightarrow> out s1 = out s"
  by (auto dest: c_malloc_frame)

lemma c_malloc_None: "c_malloc s = (ok, s1) \<Longrightarrow> (mem s = None \<longrightarrow> mem s1 = None \<and> ok) \<and> out s1 = out s"
  by (auto simp: c_malloc_def split: option.splits nat.splits)

lemma index_rehash_ok:
  assumes "2 * length hs \<le> c" and "pow2 c" and "16 \<le> c"
  shows "\<exists>r s1. index_rehash hs c s = Some (r, s1) \<and> out s1 = out s
    \<and> (\<forall>sl. r = Some sl \<longrightarrow> index_ok hs (Some sl) c)
    \<and> (mem s = None \<longrightarrow> mem s1 = None) \<and> (r = None \<longrightarrow> mem s \<noteq> None \<or> c > SIZE_MAX div 8)"
proof (cases "c = 0 \<or> c AND (c - 1) \<noteq> 0 \<or> c > SIZE_MAX div 8")
  case True
  with assms(2) and_mask [of c c] pow2_pos [of c] show ?thesis by (simp add: index_rehash_def)
next
  case False
  obtain g s1 where m: "c_malloc s = (g, s1)" by fastforce
  have "length hs < c" using assms(1,3) by linarith
  moreover have "SIZE_MAX div 8 < SIZE_MAX" by (simp add: SIZE_MAX_def)
  with False \<open>length hs < c\<close> have "length hs < SIZE_MAX" by linarith
  ultimately obtain sl where sl: "fill_slots hs 0 (replicate c SIZE_MAX) = Some sl" "table_ok hs sl" "length sl = c"
    using rehash_ok [OF assms(2)] by blast
  with False m c_malloc_None [OF m] assms show ?thesis
    by (auto simp: index_rehash_def index_ok_def)
qed

lemma new_index_cap_ok:
  assumes "index_ok hs slots cap" and "used = length hs + 1" and "cap = 0 \<or> used > cap div 2"
  shows "new_index_cap used cap = Some None \<and> 2 ^ 57 \<le> length hs
    \<or> (\<exists>c. new_index_cap used cap = Some (Some c) \<and> pow2 c \<and> 2 * used \<le> c \<and> 16 \<le> c
        \<and> (c > SIZE_MAX div 8 \<longrightarrow> 2 ^ 57 \<le> length hs))"
proof (cases "cap = 0")
  case True
  have p16: "pow2 16" unfolding pow2_def by (intro exI [of _ 4]) simp
  from True assms(1,2) have "used = 1" by (auto simp: index_ok_def split: option.splits)
  moreover have "grow_cap 1 16 = Some (Some 16)" by (subst grow_cap.simps) simp
  ultimately show ?thesis using True p16 by (simp add: new_index_cap_def SIZE_MAX_def)
next
  case False
  with assms(1) have c: "pow2 cap" "16 \<le> cap" "2 * length hs \<le> cap" "cap \<le> SIZE_MAX div 8"
    by (auto simp: index_ok_def table_ok_def split: option.splits)
  then have p: "pow2 (cap * 2)" unfolding pow2_def by (metis power_Suc2)
  have used: "used \<le> cap" using c(2,3) assms(2) by linarith
  have "cap div 2 \<le> length hs" using False assms(2,3) by linarith
  then have "cap \<le> 2 * length hs + 1" by linarith
  then have "cap * 2 > SIZE_MAX div 8 \<Longrightarrow> 2 ^ 57 \<le> length hs" by (simp add: SIZE_MAX_def)
  moreover have "\<not> cap > SIZE_MAX div 2" using c(4) by (simp add: SIZE_MAX_def)
  moreover have "grow_cap used (cap * 2) = Some (Some (cap * 2))"
    using used by (simp add: grow_cap.simps [of used "cap * 2"])
  ultimately show ?thesis using False p used c(2) by (simp add: new_index_cap_def)
qed

text \<open>Entering the tail item with the hash value \<open>h\<close>.\<close>

lemma index_enter_ok:
  assumes "index_ok hs slots cap" and "cap \<noteq> 0" and "length hs + 1 \<le> cap div 2"
  shows "\<exists>p. probe_free (the slots) (h AND (cap - 1)) = Some p
    \<and> index_ok (hs @ [h]) (Some ((the slots)[p := length hs])) cap"
proof -
  from assms(1,2) obtain sl where sl: "slots = Some sl" "cap = length sl" "table_ok hs sl" "16 \<le> cap" "cap \<le> SIZE_MAX div 8"
    by (auto simp: index_ok_def split: option.splits)
  have "length hs < length sl" "length hs + 1 < SIZE_MAX"
    using assms(3) sl by (auto simp: SIZE_MAX_def)
  from insert_ok [OF sl(3) this, of h] sl assms(3) show ?thesis
    by (auto simp: index_ok_def)
qed

text \<open>Searching.\<close>

lemma index_find_ok:
  assumes "index_ok hs slots cap" and "cap \<noteq> 0"
    and "\<And>i. i < length hs \<Longrightarrow> hit i \<Longrightarrow> hs ! i = h"
    and "\<And>i j. i < length hs \<Longrightarrow> j < length hs \<Longrightarrow> hit i \<Longrightarrow> hit j \<Longrightarrow> i = j"
  shows "probe_find hit (the slots) (h AND (cap - 1)) =
    Some (if \<exists>i < length hs. hit i then Some (THE i. i < length hs \<and> hit i) else None)"
proof -
  from assms(1,2) obtain sl where "slots = Some sl" "cap = length sl" "table_ok hs sl" "length hs < length sl"
    by (auto simp: index_ok_def split: option.splits)
  with probe_find_ok [of hs sl hit h] assms(3,4) show ?thesis by simp
qed

lemma reserve_ok:
  assumes "reserve first n used cap s = (r, s1)" and "used \<le> cap" and "first > 0"
  shows "out s1 = out s \<and> (\<forall>c. r = Some c \<longrightarrow> used < c)"
  using assms by (auto simp: reserve_def Let_def split: if_splits prod.splits dest: c_malloc_out)

lemma reserve_cause:
  assumes "reserve first n used cap s = (r, s1)" and "0 < n" and "n \<le> 32" and "0 < first" and "first \<le> 16"
  shows "out s1 = out s \<and> (mem s = None \<longrightarrow> mem s1 = None)
    \<and> (r = None \<longrightarrow> mem s \<noteq> None \<or> 2 ^ 57 \<le> used)"
proof (cases "used = cap \<and> used < 2 ^ 57")
  case True
  have "SIZE_MAX div 32 \<le> SIZE_MAX div n" using assms(2,3) by (rule div_le_mono2)
  then have "2 ^ 58 \<le> SIZE_MAX div n" by (simp add: SIZE_MAX_def)
  moreover have "(if cap = 0 then first else size_times cap 2) = (if cap = 0 then first else 2 * cap)"
    using True by (simp add: SIZE_MAX_def)
  ultimately have "\<not> ((if cap = 0 then first else size_times cap 2) \<le> cap
      \<or> (if cap = 0 then first else size_times cap 2) > SIZE_MAX div n)"
    using True assms(4,5) by auto
  then show ?thesis
    using assms(1) True by (auto simp: reserve_def Let_def dest: c_malloc_None split: prod.splits if_splits)
next
  case False
  with assms(1) show ?thesis
    by (auto simp: reserve_def Let_def dest: c_malloc_None split: prod.splits if_splits)
qed

definition winners_ok :: "WinnerBuffer \<Rightarrow> bool" where
  "winners_ok b \<longleftrightarrow> length (witems b) \<le> wcap b \<and> distinct (map wcommand (witems b))
     \<and> index_ok (winner_hashes b) (windex_slots b) (windex_cap b)"

definition winners_admit :: "WinnerBuffer \<Rightarrow> WinnerEntry \<Rightarrow> bool" where
  "winners_admit b w \<longleftrightarrow> wcommand w \<notin> wcommand ` set (witems b)"

text \<open>The item at the only position that is a hit.\<close>

lemma the_position:
  assumes "distinct (map f xs)" and "i < length xs"
  shows "(THE j. j < length xs \<and> f (xs ! j) = f (xs ! i)) = i"
proof (rule the_equality)
  fix j assume "j < length xs \<and> f (xs ! j) = f (xs ! i)"
  with assms(2) nth_eq_iff_index_eq [OF assms(1), of j i] show "j = i" by simp
qed (use assms in simp)

lemma winners_find_ok:
  assumes "winners_ok b"
  shows "winners_find b command = Some (find (\<lambda>w. wcommand w = command) (witems b))"
proof (cases "windex_cap b = 0 \<or> windex_slots b = None")
  case True
  with assms have "witems b = []"
    by (auto simp: winners_ok_def index_ok_def winner_hashes_def split: option.splits)
  with True show ?thesis by (simp add: winners_find_def)
next
  case False
  note w = assms [unfolded winners_ok_def]
  let ?hit = "\<lambda>i. wcommand (witems b ! i) = command"
  let ?h = "unat (hash_command_bytes command)"
  have l: "length (winner_hashes b) = length (witems b)" by (simp add: winner_hashes_def)
  have inj: "i = j" if "i < length (witems b)" "j < length (witems b)" "?hit i" "?hit j" for i j
    using that w nth_eq_iff_index_eq [of "map wcommand (witems b)" i j] by simp
  have find: "probe_find ?hit (the (windex_slots b)) (?h AND (windex_cap b - 1)) =
      Some (if \<exists>i < length (witems b). ?hit i then Some (THE i. i < length (witems b) \<and> ?hit i) else None)"
    unfolding l [symmetric]
    by (rule index_find_ok) (use w False inj in \<open>auto simp: winner_hashes_def\<close>)
  show ?thesis
  proof (cases "\<exists>i < length (witems b). ?hit i")
    case True
    then obtain i where i: "i < length (witems b)" "?hit i" by blast
    with the_position [of wcommand "witems b" i] w
    have t: "(THE i. i < length (witems b) \<and> ?hit i) = i" by simp
    have "\<not> ?hit j" if "j < i" for j
    proof
      assume h: "?hit j"
      have "j < length (witems b)" using that i(1) by simp
      from inj [OF this i(1) h i(2)] that show False by simp
    qed
    with i have "find (\<lambda>w. wcommand w = command) (witems b) = Some (witems b ! i)"
      unfolding find_Some_iff by blast
    with find t True False show ?thesis by (simp add: winners_find_def)
  next
    case none: False
    then have "find (\<lambda>w. wcommand w = command) (witems b) = None"
      by (auto simp: find_None_iff in_set_conv_nth)
    with find none False show ?thesis by (simp add: winners_find_def)
  qed
qed

lemma winners_insert_tail_ok:
  assumes "index_ok (winner_hashes b) (windex_slots b) (windex_cap b)"
    and b1_def: "b1 = b\<lparr>wcap := cap, witems := witems b @ [w]\<rparr>"
  shows "\<exists>r b2 s1. winners_index_insert_tail b1 s = Some (r, b2, s1) \<and> out s1 = out s
    \<and> witems b2 = witems b1 \<and> wcap b2 = cap
    \<and> (if r then index_ok (winner_hashes b1) (windex_slots b2) (windex_cap b2)
       else windex_slots b2 = windex_slots b \<and> windex_cap b2 = windex_cap b)
    \<and> (mem s = None \<longrightarrow> mem s1 = None) \<and> (\<not> r \<longrightarrow> mem s \<noteq> None \<or> 2 ^ 57 \<le> length (witems b))"
proof -
  have l: "length (winner_hashes b) = length (witems b)" "length (winner_hashes b1) = length (witems b) + 1"
    "winner_hashes b1 = winner_hashes b @ [unat (hash_command_bytes (wcommand w))]"
    by (simp_all add: winner_hashes_def b1_def)
  show ?thesis
  proof (cases "windex_cap b = 0 \<or> length (witems b) + 1 > windex_cap b div 2")
    case True
    then consider "new_index_cap (length (witems b) + 1) (windex_cap b) = Some None" "2 ^ 57 \<le> length (witems b)"
      | c where "new_index_cap (length (witems b) + 1) (windex_cap b) = Some (Some c)" "pow2 c"
          "2 * (length (witems b) + 1) \<le> c" "16 \<le> c" "c > SIZE_MAX div 8 \<longrightarrow> 2 ^ 57 \<le> length (witems b)"
      using new_index_cap_ok [OF assms(1), of "length (witems b) + 1"] l(1) by auto
    then show ?thesis
    proof cases
      case 1
      with True show ?thesis by (auto simp: winners_index_insert_tail_def b1_def Let_def)
    next
      case 2
      from index_rehash_ok [of "winner_hashes b1" c s] 2 l obtain r s1 where
        r: "index_rehash (winner_hashes b1) c s = Some (r, s1)" "out s1 = out s"
          "\<And>sl. r = Some sl \<Longrightarrow> index_ok (winner_hashes b1) (Some sl) c"
          "mem s = None \<longrightarrow> mem s1 = None" "r = None \<longrightarrow> mem s \<noteq> None \<or> c > SIZE_MAX div 8" by auto
      have "winners_index_insert_tail b1 s = winners_index_rehash b1 c s"
        using True 2(1) by (auto simp: winners_index_insert_tail_def b1_def Let_def)
      with r 2(5) show ?thesis
        by (cases r) (auto simp: winners_index_rehash_def b1_def)
    qed
  next
    case False
    then have room: "length (winner_hashes b) + 1 \<le> windex_cap b div 2" using l by simp
    have cap: "windex_cap b \<noteq> 0" using False by simp
    from index_enter_ok [OF assms(1) cap room] obtain p where
      p: "probe_free (the (windex_slots b)) (unat (hash_command_bytes (wcommand w)) AND (windex_cap b - 1)) = Some p"
        "index_ok (winner_hashes b1) (Some ((the (windex_slots b))[p := length (witems b)])) (windex_cap b)"
      using l(1,3) by auto
    have t: "winner_hashes b1 ! length (witems b) = unat (hash_command_bytes (wcommand w))"
      using l(1) unfolding l(3) by (metis nth_append_length)
    with p False show ?thesis
      by (auto simp: winners_index_insert_tail_def b1_def Let_def)
  qed
qed

lemma winners_append_ok:
  assumes "winners_ok b" and "winners_admit b \<lparr>wcommand = command, wpath = path\<rparr>"
  shows "\<exists>r b1 s1. winners_append b command path s = Some (r, b1, s1) \<and> winners_ok b1 \<and> out s1 = out s
    \<and> witems b1 = (if r then witems b @ [\<lparr>wcommand = command, wpath = path\<rparr>] else witems b)
    \<and> (mem s = None \<longrightarrow> mem s1 = None) \<and> (\<not> r \<longrightarrow> mem s \<noteq> None \<or> 2 ^ 57 \<le> length (witems b))"
proof -
  note w = assms(1) [unfolded winners_ok_def]
  let ?w = "\<lparr>wcommand = command, wpath = path\<rparr>"
  obtain g s1 where g: "reserve 16 16 (length (witems b)) (wcap b) s = (g, s1)" by fastforce
  from reserve_ok [OF this] w have g1: "out s1 = out s" "\<And>c. g = Some c \<Longrightarrow> length (witems b) < c" by auto
  from reserve_cause [OF g] have cause: "mem s = None \<longrightarrow> mem s1 = None" "g = None \<longrightarrow> mem s \<noteq> None \<or> 2 ^ 57 \<le> length (witems b)" by auto
  show ?thesis
  proof (cases g)
    case None
    with g g1 cause assms(1) show ?thesis by (auto simp: winners_append_def)
  next
    case (Some cap)
    let ?b1 = "b\<lparr>wcap := cap, witems := witems b @ [?w]\<rparr>"
    from winners_insert_tail_ok [of b ?b1 ?w cap s1] w obtain r b2 s2 where
      i: "winners_index_insert_tail ?b1 s1 = Some (r, b2, s2)" "out s2 = out s1" "witems b2 = witems ?b1" "wcap b2 = cap"
        "if r then index_ok (winner_hashes ?b1) (windex_slots b2) (windex_cap b2)
         else windex_slots b2 = windex_slots b \<and> windex_cap b2 = windex_cap b"
        "mem s1 = None \<longrightarrow> mem s2 = None" "\<not> r \<longrightarrow> mem s1 \<noteq> None \<or> 2 ^ 57 \<le> length (witems b)" by auto
    have "winner_hashes b2 = winner_hashes ?b1" using i(3) by (simp add: winner_hashes_def)
    moreover have "winner_hashes (b2\<lparr>witems := butlast (witems b2)\<rparr>) = winner_hashes b"
      using i(3) by (simp add: winner_hashes_def)
    moreover have "distinct (map wcommand (witems b @ [?w]))"
      using w assms(2) by (auto simp: winners_admit_def)
    ultimately show ?thesis
      using g g1(1) g1(2) [OF Some] Some i w cause
      by (cases r) (auto simp: winners_append_def winners_ok_def Let_def)
  qed
qed

lemma WinnerEntry_eta: "\<lparr>wcommand = wcommand w, wpath = wpath w\<rparr> = w"
  by simp

interpretation winner_table: keyed_table winners_ok witems wcommand winners_admit
    "\<lambda>b command. map_option (\<lambda>r. r \<noteq> None) (winners_find b command)"
    "\<lambda>b w. winners_append b (wcommand w) (wpath w)"
proof
  show "map_option (\<lambda>r. r \<noteq> None) (winners_find b command) = Some (command \<in> wcommand ` set (witems b))"
    if "winners_ok b" for b command
    using winners_find_ok [OF that, of command] find_None_iff [of "\<lambda>w. wcommand w = command" "witems b"]
    by (cases "find (\<lambda>w. wcommand w = command) (witems b)") (auto simp: find_Some_iff)
  show "\<exists>r b1 s1. winners_append b (wcommand w) (wpath w) s = Some (r, b1, s1) \<and> winners_ok b1 \<and> out s1 = out s
      \<and> witems b1 = (if r then witems b @ [w] else witems b)
      \<and> (mem s = None \<longrightarrow> mem s1 = None) \<and> (\<not> r \<longrightarrow> mem s \<noteq> None \<or> 2 ^ 57 \<le> length (witems b))"
    if "winners_ok b" "winners_admit b w" for b w s
    using winners_append_ok [OF that(1), of "wcommand w" "wpath w" s] that(2) unfolding WinnerEntry_eta by blast
qed

definition shadow_key :: "ShadowRecord \<Rightarrow> cstr \<times> cstr" where
  "shadow_key r = (scommand r, sshadow r)"

definition shadows_ok :: "ShadowBuffer \<Rightarrow> bool" where
  "shadows_ok b \<longleftrightarrow> length (sitems b) \<le> scap b \<and> distinct (map shadow_key (sitems b))
     \<and> index_ok (shadow_hashes b) (sindex_slots b) (sindex_cap b)"

text \<open>A shadow may be added when its command and path are not recorded yet.\<close>

definition shadows_admit :: "ShadowBuffer \<Rightarrow> ShadowRecord \<Rightarrow> bool" where
  "shadows_admit b r \<longleftrightarrow> shadow_key r \<notin> shadow_key ` set (sitems b)"

definition shadow_tuple :: "ShadowRecord \<Rightarrow> cstr \<times> cstr \<times> cstr" where
  "shadow_tuple r = (scommand r, swinner r, sshadow r)"

lemma shadow_tuple_recorded_ok:
  assumes "shadows_ok b"
  shows "shadow_tuple_recorded b command winner shadow =
    Some ((command, winner, shadow) \<in> shadow_tuple ` set (sitems b))"
proof (cases "sindex_cap b = 0 \<or> sindex_slots b = None")
  case True
  with assms have "sitems b = []"
    by (auto simp: shadows_ok_def index_ok_def shadow_hashes_def split: option.splits)
  with True show ?thesis by (simp add: shadow_tuple_recorded_def)
next
  case False
  note w = assms [unfolded shadows_ok_def]
  let ?hit = "\<lambda>i. let item = sitems b ! i in
      scommand item = command \<and> sshadow item = shadow \<and> swinner item = winner"
  let ?h = "unat (hash_command_shadow_pair command shadow)"
  have l: "length (shadow_hashes b) = length (sitems b)" by (simp add: shadow_hashes_def)
  have inj: "i = j" if "i < length (sitems b)" "j < length (sitems b)" "?hit i" "?hit j" for i j
    using that w nth_eq_iff_index_eq [of "map shadow_key (sitems b)" i j] by (simp add: shadow_key_def Let_def)
  have "probe_find ?hit (the (sindex_slots b)) (?h AND (sindex_cap b - 1)) =
      Some (if \<exists>i < length (sitems b). ?hit i then Some (THE i. i < length (sitems b) \<and> ?hit i) else None)"
    unfolding l [symmetric]
    by (rule index_find_ok) (use w False inj in \<open>auto simp: shadow_hashes_def Let_def\<close>)
  moreover have "(\<exists>i < length (sitems b). ?hit i) \<longleftrightarrow> (command, winner, shadow) \<in> shadow_tuple ` set (sitems b)"
    by (auto simp: shadow_tuple_def set_conv_nth image_iff Let_def)
  ultimately show ?thesis
    using False by (simp add: shadow_tuple_recorded_def)
qed

lemma shadows_insert_tail_ok:
  assumes "index_ok (shadow_hashes b) (sindex_slots b) (sindex_cap b)"
    and b1_def: "b1 = b\<lparr>scap := cap, sitems := sitems b @ [w]\<rparr>"
  shows "\<exists>r b2 s1. shadows_index_insert_tail b1 s = Some (r, b2, s1) \<and> out s1 = out s
    \<and> sitems b2 = sitems b1 \<and> scap b2 = cap
    \<and> (if r then index_ok (shadow_hashes b1) (sindex_slots b2) (sindex_cap b2)
       else sindex_slots b2 = sindex_slots b \<and> sindex_cap b2 = sindex_cap b)
    \<and> (mem s = None \<longrightarrow> mem s1 = None) \<and> (\<not> r \<longrightarrow> mem s \<noteq> None \<or> 2 ^ 57 \<le> length (sitems b))"
proof -
  let ?h = "unat (hash_command_shadow_pair (scommand w) (sshadow w))"
  have l: "length (shadow_hashes b) = length (sitems b)" "length (shadow_hashes b1) = length (sitems b) + 1"
    "shadow_hashes b1 = shadow_hashes b @ [?h]"
    by (simp_all add: shadow_hashes_def b1_def)
  show ?thesis
  proof (cases "sindex_cap b = 0 \<or> length (sitems b) + 1 > sindex_cap b div 2")
    case True
    then consider "new_index_cap (length (sitems b) + 1) (sindex_cap b) = Some None" "2 ^ 57 \<le> length (sitems b)"
      | c where "new_index_cap (length (sitems b) + 1) (sindex_cap b) = Some (Some c)" "pow2 c"
          "2 * (length (sitems b) + 1) \<le> c" "16 \<le> c" "c > SIZE_MAX div 8 \<longrightarrow> 2 ^ 57 \<le> length (sitems b)"
      using new_index_cap_ok [OF assms(1), of "length (sitems b) + 1"] l(1) by auto
    then show ?thesis
    proof cases
      case 1
      with True show ?thesis by (auto simp: shadows_index_insert_tail_def b1_def Let_def)
    next
      case 2
      from index_rehash_ok [of "shadow_hashes b1" c s] 2 l obtain r s1 where
        r: "index_rehash (shadow_hashes b1) c s = Some (r, s1)" "out s1 = out s"
          "\<And>sl. r = Some sl \<Longrightarrow> index_ok (shadow_hashes b1) (Some sl) c"
          "mem s = None \<longrightarrow> mem s1 = None" "r = None \<longrightarrow> mem s \<noteq> None \<or> c > SIZE_MAX div 8" by auto
      have "shadows_index_insert_tail b1 s = shadows_index_rehash b1 c s"
        using True 2(1) by (auto simp: shadows_index_insert_tail_def b1_def Let_def)
      with r 2(5) show ?thesis
        by (cases r) (auto simp: shadows_index_rehash_def b1_def)
    qed
  next
    case False
    then have room: "length (shadow_hashes b) + 1 \<le> sindex_cap b div 2" using l by simp
    have cap: "sindex_cap b \<noteq> 0" using False by simp
    from index_enter_ok [OF assms(1) cap room] obtain p where
      p: "probe_free (the (sindex_slots b)) (?h AND (sindex_cap b - 1)) = Some p"
        "index_ok (shadow_hashes b1) (Some ((the (sindex_slots b))[p := length (sitems b)])) (sindex_cap b)"
      using l(1,3) by auto
    have t: "shadow_hashes b1 ! length (sitems b) = ?h"
      using l(1) unfolding l(3) by (metis nth_append_length)
    with p False show ?thesis
      by (auto simp: shadows_index_insert_tail_def b1_def Let_def)
  qed
qed

lemma shadows_append_ok:
  assumes "shadows_ok b" and "shadows_admit b r1"
    and r1: "r1 = \<lparr>scommand = command, swinner = winner, sshadow = shadow, shadow_index = index\<rparr>"
  shows "\<exists>r b1 s1. shadows_append b command winner shadow index s = Some (r, b1, s1) \<and> shadows_ok b1 \<and> out s1 = out s
    \<and> sitems b1 = (if r then sitems b @ [r1] else sitems b)
    \<and> (mem s = None \<longrightarrow> mem s1 = None) \<and> (\<not> r \<longrightarrow> mem s \<noteq> None \<or> 2 ^ 57 \<le> length (sitems b))"
proof -
  note w = assms(1) [unfolded shadows_ok_def]
  obtain g s1 where g: "reserve 16 32 (length (sitems b)) (scap b) s = (g, s1)" by fastforce
  from reserve_ok [OF this] w have g1: "out s1 = out s" "\<And>c. g = Some c \<Longrightarrow> length (sitems b) < c" by auto
  from reserve_cause [OF g] have cause: "mem s = None \<longrightarrow> mem s1 = None" "g = None \<longrightarrow> mem s \<noteq> None \<or> 2 ^ 57 \<le> length (sitems b)" by auto
  show ?thesis
  proof (cases g)
    case None
    with g g1 cause assms(1) show ?thesis by (auto simp: shadows_append_def)
  next
    case (Some cap)
    let ?b1 = "b\<lparr>scap := cap, sitems := sitems b @ [r1]\<rparr>"
    from shadows_insert_tail_ok [of b ?b1 r1 cap s1] w obtain r b2 s2 where
      i: "shadows_index_insert_tail ?b1 s1 = Some (r, b2, s2)" "out s2 = out s1" "sitems b2 = sitems ?b1" "scap b2 = cap"
        "if r then index_ok (shadow_hashes ?b1) (sindex_slots b2) (sindex_cap b2)
         else sindex_slots b2 = sindex_slots b \<and> sindex_cap b2 = sindex_cap b"
        "mem s1 = None \<longrightarrow> mem s2 = None" "\<not> r \<longrightarrow> mem s1 \<noteq> None \<or> 2 ^ 57 \<le> length (sitems b)" by auto
    have "shadow_hashes b2 = shadow_hashes ?b1" using i(3) by (simp add: shadow_hashes_def)
    moreover have "shadow_hashes (b2\<lparr>sitems := butlast (sitems b2)\<rparr>) = shadow_hashes b"
      using i(3) by (simp add: shadow_hashes_def)
    moreover have "distinct (map shadow_key (sitems b @ [r1]))"
      using w assms(2) by (auto simp: shadows_admit_def)
    ultimately show ?thesis
      using g g1(1) g1(2) [OF Some] Some i w cause
      by (cases r) (auto simp: shadows_append_def shadows_ok_def Let_def r1)
  qed
qed

lemma ShadowRecord_eta:
  "\<lparr>scommand = scommand r, swinner = swinner r, sshadow = sshadow r, shadow_index = shadow_index r\<rparr> = r"
  by simp

interpretation shadow_table: keyed_table shadows_ok sitems shadow_tuple shadows_admit
    "\<lambda>b (command, winner, shadow). shadow_tuple_recorded b command winner shadow"
    "\<lambda>b r. shadows_append b (scommand r) (swinner r) (sshadow r) (shadow_index r)"
proof
  show "(case k of (command, winner, shadow) \<Rightarrow> shadow_tuple_recorded b command winner shadow)
      = Some (k \<in> shadow_tuple ` set (sitems b))"
    if "shadows_ok b" for b k
    using shadow_tuple_recorded_ok [OF that] by (cases k) simp
  show "\<exists>r1 b1 s1. shadows_append b (scommand r) (swinner r) (sshadow r) (shadow_index r) s = Some (r1, b1, s1)
      \<and> shadows_ok b1 \<and> out s1 = out s \<and> sitems b1 = (if r1 then sitems b @ [r] else sitems b)
      \<and> (mem s = None \<longrightarrow> mem s1 = None) \<and> (\<not> r1 \<longrightarrow> mem s \<noteq> None \<or> 2 ^ 57 \<le> length (sitems b))"
    if "shadows_ok b" "shadows_admit b r" for b r s
    using shadows_append_ok [OF that, OF ShadowRecord_eta [symmetric]] .
qed

section \<open>Recording a hit\<close>

text \<open>\<open>owned_strdup\<close>: whether the copy could be made.\<close>

definition owned_strdup :: "io \<Rightarrow> bool \<times> io" where
  "owned_strdup s = c_malloc s"

definition record_executable_hit ::
  "cstr \<Rightarrow> cstr \<Rightarrow> nat \<Rightarrow> WinnerBuffer \<Rightarrow> ShadowBuffer \<Rightarrow> io
    \<Rightarrow> (int \<times> WinnerBuffer \<times> ShadowBuffer \<times> io) option" where
  "record_executable_hit command resolved path_index winners shadows s =
     (case winners_find winners command of
        None \<Rightarrow> None
      | Some (Some winner) \<Rightarrow>
          if wpath winner = resolved then Some (0, winners, shadows, s)
          else
            (case shadow_tuple_recorded shadows command (wpath winner) resolved of
               None \<Rightarrow> None
             | Some True \<Rightarrow> Some (0, winners, shadows, s)
             | Some False \<Rightarrow>
                 (case owned_strdup s of
                    (ok1, s1) \<Rightarrow>
                      (case owned_strdup s1 of
                         (ok2, s2) \<Rightarrow>
                           if \<not> ok1 \<or> \<not> ok2
                           then Some (2, winners, shadows, emit_diag_reason ''OUT_OF_MEMORY'' s2)
                           else
                             (case shadows_append shadows command (wpath winner) resolved path_index s2 of
                                None \<Rightarrow> None
                              | Some (ok, shadows1, s3) \<Rightarrow>
                                  if \<not> ok
                                  then Some (2, winners, shadows1, emit_diag_reason ''OUT_OF_MEMORY'' s3)
                                  else Some (0, winners, shadows1, s3)))))
      | Some None \<Rightarrow>
          (case owned_strdup s of
             (ok1, s1) \<Rightarrow>
               if \<not> ok1 then Some (2, winners, shadows, emit_diag_reason ''OUT_OF_MEMORY'' s1)
               else
                 (case winners_append winners command resolved s1 of
                    None \<Rightarrow> None
                  | Some (ok, winners1, s2) \<Rightarrow>
                      if \<not> ok then Some (2, winners1, shadows, emit_diag_reason ''OUT_OF_MEMORY'' s2)
                      else Some (0, winners1, shadows, s2))))"

text \<open>
  The specification on the sequence of hits (command, path, index) in the order in which they are
  found: the first hit of a command wins; every other path of the command is a shadow, at the
  index of its first hit.
\<close>

type_synonym hit = "cstr \<times> cstr \<times> nat"

definition winner_of :: "hit list \<Rightarrow> cstr \<rightharpoonup> cstr" where
  "winner_of hits = map_of (map (\<lambda>(c, p, i). (c, p)) hits)"

definition index_of :: "hit list \<Rightarrow> cstr \<times> cstr \<rightharpoonup> nat" where
  "index_of hits = map_of (map (\<lambda>(c, p, i). ((c, p), i)) hits)"

definition shadow_spec :: "hit list \<Rightarrow> ShadowRecord set" where
  "shadow_spec hits = {r. winner_of hits (scommand r) = Some (swinner r) \<and> sshadow r \<noteq> swinner r
     \<and> index_of hits (scommand r, sshadow r) = Some (shadow_index r)}"

definition tables_ok :: "hit list \<Rightarrow> WinnerBuffer \<Rightarrow> ShadowBuffer \<Rightarrow> bool" where
  "tables_ok hits winners shadows \<longleftrightarrow> winners_ok winners \<and> shadows_ok shadows
     \<and> (\<forall>c. map_option wpath (find (\<lambda>w. wcommand w = c) (witems winners)) = winner_of hits c)
     \<and> set (sitems shadows) = shadow_spec hits"

lemma tables_ok_empty: "tables_ok [] no_winners no_shadows"
  by (simp add: tables_ok_def winners_ok_def shadows_ok_def no_winners_def no_shadows_def index_ok_def
      winner_hashes_def shadow_hashes_def winner_of_def shadow_spec_def)

lemma index_of_winner: "index_of hits (c, p) = Some i \<Longrightarrow> winner_of hits c \<noteq> None"
  by (induction hits) (auto simp: index_of_def winner_of_def split: if_splits)

lemma winner_index: "winner_of hits c = Some p \<Longrightarrow> index_of hits (c, p) \<noteq> None"
  by (induction hits) (auto simp: index_of_def winner_of_def split: if_splits)

lemma winner_of_snoc: "winner_of (hits @ [(c, p, i)]) = [c \<mapsto> p] ++ winner_of hits"
  by (simp add: winner_of_def map_of_append)

lemma index_of_snoc: "index_of (hits @ [(c, p, i)]) = [(c, p) \<mapsto> i] ++ index_of hits"
  by (simp add: index_of_def map_of_append)

text \<open>A hit that is known already, and one of a command that has another winner.\<close>

lemma known_hit:
  assumes "winner_of hits c = Some q" and "index_of hits (c, p) = Some j"
  shows "winner_of (hits @ [(c, p, i)]) = winner_of hits" "index_of (hits @ [(c, p, i)]) = index_of hits"
  using assms by (auto simp: winner_of_snoc index_of_snoc map_add_def fun_eq_iff split: option.split)

lemma shadow_spec_cong:
  "winner_of hits1 = winner_of hits \<Longrightarrow> index_of hits1 = index_of hits \<Longrightarrow> shadow_spec hits1 = shadow_spec hits"
  by (simp add: shadow_spec_def)

lemma shadow_spec_new_path:
  assumes "winner_of hits c = Some q" and "q \<noteq> p" and "index_of hits (c, p) = None"
  shows "shadow_spec (hits @ [(c, p, i)]) =
    insert \<lparr>scommand = c, swinner = q, sshadow = p, shadow_index = i\<rparr> (shadow_spec hits)"
proof -
  have w: "winner_of (hits @ [(c, p, i)]) = winner_of hits"
    using assms(1) by (auto simp: winner_of_snoc map_add_def fun_eq_iff split: option.split)
  have x: "index_of (hits @ [(c, p, i)]) k = (if k = (c, p) then Some i else index_of hits k)" for k
    using assms(3) by (auto simp: index_of_snoc map_add_def split: option.split)
  show ?thesis
    unfolding shadow_spec_def w x using assms
    by (auto intro!: ShadowRecord.equality)
qed

lemma shadow_spec_new_command:
  assumes "winner_of hits c = None"
  shows "shadow_spec (hits @ [(c, p, i)]) = shadow_spec hits"
proof -
  have none: "index_of hits (c, p1) = None" for p1
    using index_of_winner [of hits c p1] assms by (cases "index_of hits (c, p1)") auto
  have w: "winner_of (hits @ [(c, p, i)]) d = (if d = c then Some p else winner_of hits d)" for d
    using assms by (simp add: winner_of_snoc map_add_def split: option.split)
  have x: "index_of (hits @ [(c, p, i)]) k = (if k = (c, p) then Some i else index_of hits k)" for k
    using none by (auto simp: index_of_snoc map_add_def split: option.split)
  show ?thesis
  proof (rule set_eqI)
    fix r show "r \<in> shadow_spec (hits @ [(c, p, i)]) \<longleftrightarrow> r \<in> shadow_spec hits"
      using assms none by (cases "scommand r = c") (simp_all add: shadow_spec_def w x)
  qed
qed

lemma winner_of_hit: "winner_of hits c = Some p \<Longrightarrow> \<exists>i. (c, p, i) \<in> set hits"
  by (auto simp: winner_of_def dest!: map_of_SomeD)

lemma index_of_hit: "index_of hits (c, p) = Some i \<Longrightarrow> (c, p, i) \<in> set hits"
  by (auto simp: index_of_def dest!: map_of_SomeD)

text \<open>The tables are no longer than the list of hits.\<close>

lemma tables_sizes:
  assumes "tables_ok hits winners shadows"
  shows "length (witems winners) \<le> length hits" "length (sitems shadows) \<le> length hits"
proof -
  note t = assms [unfolded tables_ok_def winners_ok_def shadows_ok_def]
  have "set (map wcommand (witems winners)) \<subseteq> fst ` set hits"
  proof
    fix c assume "c \<in> set (map wcommand (witems winners))"
    then have "find (\<lambda>w. wcommand w = c) (witems winners) \<noteq> None" by (auto simp: find_None_iff)
    moreover have "map_option wpath (find (\<lambda>w. wcommand w = c) (witems winners)) = winner_of hits c" using t by blast
    ultimately obtain p where "winner_of hits c = Some p" by force
    from winner_of_hit [OF this] show "c \<in> fst ` set hits" by force
  qed
  then have "card (set (map wcommand (witems winners))) \<le> length hits"
    by (meson card_image_le card_length card_mono finite_imageI List.finite_set order_trans)
  with t show "length (witems winners) \<le> length hits" by (metis distinct_card length_map)
  have "set (map shadow_key (sitems shadows)) \<subseteq> (\<lambda>(c, p, i). (c, p)) ` set hits"
  proof
    fix k assume "k \<in> set (map shadow_key (sitems shadows))"
    then obtain r where "r \<in> shadow_spec hits" "k = shadow_key r" using t by auto
    then show "k \<in> (\<lambda>(c, p, i). (c, p)) ` set hits"
      by (force simp: shadow_spec_def shadow_key_def dest: index_of_hit)
  qed
  then have "card (set (map shadow_key (sitems shadows))) \<le> length hits"
    by (meson card_image_le card_length card_mono finite_imageI List.finite_set order_trans)
  with t show "length (sitems shadows) \<le> length hits" by (metis distinct_card length_map)
qed

lemma record_hit_ok:
  assumes ok: "tables_ok hits winners shadows"
  shows "\<exists>r winners1 shadows1 s1.
    record_executable_hit c p i winners shadows s = Some (r, winners1, shadows1, s1) \<and> out s1 = out s
    \<and> (if r = 0 then tables_ok (hits @ [(c, p, i)]) winners1 shadows1
       else r = 2 \<and> tables_ok hits winners1 shadows1)
    \<and> (mem s = None \<longrightarrow> mem s1 = None) \<and> (r \<noteq> 0 \<longrightarrow> mem s \<noteq> None \<or> 2 ^ 57 \<le> length hits)"
proof -
  note t = ok [unfolded tables_ok_def]
  note sizes = tables_sizes [OF ok]
  obtain ok1 s1 where m1: "c_malloc s = (ok1, s1)" by fastforce
  obtain ok2 s2 where m2: "c_malloc s1 = (ok2, s2)" by fastforce
  note o = c_malloc_None [OF m1] c_malloc_None [OF m2]
  note diag = out_diag_reason mem_diag_reason
  have found: "winners_find winners c = Some (find (\<lambda>w. wcommand w = c) (witems winners))"
    using winners_find_ok t by blast
  show ?thesis
  proof (cases "find (\<lambda>w. wcommand w = c) (witems winners)")
    case (Some w)
    define q where "q = wpath w"
    from Some t have win: "winner_of hits c = Some q" unfolding q_def by (metis option.simps(9))
    have rec: "shadow_tuple_recorded shadows c q p = Some ((c, q, p) \<in> shadow_tuple ` shadow_spec hits)"
      using shadow_tuple_recorded_ok [of shadows c q p] t by simp
    have known: "(c, q, p) \<in> shadow_tuple ` shadow_spec hits \<longleftrightarrow> index_of hits (c, p) \<noteq> None" if "q \<noteq> p"
    proof
      assume "index_of hits (c, p) \<noteq> None"
      then obtain j where "index_of hits (c, p) = Some j" by blast
      with win that have "\<lparr>scommand = c, swinner = q, sshadow = p, shadow_index = j\<rparr> \<in> shadow_spec hits"
        by (simp add: shadow_spec_def)
      then show "(c, q, p) \<in> shadow_tuple ` shadow_spec hits"
        by (rule rev_image_eqI) (simp add: shadow_tuple_def)
    qed (auto simp: shadow_spec_def shadow_tuple_def)
    show ?thesis
    proof (cases "q = p \<or> index_of hits (c, p) \<noteq> None")
      case True
      then obtain j where j: "index_of hits (c, p) = Some j"
        using winner_index [of hits c p] win by auto
      have "record_executable_hit c p i winners shadows s = Some (0, winners, shadows, s)"
        using found Some True known rec by (auto simp: record_executable_hit_def q_def)
      moreover have "tables_ok (hits @ [(c, p, i)]) winners shadows"
        using ok known_hit [OF win j, of i] shadow_spec_cong [OF known_hit [OF win j, of i]]
        by (simp add: tables_ok_def)
      ultimately show ?thesis by auto
    next
      case False
      then have nq: "q \<noteq> p" and none: "index_of hits (c, p) = None" by simp_all
      let ?r = "\<lparr>scommand = c, swinner = q, sshadow = p, shadow_index = i\<rparr>"
      have "shadows_admit shadows ?r"
        using t none by (force simp: shadows_admit_def shadow_key_def shadow_spec_def)
      with shadow_table.add [of shadows ?r s2] t obtain r shadows1 s3 where
        a: "shadows_append shadows c q p i s2 = Some (r, shadows1, s3)" "shadows_ok shadows1" "out s3 = out s2"
          "sitems shadows1 = (if r then sitems shadows @ [?r] else sitems shadows)"
          "mem s2 = None \<longrightarrow> mem s3 = None" "\<not> r \<longrightarrow> mem s2 \<noteq> None \<or> 2 ^ 57 \<le> length (sitems shadows)" by auto
      have w: "winner_of (hits @ [(c, p, i)]) = winner_of hits"
        using win by (auto simp: winner_of_snoc map_add_def fun_eq_iff split: option.split)
      have "record_executable_hit c p i winners shadows s =
        (if \<not> ok1 \<or> \<not> ok2 then Some (2, winners, shadows, emit_diag_reason ''OUT_OF_MEMORY'' s2)
         else if \<not> r then Some (2, winners, shadows1, emit_diag_reason ''OUT_OF_MEMORY'' s3)
         else Some (0, winners, shadows1, s3))"
        using found Some nq none known rec m1 m2 a(1)
        by (auto simp: record_executable_hit_def q_def owned_strdup_def)
      then show ?thesis
        using a t o diag sizes shadow_spec_new_path [OF win nq none, of i] w
        by (cases "ok1 \<and> ok2"; cases r) (auto simp: tables_ok_def)
    qed
  next
    case None
    with t have win: "winner_of hits c = None" by (metis option.simps(8))
    let ?w = "\<lparr>wcommand = c, wpath = p\<rparr>"
    have "winners_admit winners ?w"
      using None by (auto simp: winners_admit_def find_None_iff)
    with winner_table.add [of winners ?w s1] t obtain r winners1 s3 where
      a: "winners_append winners c p s1 = Some (r, winners1, s3)" "winners_ok winners1" "out s3 = out s1"
        "witems winners1 = (if r then witems winners @ [?w] else witems winners)"
        "mem s1 = None \<longrightarrow> mem s3 = None" "\<not> r \<longrightarrow> mem s1 \<noteq> None \<or> 2 ^ 57 \<le> length (witems winners)" by auto
    have "map_option wpath (find (\<lambda>w. wcommand w = d) (witems winners @ [?w])) = winner_of (hits @ [(c, p, i)]) d" for d
    proof -
      have d: "winner_of hits d = map_option wpath (find (\<lambda>w. wcommand w = d) (witems winners))" using t by simp
      show ?thesis
      proof (cases "d = c")
        case True
        with None win show ?thesis by (simp add: winner_of_snoc map_add_def find_append)
      next
        case False
        with d show ?thesis by (simp add: winner_of_snoc map_add_def find_append split: option.split)
      qed
    qed
    moreover have "record_executable_hit c p i winners shadows s =
        (if \<not> ok1 then Some (2, winners, shadows, emit_diag_reason ''OUT_OF_MEMORY'' s1)
         else if \<not> r then Some (2, winners1, shadows, emit_diag_reason ''OUT_OF_MEMORY'' s3)
         else Some (0, winners1, shadows, s3))"
      using found None m1 a(1) by (auto simp: record_executable_hit_def owned_strdup_def)
    ultimately show ?thesis
      using a t o diag sizes shadow_spec_new_command [OF win, of p i]
      by (cases ok1; cases r) (auto simp: tables_ok_def)
  qed
qed

end
