(* ===== verification/Pathaudit_Path.thy ===== *)
theory Pathaudit_Path
  imports Pathaudit_Output
begin

text \<open>
  Loading \<open>PATH\<close> in \<open>src/pathaudit.c\<close>: the limits, the cut of the environment string at every
  colon into components that point into one storage, and the coalescing that writes colons back
  into that storage.  The storage is an explicit byte list and a component is an offset into it,
  so the aliasing of the components is in the model.  The result is shown to be a function of
  the string alone (\<open>coalesce_spec\<close> of its fields), from which the string can be put together
  again.
\<close>

section \<open>The code\<close>

definition PATHAUDIT_MAX_ROOT_COUNT :: nat where "PATHAUDIT_MAX_ROOT_COUNT = 65536"
definition PATHAUDIT_MAX_ROOT_LENGTH :: nat where "PATHAUDIT_MAX_ROOT_LENGTH = 65536"
definition PATHAUDIT_MAX_ROOT_BYTES :: nat where "PATHAUDIT_MAX_ROOT_BYTES = 1048576"

text \<open>\<open>struct Root\<close> while its text is an offset into the storage, and once it is read.\<close>

record Slice =
  start :: nat
  slice_index :: nat
  slice_len :: nat

record Root =
  text_of_root :: cstr
  root_index :: nat
  root_len :: nat

definition text_at :: "char list \<Rightarrow> nat \<Rightarrow> cstr" where
  "text_at storage p = cstr_of (drop p storage)"

definition size_add_ok :: "nat \<Rightarrow> nat \<Rightarrow> nat option" where
  "size_add_ok a b = (if a > SIZE_MAX - b then None else Some (a + b))"

text \<open>The loop that counts the components; \<open>None\<close> is the limit.\<close>

fun count_roots :: "cstr \<Rightarrow> nat \<Rightarrow> nat option" where
  "count_roots [] n = Some n"
| "count_roots (c # p) n =
     (if c = CHR '':'' then
        (if n \<ge> PATHAUDIT_MAX_ROOT_COUNT then None else count_roots p (n + 1))
      else count_roots p n)"

text \<open>
  The loop over the copy of the string: the bytes from \<open>p\<close> on, where the end of the list is the
  terminating NUL; \<open>Inl\<close> is the reason of a failure.
\<close>

definition close_field :: "nat \<Rightarrow> nat \<Rightarrow> nat \<Rightarrow> nat \<Rightarrow> Slice list \<Rightarrow> cstr + nat \<times> Slice list" where
  "close_field root_count p st bytes roots =
     (let len = p - st in
      if len > PATHAUDIT_MAX_ROOT_LENGTH then Inl ''ROOT_LENGTH_LIMIT''
      else
        (case size_add_ok len 1 of
           None \<Rightarrow> Inl ''ROOT_BYTES_LIMIT''
         | Some with_nul \<Rightarrow>
             (case size_add_ok bytes with_nul of
                None \<Rightarrow> Inl ''ROOT_BYTES_LIMIT''
              | Some bytes1 \<Rightarrow>
                  if bytes1 > PATHAUDIT_MAX_ROOT_BYTES then Inl ''ROOT_BYTES_LIMIT''
                  else if length roots \<ge> root_count then Inl ''OUT_OF_MEMORY''
                  else Inr (bytes1, roots @ [\<lparr>start = st, slice_index = length roots, slice_len = len\<rparr>]))))"

fun split_fields :: "nat \<Rightarrow> cstr \<Rightarrow> nat \<Rightarrow> nat \<Rightarrow> nat \<Rightarrow> Slice list \<Rightarrow> cstr + Slice list" where
  "split_fields root_count [] p st bytes roots =
     (case close_field root_count p st bytes roots of
        Inl e \<Rightarrow> Inl e
      | Inr (bytes1, roots1) \<Rightarrow> Inr roots1)"
| "split_fields root_count (c # cs) p st bytes roots =
     (if c \<noteq> CHR '':'' then split_fields root_count cs (p + 1) st bytes roots
      else
        (case close_field root_count p st bytes roots of
           Inl e \<Rightarrow> Inl e
         | Inr (bytes1, roots1) \<Rightarrow> split_fields root_count cs (p + 1) (p + 1) bytes1 roots1))"

text \<open>What that loop leaves in the storage.\<close>

definition cut_storage :: "cstr \<Rightarrow> char list" where
  "cut_storage env = map (\<lambda>c. if c = CHR '':'' then NUL else c) env @ [NUL]"

text \<open>
  The inner loop of \<open>coalesce_inspection_path_fragments\<close> for the component at offset \<open>st\<close>: the
  storage, the number of separators written back, the length of the joined text, and whether it
  is accepted.
\<close>

fun join_fragments ::
  "(cstr \<Rightarrow> nat + stat) \<Rightarrow> nat \<Rightarrow> Slice list \<Rightarrow> char list \<Rightarrow> nat \<Rightarrow> nat \<Rightarrow> char list \<times> nat \<times> nat \<times> bool" where
  "join_fragments stat st [] storage restored len = (storage, restored, len, False)"
| "join_fragments stat st (r # rs) storage restored len =
     (if slice_len r = 0 then (storage, restored, len, False)
      else
        (let merged_len = start r + slice_len r - st in
         if merged_len > PATHAUDIT_MAX_ROOT_LENGTH then (storage, restored, len, False)
         else
           (let storage1 = storage[start r - 1 := CHR '':''] in
            case stat (text_at storage1 st) of
              Inr x \<Rightarrow> (storage1, restored + 1, merged_len, False)
            | Inl e \<Rightarrow>
                if e \<noteq> ENOENT then (storage1, restored + 1, merged_len, True)
                else join_fragments stat st rs storage1 (restored + 1) merged_len)))"

definition cut_again :: "Slice list \<Rightarrow> char list \<Rightarrow> char list" where
  "cut_again rs storage = foldl (\<lambda>st r. st[start r - 1 := NUL]) storage (takeWhile (\<lambda>r. slice_len r \<noteq> 0) rs)"

lemma join_fragments_restored:
  "join_fragments stat st rs storage k len = (storage1, k1, len1, ok) \<Longrightarrow> k1 \<le> k + length rs"
  by (induction stat st rs storage k len rule: join_fragments.induct)
    (auto simp: Let_def split: if_splits sum.splits)

text \<open>The outer loop; \<open>outs\<close> are the components that are kept so far.\<close>

function coalesce_inspection_path_fragments ::
  "(cstr \<Rightarrow> nat + stat) \<Rightarrow> Slice list \<Rightarrow> char list \<Rightarrow> Slice list \<Rightarrow> char list \<times> Slice list" where
  "coalesce_inspection_path_fragments stat [] storage outs = (storage, outs)"
| "coalesce_inspection_path_fragments stat (r # rs) storage outs =
     (let keep = outs @ [r\<lparr>slice_index := length outs\<rparr>] in
      if slice_len r = 0 then coalesce_inspection_path_fragments stat rs storage keep
      else
        (case stat (text_at storage (start r)) of
           Inr x \<Rightarrow> coalesce_inspection_path_fragments stat rs storage keep
         | Inl e \<Rightarrow>
             if e \<noteq> ENOENT then coalesce_inspection_path_fragments stat rs storage keep
             else
               (case join_fragments stat (start r) rs storage 0 (slice_len r) of
                  (storage1, restored, len, accepted) \<Rightarrow>
                    if \<not> accepted
                    then coalesce_inspection_path_fragments stat rs (cut_again (take restored rs) storage1) keep
                    else coalesce_inspection_path_fragments stat (drop restored rs) storage1
                           (outs @ [\<lparr>start = start r, slice_index = length outs, slice_len = len\<rparr>]))))"
  by pat_completeness auto
termination
  by (relation "measure (\<lambda>(stat, rs, storage, outs). length rs)") auto

definition path_components_load ::
  "(cstr \<Rightarrow> nat + stat) \<Rightarrow> cstr option \<Rightarrow> io \<Rightarrow> (int + Root list) \<times> io" where
  "path_components_load stat path_env s =
     (case path_env of
        None \<Rightarrow> (Inl 2, emit_diag_reason ''PATH_UNSET'' s)
      | Some env \<Rightarrow>
          (case count_roots env 1 of
             None \<Rightarrow> (Inl 2, emit_diag_reason ''ROOT_COUNT_LIMIT'' s)
           | Some root_count \<Rightarrow>
               (case c_malloc s of
                  (ok1, s1) \<Rightarrow>
                    if \<not> ok1 then (Inl 2, emit_diag_reason ''OUT_OF_MEMORY'' s1)
                    else
                      (case c_malloc s1 of
                         (ok2, s2) \<Rightarrow>
                           if \<not> ok2 then (Inl 2, emit_diag_reason ''OUT_OF_MEMORY'' s2)
                           else
                             (case split_fields root_count env 0 0 0 [] of
                                Inl reason \<Rightarrow> (Inl 2, emit_diag_reason reason s2)
                              | Inr roots \<Rightarrow>
                                  if length roots \<noteq> root_count
                                  then (Inl 2, emit_diag_reason ''OUT_OF_MEMORY'' s2)
                                  else
                                    (case coalesce_inspection_path_fragments stat roots (cut_storage env) [] of
                                       (storage, kept) \<Rightarrow>
                                         (Inr (map (\<lambda>r. \<lparr>text_of_root = text_at storage (start r),
                                            root_index = slice_index r, root_len = slice_len r\<rparr>) kept), s2)))))))"

section \<open>The specification\<close>

text \<open>The fields of a string between colons.\<close>

fun fields :: "cstr \<Rightarrow> cstr list" where
  "fields [] = [[]]"
| "fields (c # p) =
     (if c = CHR '':'' then [] # fields p else (c # hd (fields p)) # tl (fields p))"

text \<open>The string with these fields.\<close>

fun join_fields :: "cstr list \<Rightarrow> cstr" where
  "join_fields [] = []"
| "join_fields [t] = t"
| "join_fields (t # u # ts) = t @ CHR '':'' # join_fields (u # ts)"

text \<open>
  Joining a field that does not exist with the non-empty fields after it, until the joined path
  fails for another reason.
\<close>

fun join_spec :: "(cstr \<Rightarrow> nat + stat) \<Rightarrow> cstr \<Rightarrow> cstr list \<Rightarrow> (cstr \<times> cstr list) option" where
  "join_spec stat t [] = None"
| "join_spec stat t (u # us) =
     (if u = [] then None
      else
        (let m = t @ CHR '':'' # u in
         if length m > PATHAUDIT_MAX_ROOT_LENGTH then None
         else (case stat m of
                 Inr x \<Rightarrow> None
               | Inl e \<Rightarrow> if e \<noteq> ENOENT then Some (m, us) else join_spec stat m us)))"

lemma join_spec_shrinks: "join_spec stat t us = Some (m, rest) \<Longrightarrow> length rest < length us"
proof (induction us arbitrary: t)
  case (Cons u us)
  from Cons.prems consider "rest = us" | "join_spec stat (t @ CHR '':'' # u) us = Some (m, rest)"
    by (auto simp: Let_def split: if_splits sum.splits)
  then show ?case
  proof cases
    case 2
    from Cons.IH [OF this] show ?thesis by simp
  qed simp
qed simp

function coalesce_spec :: "(cstr \<Rightarrow> nat + stat) \<Rightarrow> cstr list \<Rightarrow> cstr list" where
  "coalesce_spec stat [] = []"
| "coalesce_spec stat (t # ts) =
     (if t = [] \<or> stat t \<noteq> Inl ENOENT then t # coalesce_spec stat ts
      else (case join_spec stat t ts of
              None \<Rightarrow> t # coalesce_spec stat ts
            | Some (m, rest) \<Rightarrow> m # coalesce_spec stat rest))"
  by pat_completeness auto
termination
  by (relation "measure (\<lambda>(stat, ts). length ts)") (auto dest: join_spec_shrinks)

section \<open>Cutting the string\<close>

lemma fields_not_Nil [simp]: "fields p \<noteq> []"
  by (cases p) simp_all

lemma join_fields_Cons: "ts \<noteq> [] \<Longrightarrow> join_fields (t # ts) = t @ CHR '':'' # join_fields ts"
  by (cases ts) simp_all

lemma join_fields_fields: "join_fields (fields p) = p"
proof (induction p)
  case (Cons c p)
  then show ?case
    by (cases "fields p"; cases "tl (fields p)") (auto simp: join_fields_Cons)
qed simp

lemma fields_no_colon: "t \<in> set (fields p) \<Longrightarrow> CHR '':'' \<notin> set t"
proof (induction p arbitrary: t)
  case (Cons c p)
  then show ?case by (cases "fields p") (auto split: if_splits)
qed simp

lemma fields_is_cstr: "is_cstr p \<Longrightarrow> t \<in> set (fields p) \<Longrightarrow> is_cstr t"
proof (induction p arbitrary: t)
  case (Cons c p)
  then show ?case by (cases "fields p") (auto split: if_splits)
qed simp

fun slices :: "nat \<Rightarrow> nat \<Rightarrow> nat list \<Rightarrow> Slice list" where
  "slices p k [] = []"
| "slices p k (l # ls) = \<lparr>start = p, slice_index = k, slice_len = l\<rparr> # slices (p + l + 1) (k + 1) ls"

lemma close_field_iff:
  "close_field root_count p st bytes roots = Inr (bytes1, roots1) \<longleftrightarrow>
     p - st \<le> PATHAUDIT_MAX_ROOT_LENGTH \<and> bytes + (p - st) + 1 \<le> PATHAUDIT_MAX_ROOT_BYTES
     \<and> length roots < root_count \<and> bytes1 = bytes + (p - st) + 1
     \<and> roots1 = roots @ [\<lparr>start = st, slice_index = length roots, slice_len = p - st\<rparr>]"
  by (auto simp: close_field_def size_add_ok_def Let_def SIZE_MAX_def PATHAUDIT_MAX_ROOT_LENGTH_def
      PATHAUDIT_MAX_ROOT_BYTES_def)

text \<open>The lengths of the fields from \<open>p\<close> on, when the first one starts at \<open>st\<close>.\<close>

definition field_lens :: "cstr \<Rightarrow> nat \<Rightarrow> nat list" where
  "field_lens cs n = (n + length (hd (fields cs))) # map length (tl (fields cs))"

definition lens_fit :: "nat \<Rightarrow> nat list \<Rightarrow> bool" where
  "lens_fit bytes ls \<longleftrightarrow> (\<forall>l \<in> set ls. l \<le> PATHAUDIT_MAX_ROOT_LENGTH)
     \<and> bytes + sum_list ls + length ls \<le> PATHAUDIT_MAX_ROOT_BYTES"

lemma split_fields_iff:
  assumes "st \<le> p"
  shows "split_fields root_count cs p st bytes roots = Inr roots1 \<longleftrightarrow>
    lens_fit bytes (field_lens cs (p - st)) \<and> length roots + length (field_lens cs (p - st)) \<le> root_count
    \<and> roots1 = roots @ slices st (length roots) (field_lens cs (p - st))"
  using assms
proof (induction cs arbitrary: p st bytes roots)
  case Nil
  have "split_fields root_count [] p st bytes roots = Inr roots1 \<longleftrightarrow>
      (\<exists>b. close_field root_count p st bytes roots = Inr (b, roots1))"
    by (auto split: sum.splits)
  then show ?case
    unfolding close_field_iff by (auto simp: field_lens_def lens_fit_def)
next
  case (Cons c cs)
  show ?case
  proof (cases "c = CHR '':''")
    case False
    then have "field_lens (c # cs) (p - st) = field_lens cs (p + 1 - st)"
      using Cons.prems by (simp add: field_lens_def)
    with False Cons.IH [of st "p + 1" bytes roots] Cons.prems show ?thesis by simp
  next
    case True
    have fl: "field_lens (c # cs) (p - st) = (p - st) # field_lens cs 0"
      using True by (cases "fields cs") (simp_all add: field_lens_def)
    let ?r = "\<lparr>start = st, slice_index = length roots, slice_len = p - st\<rparr>"
    have "split_fields root_count (c # cs) p st bytes roots = Inr roots1 \<longleftrightarrow>
      (\<exists>b r. close_field root_count p st bytes roots = Inr (b, r)
        \<and> split_fields root_count cs (p + 1) (p + 1) b r = Inr roots1)"
      using True by (auto split: sum.splits)
    also have "\<dots> \<longleftrightarrow> p - st \<le> PATHAUDIT_MAX_ROOT_LENGTH \<and> bytes + (p - st) + 1 \<le> PATHAUDIT_MAX_ROOT_BYTES
        \<and> length roots < root_count
        \<and> split_fields root_count cs (p + 1) (p + 1) (bytes + (p - st) + 1) (roots @ [?r]) = Inr roots1"
      unfolding close_field_iff by auto
    also have "\<dots> \<longleftrightarrow> lens_fit bytes ((p - st) # field_lens cs 0)
        \<and> length roots + length ((p - st) # field_lens cs 0) \<le> root_count
        \<and> roots1 = roots @ slices st (length roots) ((p - st) # field_lens cs 0)"
      using Cons.IH [of "p + 1" "p + 1" "bytes + (p - st) + 1" "roots @ [?r]"] Cons.prems
      by (auto simp: lens_fit_def add.assoc Suc_diff_le)
    finally show ?thesis unfolding fl .
  qed
qed

lemma count_roots_iff:
  "n \<le> PATHAUDIT_MAX_ROOT_COUNT \<Longrightarrow> count_roots p n = Some m \<longleftrightarrow>
     m = n + length (fields p) - 1 \<and> m \<le> PATHAUDIT_MAX_ROOT_COUNT"
proof (induction p arbitrary: n)
  case (Cons c p)
  obtain l where f: "length (fields p) = Suc l" by (cases "fields p") auto
  show ?case
  proof (cases "c = CHR '':''")
    case True
    show ?thesis
    proof (cases "n \<ge> PATHAUDIT_MAX_ROOT_COUNT")
      case True
      with \<open>c = CHR '':''\<close> f show ?thesis by (auto simp: Suc_le_eq)
    next
      case False
      with True Cons.IH [of "n + 1"] f show ?thesis by auto
    qed
  next
    case False
    with Cons f show ?thesis by (cases "fields p") simp_all
  qed
qed auto

section \<open>Coalescing\<close>

definition layout :: "cstr list \<Rightarrow> char list" where
  "layout ts = concat (map (\<lambda>t. t @ [NUL]) ts)"

lemma layout_simps [simp]: "layout [] = []" "layout (t # ts) = t @ NUL # layout ts"
  "layout (ts @ us) = layout ts @ layout us"
  by (simp_all add: layout_def)

lemma layout_single: "layout [t] = t @ [NUL]"
  by simp

lemma length_layout: "length (layout ts) = sum_list (map length ts) + length ts"
  by (induction ts) simp_all

lemma cut_storage_layout: "cut_storage p = layout (fields p)"
proof (induction p)
  case (Cons c p)
  then show ?case by (cases "fields p") (simp_all add: cut_storage_def)
qed (simp add: cut_storage_def)

lemma text_at_layout: "is_cstr t \<Longrightarrow> text_at (pre @ t @ NUL # rest) (length pre) = t"
  by (simp add: text_at_def cstr_of_def is_cstr_def takeWhile_append)

lemma slices_append: "slices p k (ls @ ms) = slices p k ls @ slices (p + sum_list ls + length ls) (k + length ls) ms"
  by (induction ls arbitrary: p k) (simp_all add: add.assoc)

lemma slices_take: "take n (slices p k ls) = slices p k (take n ls)"
proof (induction ls arbitrary: n p k)
  case (Cons l ls)
  then show ?case by (cases n) simp_all
qed simp

lemma slices_drop:
  "drop n (slices p k ls) = slices (p + sum_list (take n ls) + length (take n ls)) (k + length (take n ls)) (drop n ls)"
proof (induction ls arbitrary: n p k)
  case (Cons l ls)
  then show ?case by (cases n) (simp_all add: add.assoc)
qed simp

lemma cut_again_join:
  assumes "\<forall>v \<in> set vs. v \<noteq> []"
  shows "cut_again (slices (length pre + length t + 1) k (map length vs)) (pre @ join_fields (t # vs) @ rest)
    = pre @ butlast (layout (t # vs)) @ rest"
proof -
  have all: "takeWhile (\<lambda>r. slice_len r \<noteq> 0) (slices p k (map length vs)) = slices p k (map length vs)" for p k
    using assms by (induction vs arbitrary: p k) simp_all
  have "foldl (\<lambda>st r. st[start r - 1 := NUL]) (pre @ join_fields (t # vs) @ rest)
      (slices (length pre + length t + 1) k (map length vs)) = pre @ butlast (layout (t # vs)) @ rest"
  proof (induction vs arbitrary: pre t k)
    case (Cons v vs)
    have "(pre @ join_fields (t # v # vs) @ rest)[length pre + length t := NUL]
        = (pre @ t @ [NUL]) @ join_fields (v # vs) @ rest"
      by (simp add: list_update_append)
    with Cons.IH [of "pre @ t @ [NUL]" v "k + 1"] show ?case
      by (simp add: butlast_append)
  qed (simp add: butlast_append)
  then show ?thesis unfolding cut_again_def all .
qed

lemma join_fields_merge: "join_fields ((t @ CHR '':'' # u) # vs) = join_fields (t # u # vs)"
  by (cases vs) simp_all

lemma length_join_fields: "length (join_fields (t # vs)) = length t + sum_list (map length vs) + length vs"
  by (induction vs arbitrary: t) simp_all

lemma join_fragments_ok:
  assumes "is_cstr t" and "\<forall>u \<in> set us. is_cstr u"
  shows "\<exists>n len. join_fragments stat (length pre) (slices (length pre + length t + 1) k (map length us))
        (pre @ t @ NUL # layout us) c (length t)
      = (pre @ join_fields (t # take n us) @ NUL # layout (drop n us), c + n, len, join_spec stat t us \<noteq> None)
    \<and> n \<le> length us \<and> (\<forall>v \<in> set (take n us). v \<noteq> [])
    \<and> (\<forall>m rest. join_spec stat t us = Some (m, rest) \<longrightarrow>
         m = join_fields (t # take n us) \<and> rest = drop n us \<and> len = length m)"
  using assms
proof (induction us arbitrary: t k c)
  case Nil
  then show ?case by (intro exI [of _ 0] exI [of _ "length t"]) simp
next
  case (Cons u us)
  let ?m = "t @ CHR '':'' # u"
  show ?case
  proof (cases "u = [] \<or> length ?m > PATHAUDIT_MAX_ROOT_LENGTH")
    case True
    then show ?thesis by (intro exI [of _ 0] exI [of _ "length t"]) (auto simp: Let_def)
  next
    case False
    have upd: "(pre @ t @ NUL # layout (u # us))[length pre + length t := CHR '':''] = pre @ ?m @ NUL # layout us"
      by (simp add: list_update_append)
    have m: "is_cstr ?m" using Cons.prems by simp
    note read = text_at_layout [OF m, of pre "layout us"]
    have len: "length pre + length t + 1 + length u - length pre = length ?m" by simp
    have step: "join_fragments stat (length pre) (slices (length pre + length t + 1) k (map length (u # us)))
        (pre @ t @ NUL # layout (u # us)) c (length t) =
      (case stat ?m of
         Inr x \<Rightarrow> (pre @ ?m @ NUL # layout us, c + 1, length ?m, False)
       | Inl e \<Rightarrow> if e \<noteq> ENOENT then (pre @ ?m @ NUL # layout us, c + 1, length ?m, True)
                  else join_fragments stat (length pre) (slices (length pre + length ?m + 1) (k + 1) (map length us))
                         (pre @ ?m @ NUL # layout us) (c + 1) (length ?m))"
      using False read upd len by (cases "stat ?m") (simp_all add: Let_def add.assoc del: layout_simps(2))
    have spec: "join_spec stat t (u # us) = (case stat ?m of
         Inr x \<Rightarrow> None | Inl e \<Rightarrow> if e \<noteq> ENOENT then Some (?m, us) else join_spec stat ?m us)"
      using False by (simp add: Let_def)
    show ?thesis
    proof (cases "stat ?m = Inl ENOENT")
      case True
      from Cons.IH [OF m, of "k + 1" "c + 1"] Cons.prems(2) obtain n len where
        j: "join_fragments stat (length pre) (slices (length pre + length ?m + 1) (k + 1) (map length us))
            (pre @ ?m @ NUL # layout us) (c + 1) (length ?m)
          = (pre @ join_fields (?m # take n us) @ NUL # layout (drop n us), c + 1 + n, len, join_spec stat ?m us \<noteq> None)"
          "n \<le> length us" "\<forall>v \<in> set (take n us). v \<noteq> []"
          "\<forall>m1 rest. join_spec stat ?m us = Some (m1, rest) \<longrightarrow>
             m1 = join_fields (?m # take n us) \<and> rest = drop n us \<and> len = length m1" by auto
      show ?thesis
        unfolding step spec
        using j True False by (intro exI [of _ "n + 1"] exI [of _ len]) (simp add: join_fields_merge)
    next
      case other: False
      show ?thesis
        unfolding step spec
        using False other
        by (intro exI [of _ 1] exI [of _ "length ?m"]) (auto split: sum.split)
    qed
  qed
qed

lemma layout_butlast: "layout (t # ts) = butlast (layout (t # ts)) @ [NUL]"
  by (induction ts arbitrary: t) (simp_all add: butlast_append)

lemma coalesce_fragments_ok:
  assumes "\<forall>t \<in> set ts. is_cstr t"
  shows "coalesce_inspection_path_fragments stat (slices (length (layout ks)) k (map length ts))
      (layout ks @ layout ts) (slices 0 0 (map length ks))
    = (layout (ks @ coalesce_spec stat ts), slices 0 0 (map length (ks @ coalesce_spec stat ts)))"
  using assms
proof (induction stat ts arbitrary: ks k rule: coalesce_spec.induct)
  case (2 stat t ts)
  have prems: "is_cstr t" "\<forall>u \<in> set ts. is_cstr u" using "2.prems" by auto
  have lk: "length (slices p i ls) = length ls" for p i ls by (induction ls arbitrary: p i) simp_all
  let ?rs = "slices (length (layout (ks @ [t]))) (k + 1) (map length ts)"
  have keep: "slices 0 0 (map length ks) @ [\<lparr>start = length (layout ks), slice_index = length (slices 0 0 (map length ks)),
      slice_len = length t\<rparr>] = slices 0 0 (map length (ks @ [t]))"
    by (simp add: slices_append length_layout lk)
  have head: "slices (length (layout ks)) k (map length (t # ts)) =
      \<lparr>start = length (layout ks), slice_index = k, slice_len = length t\<rparr> # ?rs"
    by simp
  have st: "layout ks @ layout (t # ts) = layout (ks @ [t]) @ layout ts" by simp
  have read: "text_at (layout ks @ layout (t # ts)) (length (layout ks)) = t"
    using text_at_layout [OF prems(1), of "layout ks" "layout ts"] by simp
  show ?case
  proof (cases "t = [] \<or> stat t \<noteq> Inl ENOENT")
    case True
    from "2.IH"(1) [OF True prems(2), of "ks @ [t]" "k + 1"]
    have "coalesce_inspection_path_fragments stat ?rs (layout (ks @ [t]) @ layout ts) (slices 0 0 (map length (ks @ [t])))
      = (layout ((ks @ [t]) @ coalesce_spec stat ts), slices 0 0 (map length ((ks @ [t]) @ coalesce_spec stat ts)))" .
    moreover have "coalesce_inspection_path_fragments stat (slices (length (layout ks)) k (map length (t # ts)))
        (layout ks @ layout (t # ts)) (slices 0 0 (map length ks))
      = coalesce_inspection_path_fragments stat ?rs (layout ks @ layout (t # ts)) (slices 0 0 (map length (ks @ [t])))"
      using True read keep unfolding head by (auto simp: Let_def split: sum.split)
    ultimately show ?thesis using True unfolding st by auto
  next
    case False
    then have nt: "t \<noteq> []" and en: "stat t = Inl ENOENT" by auto
    from join_fragments_ok [OF prems, of stat "layout ks" "k + 1" 0] obtain n len where
      j: "join_fragments stat (length (layout ks)) ?rs (layout ks @ layout (t # ts)) 0 (length t)
        = (layout ks @ join_fields (t # take n ts) @ NUL # layout (drop n ts), n, len, join_spec stat t ts \<noteq> None)"
        "n \<le> length ts" "\<forall>v \<in> set (take n ts). v \<noteq> []"
        "\<forall>m rest. join_spec stat t ts = Some (m, rest) \<longrightarrow>
             m = join_fields (t # take n ts) \<and> rest = drop n ts \<and> len = length m"
      by (auto simp: add.assoc)
    show ?thesis
    proof (cases "join_spec stat t ts")
      case None
      have cut: "cut_again (take n ?rs) (layout ks @ join_fields (t # take n ts) @ NUL # layout (drop n ts))
        = layout (ks @ [t]) @ layout ts"
      proof -
        have "take n ?rs = slices (length (layout ks) + length t + 1) (k + 1) (map length (take n ts))"
          by (simp add: slices_take take_map)
        with cut_again_join [OF j(3), of "layout ks" t "k + 1" "NUL # layout (drop n ts)"]
        have "cut_again (take n ?rs) (layout ks @ join_fields (t # take n ts) @ NUL # layout (drop n ts))
          = layout ks @ butlast (layout (t # take n ts)) @ [NUL] @ layout (drop n ts)" by simp
        also have "\<dots> = layout ks @ layout (t # take n ts) @ layout (drop n ts)"
          using layout_butlast [of t "take n ts"] by (metis append.assoc)
        also have "\<dots> = layout (ks @ [t]) @ layout ts"
          by simp (metis append_take_drop_id layout_simps(3))
        finally show ?thesis .
      qed
      from "2.IH"(2) [OF False None prems(2), of "ks @ [t]" "k + 1"]
      have "coalesce_inspection_path_fragments stat ?rs (layout (ks @ [t]) @ layout ts) (slices 0 0 (map length (ks @ [t])))
        = (layout ((ks @ [t]) @ coalesce_spec stat ts), slices 0 0 (map length ((ks @ [t]) @ coalesce_spec stat ts)))" .
      moreover have "coalesce_inspection_path_fragments stat (slices (length (layout ks)) k (map length (t # ts)))
          (layout ks @ layout (t # ts)) (slices 0 0 (map length ks))
        = coalesce_inspection_path_fragments stat ?rs (layout (ks @ [t]) @ layout ts) (slices 0 0 (map length (ks @ [t])))"
        using nt en read keep cut j(1) None unfolding head
        by (simp add: Let_def del: layout_simps(2,3) slices.simps(2))
      ultimately show ?thesis using False None by simp
    next
      case (Some mr)
      then obtain m rest where mr: "join_spec stat t ts = Some (m, rest)" by fastforce
      with j(4) have m: "m = join_fields (t # take n ts)" "rest = drop n ts" "len = length m" by blast+
      have rest: "\<forall>u \<in> set rest. is_cstr u" using prems(2) m(2) by (meson in_set_dropD)
      have keep1: "slices 0 0 (map length ks) @ [\<lparr>start = length (layout ks),
          slice_index = length (slices 0 0 (map length ks)), slice_len = length m\<rparr>] = slices 0 0 (map length (ks @ [m]))"
        by (simp add: slices_append length_layout lk)
      have "length m = sum_list (map length (t # take n ts)) + n"
        unfolding m(1) length_join_fields using j(2) by simp
      then have dr: "drop n ?rs = slices (length (layout (ks @ [m]))) (k + 1 + n) (map length rest)"
        using j(2) by (simp add: slices_drop m(2) drop_map take_map add.assoc)
      from "2.IH"(3) [OF False mr refl rest, of "ks @ [m]" "k + 1 + n"]
      have "coalesce_inspection_path_fragments stat (drop n ?rs) (layout (ks @ [m]) @ layout rest)
          (slices 0 0 (map length (ks @ [m])))
        = (layout ((ks @ [m]) @ coalesce_spec stat rest), slices 0 0 (map length ((ks @ [m]) @ coalesce_spec stat rest)))"
        unfolding dr by simp
      moreover have "coalesce_inspection_path_fragments stat (slices (length (layout ks)) k (map length (t # ts)))
          (layout ks @ layout (t # ts)) (slices 0 0 (map length ks))
        = coalesce_inspection_path_fragments stat (drop n ?rs) (layout (ks @ [m]) @ layout rest)
          (slices 0 0 (map length (ks @ [m])))"
        using nt en read keep1 j(1) mr m unfolding head
        by (simp add: Let_def layout_single del: layout_simps(2) slices.simps(2))
      ultimately show ?thesis using False mr by simp
    qed
  qed
qed simp

section \<open>What is loaded\<close>

lemma join_spec_ConsE:
  assumes "join_spec stat t (u # us) = Some (m, rest)"
  obtains (here) e where "(m, rest) = (t @ CHR '':'' # u, us)" "stat (t @ CHR '':'' # u) = Inl e" "e \<noteq> ENOENT"
      "length (t @ CHR '':'' # u) \<le> PATHAUDIT_MAX_ROOT_LENGTH"
    | (there) "join_spec stat (t @ CHR '':'' # u) us = Some (m, rest)"
proof (cases "stat (t @ CHR '':'' # u)")
  case (Inl e)
  then show ?thesis
    using assms here [of e] there by (cases "e = ENOENT") (simp_all add: Let_def split: if_splits)
next
  case (Inr x)
  with assms show ?thesis by (simp add: Let_def split: if_splits)
qed

lemma join_spec_same: "join_spec stat t us = Some (m, rest) \<Longrightarrow> join_fields (m # rest) = join_fields (t # us)"
proof (induction us arbitrary: t)
  case (Cons u us)
  from Cons.prems show ?case
  proof (cases rule: join_spec_ConsE)
    case there
    from Cons.IH [OF there] show ?thesis by (simp only: join_fields_merge)
  qed (simp only: prod.inject join_fields_merge)
qed simp

lemma join_spec_accepts:
  "join_spec stat t us = Some (m, rest) \<Longrightarrow> length m \<le> PATHAUDIT_MAX_ROOT_LENGTH \<and> (\<exists>e. stat m = Inl e \<and> e \<noteq> ENOENT)
     \<and> set rest \<subseteq> set us"
proof (induction us arbitrary: t)
  case (Cons u us)
  from Cons.prems show ?case
  proof (cases rule: join_spec_ConsE)
    case there
    from Cons.IH [OF there] show ?thesis by auto
  qed auto
qed simp

lemma coalesce_spec_Nil [simp]: "coalesce_spec stat ts = [] \<longleftrightarrow> ts = []"
  by (cases ts) (auto split: option.split)

lemma join_coalesce: "join_fields (coalesce_spec stat ts) = join_fields ts"
proof (induction stat ts rule: coalesce_spec.induct)
  case (2 stat t ts)
  have keep: "join_fields (t # coalesce_spec stat ts) = join_fields (t # ts)"
    if "join_fields (coalesce_spec stat ts) = join_fields ts"
    using that by (cases "ts = []") (simp_all add: join_fields_Cons)
  show ?case
  proof (cases "t = [] \<or> stat t \<noteq> Inl ENOENT")
    case True
    with keep "2.IH"(1) show ?thesis by simp
  next
    case False
    show ?thesis
    proof (cases "join_spec stat t ts")
      case None
      with False keep "2.IH"(2) show ?thesis by simp
    next
      case (Some mr)
      then obtain m rest where mr: "join_spec stat t ts = Some (m, rest)" by (cases mr) simp
      from "2.IH"(3) [OF False mr refl] have "join_fields (m # coalesce_spec stat rest) = join_fields (m # rest)"
        by (cases "rest = []") (simp_all add: join_fields_Cons)
      with False mr join_spec_same [OF mr] show ?thesis by simp
    qed
  qed
qed simp

text \<open>A kept component is a field, or a joined path that fails for another reason than absence.\<close>

lemma coalesce_spec_set:
  "t \<in> set (coalesce_spec stat ts) \<Longrightarrow> t \<in> set ts
     \<or> length t \<le> PATHAUDIT_MAX_ROOT_LENGTH \<and> (\<exists>e. stat t = Inl e \<and> e \<noteq> ENOENT)"
proof (induction stat ts rule: coalesce_spec.induct)
  case (2 stat u us)
  show ?case
  proof (cases "u = [] \<or> stat u \<noteq> Inl ENOENT")
    case True
    with 2 show ?thesis by auto
  next
    case False
    show ?thesis
    proof (cases "join_spec stat u us")
      case None
      with 2 False show ?thesis by auto
    next
      case (Some mr)
      then obtain m rest where mr: "join_spec stat u us = Some (m, rest)" by (cases mr) simp
      from "2.IH"(3) [OF False mr refl] "2.prems" False mr have
        "t = m \<or> t \<in> set rest \<or> length t \<le> PATHAUDIT_MAX_ROOT_LENGTH \<and> (\<exists>e. stat t = Inl e \<and> e \<noteq> ENOENT)"
        by auto
      with join_spec_accepts [OF mr] show ?thesis by auto
    qed
  qed
qed simp

definition path_fits :: "cstr \<Rightarrow> bool" where
  "path_fits env \<longleftrightarrow> length (fields env) \<le> PATHAUDIT_MAX_ROOT_COUNT
     \<and> (\<forall>t \<in> set (fields env). length t \<le> PATHAUDIT_MAX_ROOT_LENGTH)
     \<and> length env + 1 \<le> PATHAUDIT_MAX_ROOT_BYTES"

lemma length_fields: "sum_list (map length (fields env)) + length (fields env) = length env + 1"
proof (induction env)
  case (Cons c p)
  then show ?case by (cases "fields p") auto
qed simp

lemma field_lens_0: "field_lens env 0 = map length (fields env)"
  by (cases "fields env") (simp_all add: field_lens_def)

lemma lens_fit_fields:
  "length (fields env) \<le> PATHAUDIT_MAX_ROOT_COUNT \<Longrightarrow> lens_fit 0 (map length (fields env)) \<longleftrightarrow> path_fits env"
  using length_fields [of env] by (auto simp: lens_fit_def path_fits_def)

lemma split_fields_fits:
  assumes "length (fields env) \<le> PATHAUDIT_MAX_ROOT_COUNT"
  shows "split_fields (length (fields env)) env 0 0 0 [] = Inr roots \<longleftrightarrow>
    path_fits env \<and> roots = slices 0 0 (map length (fields env))"
  using split_fields_iff [of 0 0 "length (fields env)" env 0 "[]" roots] lens_fit_fields [OF assms]
  by (simp add: field_lens_0)

lemma length_slices [simp]: "length (slices p k ls) = length ls"
  by (induction ls arbitrary: p k) simp_all

text \<open>The components as they are read from the final storage.\<close>

definition roots_of :: "cstr list \<Rightarrow> Root list" where
  "roots_of ts = map (\<lambda>(t, i). \<lparr>text_of_root = t, root_index = i, root_len = length t\<rparr>) (zip ts [0..<length ts])"

lemma roots_of_sel [simp]: "map text_of_root (roots_of ts) = ts" "map root_index (roots_of ts) = [0..<length ts]"
  "length (roots_of ts) = length ts"
  by (simp_all add: roots_of_def comp_def case_prod_unfold)

lemma roots_of_len: "r \<in> set (roots_of ts) \<Longrightarrow> root_len r = length (text_of_root r) \<and> text_of_root r \<in> set ts"
  by (auto simp: roots_of_def dest: set_zip_leftD)

lemma read_roots:
  assumes "\<forall>t \<in> set ts. is_cstr t"
  shows "map (\<lambda>r. \<lparr>text_of_root = text_at (pre @ layout ts) (start r), root_index = slice_index r, root_len = slice_len r\<rparr>)
      (slices (length pre) k (map length ts))
    = map (\<lambda>(t, i). \<lparr>text_of_root = t, root_index = i, root_len = length t\<rparr>) (zip ts [k..<k + length ts])"
  using assms
proof (induction ts arbitrary: pre k)
  case (Cons t ts)
  have upt: "[k..<k + length (t # ts)] = k # [k + 1..<(k + 1) + length ts]"
    using upt_conv_Cons [of k "k + length (t # ts)"] by simp
  from Cons.IH [of "pre @ t @ [NUL]" "k + 1"] Cons.prems text_at_layout [of t pre "layout ts"]
  show ?case unfolding upt by simp
qed simp

lemma coalesce_is_cstr:
  assumes "\<forall>t \<in> set ts. is_cstr t"
  shows "\<forall>t \<in> set (coalesce_spec stat ts). is_cstr t"
proof -
  have "is_cstr (join_fields ts) \<longleftrightarrow> (\<forall>t \<in> set ts. is_cstr t)" for ts
  proof (induction ts rule: join_fields.induct)
    case (3 t u ts)
    then show ?case by simp
  qed simp_all
  with assms show ?thesis using join_coalesce [of stat ts] by metis
qed

lemma path_load_ok:
  assumes "is_cstr env"
  shows "\<exists>s1. out s1 = out s \<and>
    (path_components_load stat (Some env) s = (Inr (roots_of (coalesce_spec stat (fields env))), s1) \<and> path_fits env
     \<or> path_components_load stat (Some env) s = (Inl 2, s1) \<and> (path_fits env \<longrightarrow> mem s \<noteq> None))"
proof (cases "length (fields env) \<le> PATHAUDIT_MAX_ROOT_COUNT")
  case False
  have "count_roots env 1 = None"
  proof (cases "count_roots env 1")
    case (Some m)
    with count_roots_iff [of 1 env m] False show ?thesis by (simp add: PATHAUDIT_MAX_ROOT_COUNT_def)
  qed
  with False show ?thesis by (simp add: path_components_load_def path_fits_def)
next
  case True
  have cnt: "count_roots env 1 = Some (length (fields env))"
    using count_roots_iff [of 1 env "length (fields env)"] True by (simp add: PATHAUDIT_MAX_ROOT_COUNT_def)
  obtain ok1 s1 where m1: "c_malloc s = (ok1, s1)" by fastforce
  obtain ok2 s2 where m2: "c_malloc s1 = (ok2, s2)" by fastforce
  have o: "out s1 = out s" "out s2 = out s" using c_malloc_frame [OF m1] c_malloc_frame [OF m2] by simp_all
  have mem: "mem s \<noteq> None" if "\<not> ok1 \<or> \<not> ok2"
    using that m1 m2 by (cases "mem s") (auto simp: c_malloc_def)
  show ?thesis
  proof (cases "ok1 \<and> ok2")
    case False
    with cnt m1 m2 o mem show ?thesis by (auto simp: path_components_load_def)
  next
    case ok: True
    show ?thesis
    proof (cases "path_fits env")
      case False
      then obtain e where "split_fields (length (fields env)) env 0 0 0 [] = Inl e"
        using split_fields_fits [OF True] by (cases "split_fields (length (fields env)) env 0 0 0 []") auto
      with cnt m1 m2 o ok False show ?thesis by (auto simp: path_components_load_def)
    next
      case fit: True
      have f: "\<forall>t \<in> set (fields env). is_cstr t" using fields_is_cstr [OF assms] by blast
      let ?ts = "coalesce_spec stat (fields env)"
      have sf: "split_fields (length (fields env)) env 0 0 0 [] = Inr (slices 0 0 (map length (fields env)))"
        using split_fields_fits [OF True] fit by simp
      have co: "coalesce_inspection_path_fragments stat (slices 0 0 (map length (fields env))) (cut_storage env) []
        = (layout ?ts, slices 0 0 (map length ?ts))"
        using coalesce_fragments_ok [OF f, of stat "[]" 0] by (simp add: cut_storage_layout)
      have rd: "map (\<lambda>r. \<lparr>text_of_root = text_at (layout ?ts) (start r), root_index = slice_index r, root_len = slice_len r\<rparr>)
          (slices 0 0 (map length ?ts)) = roots_of ?ts"
        using read_roots [OF coalesce_is_cstr [OF f], of "[]" stat 0] by (simp add: roots_of_def)
      from cnt m1 m2 o ok fit sf co rd show ?thesis by (auto simp: path_components_load_def)
    qed
  qed
qed

end
