(* ===== verification/Pathaudit_Findings.thy ===== *)
theory Pathaudit_Findings
  imports Pathaudit_Index Pathaudit_Path "HOL-Library.Product_Lexorder"
begin

text \<open>
  The hazards of one \<open>PATH\<close> component or operand in \<open>src/pathaudit.c\<close>: the growing buffer of
  findings, the classification of a directory, the ownership of the directories above it, and
  the trust checks of an executable.  Every operation is shown to implement a function on plain
  lists of findings (\<open>implements\<close>): a status of 0 means exactly the findings of that function,
  every other status is 2 and has a cause.
\<close>

section \<open>The operating system\<close>

text \<open>
  The answers of the system calls as functions of their path: the file system does not change
  during a run.  \<open>a_open\<close> gives the error number of \<open>open\<close>, or that of \<open>read\<close>, or the at most
  four bytes that were read; \<open>a_opendir\<close> the names that \<open>readdir\<close> returns and the error number
  that its last call leaves.
\<close>

record audit_os =
  a_stat :: "cstr \<Rightarrow> nat + stat"
  a_lstat :: "cstr \<Rightarrow> nat + stat"
  a_readlink :: "cstr \<Rightarrow> nat + cstr"
  a_realpath :: "cstr \<Rightarrow> nat + cstr"
  a_access :: "cstr \<Rightarrow> bool"
  a_open :: "cstr \<Rightarrow> nat + nat + char list"
  a_opendir :: "cstr \<Rightarrow> (cstr list \<times> nat) option"
  a_getuid :: nat
  a_path :: "cstr option"

section \<open>The buffer of findings\<close>

record Finding =
  froot :: cstr
  findex :: nat
  fcode :: HazardCode

record FindingBuffer =
  fitems :: "Finding list"
  fcap :: nat

definition no_findings :: FindingBuffer where "no_findings = \<lparr>fitems = [], fcap = 0\<rparr>"

definition findings_reserve :: "FindingBuffer \<Rightarrow> io \<Rightarrow> bool \<times> FindingBuffer \<times> io" where
  "findings_reserve b s =
     (case reserve 16 24 (length (fitems b)) (fcap b) s of
        (None, s1) \<Rightarrow> (False, b, s1)
      | (Some cap, s1) \<Rightarrow> (True, b\<lparr>fcap := cap\<rparr>, s1))"

definition findings_append ::
  "FindingBuffer \<Rightarrow> cstr \<Rightarrow> nat \<Rightarrow> HazardCode \<Rightarrow> io \<Rightarrow> bool \<times> FindingBuffer \<times> io" where
  "findings_append b root i code s =
     (case owned_strdup s of
        (ok, s1) \<Rightarrow>
          if \<not> ok then (False, b, s1)
          else
            (case findings_reserve b s1 of
               (ok1, b1, s2) \<Rightarrow>
                 if \<not> ok1 then (False, b1, s2)
                 else (True, b1\<lparr>fitems := fitems b1 @ [\<lparr>froot = root, findex = i, fcode = code\<rparr>]\<rparr>, s2)))"

text \<open>The loop of \<open>findings_note_unsafe_owner\<close>; \<open>None\<close> when no finding matches.\<close>

fun note_loop :: "Finding list \<Rightarrow> cstr \<Rightarrow> nat \<Rightarrow> Finding list option" where
  "note_loop [] p i = None"
| "note_loop (f # fs) p i =
     (if fcode f \<noteq> HAZARD_UNSAFE_OWNER then map_option (Cons f) (note_loop fs p i)
      else if froot f \<noteq> p then map_option (Cons f) (note_loop fs p i)
      else Some ((if i < findex f then f\<lparr>findex := i\<rparr> else f) # fs))"

definition findings_note_unsafe_owner ::
  "FindingBuffer \<Rightarrow> cstr \<Rightarrow> nat \<Rightarrow> io \<Rightarrow> bool \<times> FindingBuffer \<times> io" where
  "findings_note_unsafe_owner b p i s =
     (case note_loop (fitems b) p i of
        Some fs \<Rightarrow> (True, b\<lparr>fitems := fs\<rparr>, s)
      | None \<Rightarrow> findings_append b p i HAZARD_UNSAFE_OWNER s)"

text \<open>
  \<open>if (!findings_append(...)) { emit_diag_reason("OUT_OF_MEMORY"); return 2; }\<close>, and the
  sequence of two statements of which the first may return with a status.
\<close>

definition or_out_of_memory :: "bool \<times> FindingBuffer \<times> io \<Rightarrow> int \<times> FindingBuffer \<times> io" where
  "or_out_of_memory r =
     (case r of (ok, b, s) \<Rightarrow> if \<not> ok then (2, b, emit_diag_reason ''OUT_OF_MEMORY'' s) else (0, b, s))"

definition and_then ::
  "int \<times> FindingBuffer \<times> io \<Rightarrow> (FindingBuffer \<Rightarrow> io \<Rightarrow> int \<times> FindingBuffer \<times> io) \<Rightarrow> int \<times> FindingBuffer \<times> io" where
  "and_then r k = (case r of (status, b, s) \<Rightarrow> if status \<noteq> 0 then (status, b, s) else k b s)"

definition append_if ::
  "bool \<Rightarrow> FindingBuffer \<Rightarrow> cstr \<Rightarrow> nat \<Rightarrow> HazardCode \<Rightarrow> io \<Rightarrow> int \<times> FindingBuffer \<times> io" where
  "append_if c b root i code s =
     (if c then or_out_of_memory (findings_append b root i code s) else (0, b, s))"

section \<open>Classification\<close>

definition owner_uid_is_trusted :: "audit_os \<Rightarrow> nat \<Rightarrow> bool" where
  "owner_uid_is_trusted os owner \<longleftrightarrow> owner = 0 \<or> owner = a_getuid os"

definition path_truncate_to_parent :: "cstr \<Rightarrow> cstr option" where
  "path_truncate_to_parent path =
     (if path = ''/'' then None
      else
        (case strrchr path CHR ''/'' of
           None \<Rightarrow> None
         | Some i \<Rightarrow> if i = 0 then Some (take 1 path) else Some (take i path)))"

lemma path_truncate_shrinks: "path_truncate_to_parent p = Some q \<Longrightarrow> length q < length p"
proof -
  assume t: "path_truncate_to_parent p = Some q"
  then obtain i where i: "strrchr p CHR ''/'' = Some i" "p \<noteq> ''/''"
    "q = (if i = 0 then take 1 p else take i p)"
    by (auto simp: path_truncate_to_parent_def split: if_splits option.splits)
  from strrchr_SomeD [OF i(1)] i(2,3) show "length q < length p"
    by (cases p; cases "tl p") auto
qed

text \<open>The loop of \<open>append_directory_chain_ownership\<close> over the buffer \<open>resolved\<close>.\<close>

function chain_loop :: "audit_os \<Rightarrow> nat \<Rightarrow> cstr \<Rightarrow> FindingBuffer \<Rightarrow> io \<Rightarrow> int \<times> FindingBuffer \<times> io" where
  "chain_loop os i resolved b s =
     (case (case a_stat os resolved of
              Inl e \<Rightarrow> (0, b, s)
            | Inr st \<Rightarrow>
                if owner_uid_is_trusted os (st_uid st) then (0, b, s)
                else or_out_of_memory (findings_note_unsafe_owner b resolved i s)) of
        (status, b1, s1) \<Rightarrow>
          if status \<noteq> 0 then (status, b1, s1)
          else
            (case path_truncate_to_parent resolved of
               None \<Rightarrow> (0, b1, s1)
             | Some parent \<Rightarrow> chain_loop os i parent b1 s1))"
  by pat_completeness auto
termination
  by (relation "measure (\<lambda>(os, i, resolved, b, s). length resolved)") (auto dest: path_truncate_shrinks)

declare chain_loop.simps [simp del]

definition append_directory_chain_ownership ::
  "audit_os \<Rightarrow> cstr \<Rightarrow> nat \<Rightarrow> FindingBuffer \<Rightarrow> io \<Rightarrow> int \<times> FindingBuffer \<times> io" where
  "append_directory_chain_ownership os path i b s =
     (case c_malloc s of
        (ok, s1) \<Rightarrow>
          if \<not> ok then (2, b, emit_diag_reason ''OUT_OF_MEMORY'' s1)
          else
            (case a_realpath os path of
               Inl e \<Rightarrow>
                 if e = ENOMEM then (2, b, emit_diag_reason ''OUT_OF_MEMORY'' s1) else (0, b, s1)
             | Inr resolved \<Rightarrow>
                 (case a_stat os resolved of
                    Inl e \<Rightarrow> (0, b, s1)
                  | Inr st \<Rightarrow>
                      if \<not> S_ISDIR (st_mode st) then (0, b, s1)
                      else chain_loop os i resolved b s1)))"

definition root_is_cwd_dependent :: "Root \<Rightarrow> bool" where
  "root_is_cwd_dependent root \<longleftrightarrow> root_len root = 0 \<or> take 1 (text_of_root root) \<noteq> ''/''"

definition classify_root :: "audit_os \<Rightarrow> Root \<Rightarrow> bool \<Rightarrow> FindingBuffer \<Rightarrow> io \<Rightarrow> int \<times> FindingBuffer \<times> io" where
  "classify_root os root audit_directory_ownership b s =
     (let t = text_of_root root; i = root_index root in
      if root_len root = 0 then append_if True b t i HAZARD_EMPTY_ROOT s
      else
        and_then (append_if (root_is_cwd_dependent root) b t i HAZARD_RELATIVE_ROOT s)
          (\<lambda>b s.
             case a_stat os t of
               Inl e \<Rightarrow>
                 if e = ENOENT then append_if True b t i HAZARD_MISSING_ROOT s
                 else if e = ENOTDIR then append_if True b t i HAZARD_NON_DIRECTORY_ROOT s
                 else (case emit_inspection_error_on_path e t s of (status, s1) \<Rightarrow> (status, b, s1))
             | Inr st \<Rightarrow>
                 if \<not> S_ISDIR (st_mode st) then append_if True b t i HAZARD_NON_DIRECTORY_ROOT s
                 else
                   and_then (append_if (st_mode st AND S_IWGRP \<noteq> 0) b t i HAZARD_GROUP_WRITABLE s)
                     (\<lambda>b s.
                        and_then (append_if (st_mode st AND S_IWOTH \<noteq> 0) b t i HAZARD_WORLD_WRITABLE s)
                          (\<lambda>b s.
                             if audit_directory_ownership
                             then append_directory_chain_ownership os t i b s
                             else (0, b, s)))))"

definition classify_command_component ::
  "audit_os \<Rightarrow> Root \<Rightarrow> bool \<Rightarrow> FindingBuffer \<Rightarrow> io \<Rightarrow> int \<times> FindingBuffer \<times> io" where
  "classify_command_component os root permission_applicable b s =
     (let t = text_of_root root; i = root_index root; cwd_dependent = root_is_cwd_dependent root in
      if root_len root = 0 then
        and_then (append_if True b t i HAZARD_EMPTY_ROOT s)
          (\<lambda>b s.
             if permission_applicable then append_directory_chain_ownership os ''.'' i b s
             else (0, b, s))
      else
        and_then (append_if cwd_dependent b t i HAZARD_RELATIVE_ROOT s)
          (\<lambda>b s.
             case a_stat os t of
               Inl e \<Rightarrow>
                 if e = ENOENT then append_if cwd_dependent b t i HAZARD_MISSING_ROOT s
                 else if e = ENOTDIR then append_if cwd_dependent b t i HAZARD_NON_DIRECTORY_ROOT s
                 else (case emit_inspection_error_on_path e t s of (status, s1) \<Rightarrow> (status, b, s1))
             | Inr st \<Rightarrow>
                 if \<not> S_ISDIR (st_mode st)
                 then append_if cwd_dependent b t i HAZARD_NON_DIRECTORY_ROOT s
                 else if permission_applicable then
                   and_then (append_if (st_mode st AND S_IWGRP \<noteq> 0) b t i HAZARD_GROUP_WRITABLE s)
                     (\<lambda>b s.
                        and_then (append_if (st_mode st AND S_IWOTH \<noteq> 0) b t i HAZARD_WORLD_WRITABLE s)
                          (\<lambda>b s. append_directory_chain_ownership os t i b s))
                 else (0, b, s)))"

definition append_executable_writability ::
  "cstr \<Rightarrow> nat \<Rightarrow> mode_t \<Rightarrow> FindingBuffer \<Rightarrow> io \<Rightarrow> int \<times> FindingBuffer \<times> io" where
  "append_executable_writability resolved i mode b s =
     and_then (append_if (mode AND S_IWGRP \<noteq> 0) b resolved i HAZARD_GROUP_WRITABLE s)
       (\<lambda>b s. append_if (mode AND S_IWOTH \<noteq> 0) b resolved i HAZARD_WORLD_WRITABLE s)"

definition append_executable_ownership ::
  "audit_os \<Rightarrow> cstr \<Rightarrow> nat \<Rightarrow> nat \<Rightarrow> FindingBuffer \<Rightarrow> io \<Rightarrow> int \<times> FindingBuffer \<times> io" where
  "append_executable_ownership os resolved i owner b s =
     append_if (\<not> owner_uid_is_trusted os owner) b resolved i HAZARD_UNSAFE_OWNER s"

definition append_executable_trust_findings ::
  "audit_os \<Rightarrow> cstr \<Rightarrow> nat \<Rightarrow> mode_t \<Rightarrow> nat \<Rightarrow> FindingBuffer \<Rightarrow> io \<Rightarrow> int \<times> FindingBuffer \<times> io" where
  "append_executable_trust_findings os resolved i mode owner b s =
     and_then (append_executable_writability resolved i mode b s)
       (\<lambda>b s. append_executable_ownership os resolved i owner b s)"

section \<open>Sorting and printing\<close>

fun cmp_unsigned_bytes :: "cstr \<Rightarrow> cstr \<Rightarrow> int" where
  "cmp_unsigned_bytes [] [] = 0"
| "cmp_unsigned_bytes [] (b # bs) = -1"
| "cmp_unsigned_bytes (a # as) [] = 1"
| "cmp_unsigned_bytes (a # as) (b # bs) =
     (if a = b then cmp_unsigned_bytes as bs else if ubyte a < ubyte b then -1 else 1)"

definition compare_findings :: "Finding \<Rightarrow> Finding \<Rightarrow> int" where
  "compare_findings a b =
     (let c = cmp_unsigned_bytes (froot a) (froot b) in
      if c \<noteq> 0 then c
      else if findex a < findex b then -1
      else if findex a > findex b then 1
      else if code_rank (fcode a) < code_rank (fcode b) then -1
      else if code_rank (fcode a) > code_rank (fcode b) then 1
      else 0)"

fun emit_finding_lines :: "Finding list \<Rightarrow> io \<Rightarrow> int \<times> io" where
  "emit_finding_lines [] s = (0, s)"
| "emit_finding_lines (f # fs) s =
     (case or_chain [fputs_checked (HAZARD_NAMES ! code_rank (fcode f)) Stdout, fputc_checked TAB Stdout,
                     put_escaped_quoted Stdout (froot f), fputc_checked LF Stdout] s of
        (r, s1) \<Rightarrow> if r \<noteq> 0 then emit_stdout_write_error s1 else emit_finding_lines fs s1)"

definition emit_findings :: "FindingBuffer \<Rightarrow> io \<Rightarrow> int \<times> io" where
  "emit_findings b s =
     (case emit_finding_lines (fitems b) s of
        (write_status, s1) \<Rightarrow>
          if write_status \<noteq> 0 then (write_status, s1)
          else complete_stdout (if length (fitems b) = 0 then 0 else 1) s1)"

section \<open>The findings as lists\<close>

definition note_owner :: "nat \<Rightarrow> Finding list \<Rightarrow> cstr \<Rightarrow> Finding list" where
  "note_owner i fs p =
     (case note_loop fs p i of
        Some gs \<Rightarrow> gs
      | None \<Rightarrow> fs @ [\<lparr>froot = p, findex = i, fcode = HAZARD_UNSAFE_OWNER\<rparr>])"

text \<open>A canonical path and all directories above it.\<close>

function ancestors :: "cstr \<Rightarrow> cstr list" where
  "ancestors p = p # (case path_truncate_to_parent p of None \<Rightarrow> [] | Some q \<Rightarrow> ancestors q)"
  by pat_completeness auto
termination
  by (relation "measure length") (auto dest: path_truncate_shrinks)

declare ancestors.simps [simp del]

definition unsafe_owned :: "audit_os \<Rightarrow> cstr \<Rightarrow> bool" where
  "unsafe_owned os p =
     (case a_stat os p of Inl e \<Rightarrow> False | Inr st \<Rightarrow> \<not> owner_uid_is_trusted os (st_uid st))"

definition is_dir :: "audit_os \<Rightarrow> cstr \<Rightarrow> bool" where
  "is_dir os p = (case a_stat os p of Inl e \<Rightarrow> False | Inr st \<Rightarrow> S_ISDIR (st_mode st))"

text \<open>The directories with an unsafe owner from a path up; \<open>None\<close> when memory runs out.\<close>

definition unsafe_chain :: "audit_os \<Rightarrow> cstr \<Rightarrow> cstr list option" where
  "unsafe_chain os path =
     (case a_realpath os path of
        Inl e \<Rightarrow> if e = ENOMEM then None else Some []
      | Inr resolved \<Rightarrow>
          Some (if is_dir os resolved then filter (unsafe_owned os) (ancestors resolved) else []))"

definition findings_of :: "cstr \<Rightarrow> nat \<Rightarrow> HazardCode list \<Rightarrow> Finding list" where
  "findings_of t i codes = map (\<lambda>c. \<lparr>froot = t, findex = i, fcode = c\<rparr>) codes"

definition mode_codes :: "mode_t \<Rightarrow> HazardCode list" where
  "mode_codes m = (if m AND S_IWGRP \<noteq> 0 then [HAZARD_GROUP_WRITABLE] else [])
     @ (if m AND S_IWOTH \<noteq> 0 then [HAZARD_WORLD_WRITABLE] else [])"

definition lookup_codes :: "audit_os \<Rightarrow> cstr \<Rightarrow> HazardCode list option" where
  "lookup_codes os t =
     (case a_stat os t of
        Inl e \<Rightarrow>
          if e = ENOENT then Some [HAZARD_MISSING_ROOT]
          else if e = ENOTDIR then Some [HAZARD_NON_DIRECTORY_ROOT] else None
      | Inr st \<Rightarrow>
          Some (if S_ISDIR (st_mode st) then mode_codes (st_mode st) else [HAZARD_NON_DIRECTORY_ROOT]))"

definition relative_codes :: "cstr \<Rightarrow> HazardCode list" where
  "relative_codes t = (if take 1 t \<noteq> ''/'' then [HAZARD_RELATIVE_ROOT] else [])"

definition root_codes :: "audit_os \<Rightarrow> cstr \<Rightarrow> HazardCode list option" where
  "root_codes os t =
     (if t = [] then Some [HAZARD_EMPTY_ROOT]
      else map_option ((@) (relative_codes t)) (lookup_codes os t))"

text \<open>What classifying a component does to the findings so far; \<open>None\<close> for an operational error.\<close>

definition classify :: "audit_os \<Rightarrow> bool \<Rightarrow> cstr \<Rightarrow> nat \<Rightarrow> Finding list \<Rightarrow> Finding list option" where
  "classify os audit t i fs =
     Option.bind (root_codes os t)
       (\<lambda>codes.
          if audit \<and> t \<noteq> [] \<and> is_dir os t
          then map_option (foldl (note_owner i) (fs @ findings_of t i codes)) (unsafe_chain os t)
          else Some (fs @ findings_of t i codes))"

text \<open>The codes that matter to a command search.\<close>

definition matters :: "bool \<Rightarrow> bool \<Rightarrow> HazardCode \<Rightarrow> bool" where
  "matters cwd_dependent applicable c \<longleftrightarrow>
     (c \<in> {HAZARD_MISSING_ROOT, HAZARD_NON_DIRECTORY_ROOT} \<longrightarrow> cwd_dependent)
     \<and> (c \<in> {HAZARD_GROUP_WRITABLE, HAZARD_WORLD_WRITABLE} \<longrightarrow> applicable)"

definition command_codes :: "audit_os \<Rightarrow> cstr \<Rightarrow> bool \<Rightarrow> HazardCode list option" where
  "command_codes os t applicable =
     map_option (filter (matters (take 1 t \<noteq> ''/'') applicable)) (root_codes os t)"

definition classify_command :: "audit_os \<Rightarrow> bool \<Rightarrow> cstr \<Rightarrow> nat \<Rightarrow> Finding list \<Rightarrow> Finding list option" where
  "classify_command os applicable t i fs =
     Option.bind (command_codes os t applicable)
       (\<lambda>codes.
          if applicable \<and> (t = [] \<or> is_dir os t)
          then map_option (foldl (note_owner i) (fs @ findings_of t i codes))
                 (unsafe_chain os (if t = [] then ''.'' else t))
          else Some (fs @ findings_of t i codes))"

definition trust_codes :: "audit_os \<Rightarrow> mode_t \<Rightarrow> nat \<Rightarrow> HazardCode list" where
  "trust_codes os mode owner =
     mode_codes mode @ (if owner_uid_is_trusted os owner then [] else [HAZARD_UNSAFE_OWNER])"

section \<open>Refinement\<close>

text \<open>
  A step of the code from the state \<open>s\<close> implements a function on findings: it leaves stdout alone,
  a status of 0 means the findings of the function, and any other status is 2 and comes from an
  operational error, a refused allocation, or a function that gives at least \<open>2^57\<close> findings.
\<close>

definition too_many :: "Finding list option \<Rightarrow> bool" where
  "too_many spec = (case spec of None \<Rightarrow> False | Some fs \<Rightarrow> 2 ^ 57 \<le> length fs)"

definition implements :: "io \<Rightarrow> int \<times> FindingBuffer \<times> io \<Rightarrow> Finding list option \<Rightarrow> bool" where
  "implements s r spec =
     (case r of (status, b1, s1) \<Rightarrow>
        out s1 = out s \<and> (mem s = None \<longrightarrow> mem s1 = None)
        \<and> (if status = 0 then spec = Some (fitems b1)
           else status = 2 \<and> (spec = None \<or> mem s \<noteq> None \<or> too_many spec)))"

text \<open>A step that only adds findings.\<close>

definition grows :: "(Finding list \<Rightarrow> Finding list option) \<Rightarrow> bool" where
  "grows f \<longleftrightarrow> (\<forall>fs gs. f fs = Some gs \<longrightarrow> length fs \<le> length gs)"

lemma grows_simps [simp, intro]:
  "grows Some" "grows (\<lambda>fs. Some (fs @ gs))" "grows (\<lambda>fs. None)"
  by (simp_all add: grows_def)

lemma grows_bind: "grows f \<Longrightarrow> grows g \<Longrightarrow> grows (\<lambda>fs. Option.bind (f fs) g)"
  unfolding grows_def by (fastforce simp: bind_eq_Some_conv intro: order_trans)

lemma grows_if: "grows f \<Longrightarrow> grows g \<Longrightarrow> grows (\<lambda>fs. if c then f fs else g fs)"
  by (simp add: grows_def)

lemma length_note_loop: "note_loop fs p i = Some gs \<Longrightarrow> length gs = length fs"
  by (induction fs arbitrary: gs) (auto split: if_splits)

lemma length_note_owner: "length fs \<le> length (note_owner i fs p)"
  by (auto simp: note_owner_def length_note_loop split: option.split)

lemma length_note_owners: "length fs \<le> length (foldl (note_owner i) fs ps)"
proof (induction ps arbitrary: fs)
  case (Cons p ps)
  from Cons.IH [of "note_owner i fs p"] length_note_owner [of fs i p] show ?case by simp
qed simp

lemma length_note_append [simp]: "length fs \<le> length (foldl (note_owner i) (fs @ gs) ps)"
  using length_note_owners [of "fs @ gs" i ps] by simp

lemma grows_notes: "grows (\<lambda>fs. map_option (foldl (note_owner i) (fs @ gs)) ps)"
    "grows (\<lambda>fs. map_option (foldl (note_owner i) fs) ps)" "grows (\<lambda>fs. Some (foldl (note_owner i) fs qs))"
  using length_note_owners by (auto simp: grows_def)

lemma grows_classify: "grows (classify os audit t i)"
  by (auto simp: classify_def grows_def bind_eq_Some_conv split: if_splits)

lemma grows_classify_command: "grows (classify_command os applicable t i)"
  by (auto simp: classify_command_def grows_def bind_eq_Some_conv split: if_splits)

lemma implements_id: "implements s (0, b, s) (Some (fitems b))"
  by (simp add: implements_def)

lemma implements_and_then:
  assumes "implements s r x"
    and "\<And>b1 s1. x = Some (fitems b1) \<Longrightarrow> implements s1 (k b1 s1) (f (fitems b1))"
    and "grows f"
  shows "implements s (and_then r k) (Option.bind x f)"
proof -
  obtain st b1 s1 where r: "r = (st, b1, s1)" by (cases r)
  show ?thesis
  proof (cases "st = 0")
    case True
    with assms(1) r have x: "x = Some (fitems b1)" "out s1 = out s" "mem s = None \<longrightarrow> mem s1 = None"
      by (auto simp: implements_def)
    obtain st2 b2 s2 where k: "k b1 s1 = (st2, b2, s2)" by (cases "k b1 s1")
    from assms(2) [OF x(1), of s1] k have i: "implements s1 (st2, b2, s2) (f (fitems b1))" by simp
    have "and_then r k = (st2, b2, s2)" using r True k by (simp add: and_then_def)
    with i x show ?thesis by (cases "mem s") (auto simp: implements_def split: if_splits)
  next
    case False
    have "x = None \<or> mem s \<noteq> None \<or> too_many x \<Longrightarrow>
        Option.bind x f = None \<or> mem s \<noteq> None \<or> too_many (Option.bind x f)"
      using assms(3) by (cases x) (auto simp: grows_def too_many_def split: option.split intro: order_trans)
    with False assms(1) r show ?thesis by (auto simp: implements_def and_then_def)
  qed
qed

lemma append_implements:
  "implements s (or_out_of_memory (findings_append b t i c s)) (Some (fitems b @ findings_of t i [c]))"
proof -
  obtain ok s1 where m: "c_malloc s = (ok, s1)" by fastforce
  obtain r s2 where g: "reserve 16 24 (length (fitems b)) (fcap b) s1 = (r, s2)" by fastforce
  from c_malloc_None [OF m] reserve_cause [OF g] m g show ?thesis
    by (auto simp: implements_def or_out_of_memory_def findings_append_def owned_strdup_def
        findings_reserve_def findings_of_def too_many_def split: option.split)
qed

lemma append_if_implements:
  "implements s (append_if c b t i code s) (Some (fitems b @ findings_of t i (if c then [code] else [])))"
  using append_implements [of s b t i code] by (simp add: append_if_def implements_id findings_of_def)

lemma note_implements:
  "implements s (or_out_of_memory (findings_note_unsafe_owner b p i s)) (Some (note_owner i (fitems b) p))"
proof (cases "note_loop (fitems b) p i")
  case None
  with append_implements [of s b p i HAZARD_UNSAFE_OWNER] show ?thesis
    by (simp add: findings_note_unsafe_owner_def note_owner_def findings_of_def)
next
  case (Some fs)
  then show ?thesis
    by (simp add: findings_note_unsafe_owner_def note_owner_def implements_def or_out_of_memory_def)
qed

lemma chain_loop_implements:
  "implements s (chain_loop os i p b s)
     (Some (foldl (note_owner i) (fitems b) (filter (unsafe_owned os) (ancestors p))))"
proof (induction p arbitrary: b s rule: measure_induct_rule [of length])
  case (less p)
  let ?step = "case a_stat os p of Inl e \<Rightarrow> (0, b, s)
    | Inr st \<Rightarrow> if owner_uid_is_trusted os (st_uid st) then (0, b, s)
               else or_out_of_memory (findings_note_unsafe_owner b p i s)"
  let ?k = "\<lambda>b1 s1. case path_truncate_to_parent p of None \<Rightarrow> (0, b1, s1) | Some q \<Rightarrow> chain_loop os i q b1 s1"
  let ?rest = "case path_truncate_to_parent p of None \<Rightarrow> [] | Some q \<Rightarrow> ancestors q"
  have "implements s ?step (Some (foldl (note_owner i) (fitems b) (filter (unsafe_owned os) [p])))"
    using note_implements [of s b p i] by (auto simp: unsafe_owned_def implements_id split: sum.split)
  moreover have "implements s1 (?k b1 s1) (Some (foldl (note_owner i) (fitems b1) (filter (unsafe_owned os) ?rest)))" for b1 s1
    using less.IH path_truncate_shrinks by (auto simp: implements_id split: option.split)
  ultimately have "implements s (and_then ?step ?k)
      (Option.bind (Some (foldl (note_owner i) (fitems b) (filter (unsafe_owned os) [p])))
        (\<lambda>fs. Some (foldl (note_owner i) fs (filter (unsafe_owned os) ?rest))))"
    using grows_notes(3) by (rule implements_and_then)
  moreover have "and_then ?step ?k = chain_loop os i p b s"
    by (simp only: and_then_def chain_loop.simps [of os i p b s])
  ultimately show ?case
    by (cases "unsafe_owned os p") (simp_all add: ancestors.simps [of p])
qed

lemma chain_implements:
  "implements s (append_directory_chain_ownership os path i b s)
     (map_option (foldl (note_owner i) (fitems b)) (unsafe_chain os path))"
proof -
  obtain ok s1 where m: "c_malloc s = (ok, s1)" by fastforce
  have keep: "implements s r x" if "implements s1 r x" for r x
    using that c_malloc_None [OF m] by (auto simp: implements_def split: if_splits)
  show ?thesis
  proof (cases ok)
    case False
    with m c_malloc_None [OF m] show ?thesis by (auto simp: append_directory_chain_ownership_def implements_def)
  next
    case True
    show ?thesis
    proof (cases "a_realpath os path")
      case (Inl e)
      with True m c_malloc_None [OF m] show ?thesis
        by (auto simp: append_directory_chain_ownership_def unsafe_chain_def implements_def)
    next
      case (Inr resolved)
      with True m keep [OF chain_loop_implements] keep [OF implements_id] show ?thesis
        by (auto simp: append_directory_chain_ownership_def unsafe_chain_def is_dir_def split: sum.split)
    qed
  qed
qed

lemma inspection_implements:
  "implements s (case emit_inspection_error_on_path e t s of (status, s1) \<Rightarrow> (status, b, s1)) None"
  by (simp add: implements_def emit_inspection_error_on_path_def Let_def)

lemma findings_of_Nil [simp]: "findings_of t i [] = []"
  by (simp add: findings_of_def)

lemma findings_of_append: "findings_of t i (a @ b) = findings_of t i a @ findings_of t i b"
  by (simp add: findings_of_def)

text \<open>The two tests of the mode bits, then what follows them.\<close>

lemma mode_codes_implements:
  assumes "\<And>b1 s1. implements s1 (k b1 s1) (f (fitems b1))" and "grows f"
  shows "implements s
    (and_then (append_if (m AND S_IWGRP \<noteq> 0) b t i HAZARD_GROUP_WRITABLE s)
      (\<lambda>b s. and_then (append_if (m AND S_IWOTH \<noteq> 0) b t i HAZARD_WORLD_WRITABLE s) k))
    (f (fitems b @ findings_of t i (mode_codes m)))"
proof -
  have "implements s
    (and_then (append_if (m AND S_IWGRP \<noteq> 0) b t i HAZARD_GROUP_WRITABLE s)
      (\<lambda>b s. and_then (append_if (m AND S_IWOTH \<noteq> 0) b t i HAZARD_WORLD_WRITABLE s) k))
    (Option.bind (Some (fitems b @ findings_of t i (if m AND S_IWGRP \<noteq> 0 then [HAZARD_GROUP_WRITABLE] else [])))
      (\<lambda>fs. Option.bind
        (Some (fs @ findings_of t i (if m AND S_IWOTH \<noteq> 0 then [HAZARD_WORLD_WRITABLE] else []))) f))"
    by (intro implements_and_then append_if_implements assms grows_bind grows_simps)
  then show ?thesis by (simp only: bind.bind_lunit append_assoc findings_of_append [symmetric] mode_codes_def)
qed

lemma and_then_id: "and_then r (\<lambda>b s. (0, b, s)) = r"
  by (auto simp: and_then_def split: prod.split)

lemma classify_implements:
  assumes "root_len root = length (text_of_root root)"
  shows "implements s (classify_root os root audit b s)
    (classify os audit (text_of_root root) (root_index root) (fitems b))"
proof -
  let ?t = "text_of_root root" and ?i = "root_index root"
  let ?k = "\<lambda>b s. if audit then append_directory_chain_ownership os ?t ?i b s else (0, b, s)"
  let ?f = "\<lambda>fs. if audit then map_option (foldl (note_owner ?i) fs) (unsafe_chain os ?t) else Some fs"
  let ?look = "\<lambda>b s. case a_stat os ?t of
      Inl e \<Rightarrow>
        if e = ENOENT then append_if True b ?t ?i HAZARD_MISSING_ROOT s
        else if e = ENOTDIR then append_if True b ?t ?i HAZARD_NON_DIRECTORY_ROOT s
        else (case emit_inspection_error_on_path e ?t s of (status, s1) \<Rightarrow> (status, b, s1))
    | Inr st \<Rightarrow>
        if \<not> S_ISDIR (st_mode st) then append_if True b ?t ?i HAZARD_NON_DIRECTORY_ROOT s
        else and_then (append_if (st_mode st AND S_IWGRP \<noteq> 0) b ?t ?i HAZARD_GROUP_WRITABLE s)
          (\<lambda>b s. and_then (append_if (st_mode st AND S_IWOTH \<noteq> 0) b ?t ?i HAZARD_WORLD_WRITABLE s) ?k)"
  let ?spec = "\<lambda>fs. Option.bind (lookup_codes os ?t)
      (\<lambda>codes. if is_dir os ?t then ?f (fs @ findings_of ?t ?i codes) else Some (fs @ findings_of ?t ?i codes))"
  have fgrows: "grows ?f" by (rule grows_if) (rule grows_notes grows_simps)+
  have "grows ?spec"
    by (auto simp: grows_def bind_eq_Some_conv split: if_splits)
  have look: "implements s1 (?look b1 s1) (?spec (fitems b1))" for b1 s1
  proof (cases "a_stat os ?t")
    case (Inl e)
    then show ?thesis
      using append_if_implements [of s1 True b1 ?t ?i] inspection_implements
      by (auto simp: lookup_codes_def is_dir_def)
  next
    case (Inr st)
    show ?thesis
    proof (cases "S_ISDIR (st_mode st)")
      case True
      have k: "implements s2 (?k b2 s2) (?f (fitems b2))" for b2 s2
        using chain_implements implements_id by simp
      from mode_codes_implements [where k = ?k and f = ?f, OF k] Inr True fgrows show ?thesis
        by (simp add: lookup_codes_def is_dir_def)
    next
      case False
      with Inr append_if_implements [of s1 True b1 ?t ?i] show ?thesis
        by (simp add: lookup_codes_def is_dir_def)
    qed
  qed
  show ?thesis
  proof (cases "?t = []")
    case True
    with assms append_if_implements [of s True b "[]" ?i HAZARD_EMPTY_ROOT] show ?thesis
      by (simp add: classify_root_def classify_def root_codes_def)
  next
    case False
    let ?rel = "append_if (root_is_cwd_dependent root) b ?t ?i HAZARD_RELATIVE_ROOT s"
    have first: "implements s ?rel (Some (fitems b @ findings_of ?t ?i (relative_codes ?t)))"
      using append_if_implements [of s "root_is_cwd_dependent root" b ?t ?i HAZARD_RELATIVE_ROOT] assms False
      by (simp add: root_is_cwd_dependent_def relative_codes_def)
    have "implements s (and_then ?rel ?look)
        (Option.bind (Some (fitems b @ findings_of ?t ?i (relative_codes ?t))) ?spec)"
      by (rule implements_and_then, rule first, rule look, rule \<open>grows ?spec\<close>)
    moreover have "classify_root os root audit b s = and_then ?rel ?look"
      using assms False by (simp add: classify_root_def Let_def)
    moreover have "classify os audit ?t ?i (fitems b)
        = Option.bind (Some (fitems b @ findings_of ?t ?i (relative_codes ?t))) ?spec"
      using False by (cases "lookup_codes os ?t") (auto simp: classify_def root_codes_def findings_of_append)
    ultimately show ?thesis by simp
  qed
qed

lemma filter_matters [simp]:
  "filter (matters r applicable) (mode_codes m) = (if applicable then mode_codes m else [])"
  "filter (matters r applicable) (relative_codes t) = relative_codes t"
  "matters r applicable HAZARD_MISSING_ROOT = r" "matters r applicable HAZARD_NON_DIRECTORY_ROOT = r"
  "matters r applicable HAZARD_EMPTY_ROOT"
  by (simp_all add: mode_codes_def relative_codes_def matters_def)

lemma classify_command_implements:
  assumes "root_len root = length (text_of_root root)"
  shows "implements s (classify_command_component os root applicable b s)
    (classify_command os applicable (text_of_root root) (root_index root) (fitems b))"
proof -
  let ?t = "text_of_root root" and ?i = "root_index root" and ?rel = "take 1 (text_of_root root) \<noteq> ''/''"
  let ?look = "\<lambda>b s. case a_stat os ?t of
      Inl e \<Rightarrow>
        if e = ENOENT then append_if ?rel b ?t ?i HAZARD_MISSING_ROOT s
        else if e = ENOTDIR then append_if ?rel b ?t ?i HAZARD_NON_DIRECTORY_ROOT s
        else (case emit_inspection_error_on_path e ?t s of (status, s1) \<Rightarrow> (status, b, s1))
    | Inr st \<Rightarrow>
        if \<not> S_ISDIR (st_mode st) then append_if ?rel b ?t ?i HAZARD_NON_DIRECTORY_ROOT s
        else if applicable then
          and_then (append_if (st_mode st AND S_IWGRP \<noteq> 0) b ?t ?i HAZARD_GROUP_WRITABLE s)
            (\<lambda>b s. and_then (append_if (st_mode st AND S_IWOTH \<noteq> 0) b ?t ?i HAZARD_WORLD_WRITABLE s)
              (\<lambda>b s. append_directory_chain_ownership os ?t ?i b s))
        else (0, b, s)"
  let ?spec = "\<lambda>fs. Option.bind (map_option (filter (matters ?rel applicable)) (lookup_codes os ?t))
      (\<lambda>codes. if applicable \<and> is_dir os ?t
        then map_option (foldl (note_owner ?i) (fs @ findings_of ?t ?i codes)) (unsafe_chain os ?t)
        else Some (fs @ findings_of ?t ?i codes))"
  have "grows ?spec"
    by (auto simp: grows_def bind_eq_Some_conv split: if_splits)
  have look: "implements s1 (?look b1 s1) (?spec (fitems b1))" for b1 s1
  proof (cases "a_stat os ?t")
    case (Inl e)
    then show ?thesis
      using append_if_implements [of s1 ?rel b1 ?t ?i] inspection_implements
      by (auto simp: lookup_codes_def is_dir_def)
  next
    case (Inr st)
    show ?thesis
    proof (cases "S_ISDIR (st_mode st)")
      case True
      from mode_codes_implements [where k = "\<lambda>b s. append_directory_chain_ownership os ?t ?i b s"
          and f = "\<lambda>fs. map_option (foldl (note_owner ?i) fs) (unsafe_chain os ?t)", OF chain_implements grows_notes(2)]
      have "implements s1
        (and_then (append_if (st_mode st AND S_IWGRP \<noteq> 0) b1 ?t ?i HAZARD_GROUP_WRITABLE s1)
          (\<lambda>b s. and_then (append_if (st_mode st AND S_IWOTH \<noteq> 0) b ?t ?i HAZARD_WORLD_WRITABLE s)
            (\<lambda>b s. append_directory_chain_ownership os ?t ?i b s)))
        (map_option (foldl (note_owner ?i) (fitems b1 @ findings_of ?t ?i (mode_codes (st_mode st)))) (unsafe_chain os ?t))" .
      then show ?thesis using Inr True implements_id [of s1 b1]
        by (cases applicable) (simp_all add: lookup_codes_def is_dir_def)
    next
      case False
      with Inr append_if_implements [of s1 ?rel b1 ?t ?i HAZARD_NON_DIRECTORY_ROOT] show ?thesis
        by (auto simp: lookup_codes_def is_dir_def)
    qed
  qed
  show ?thesis
  proof (cases "?t = []")
    case True
    let ?k = "\<lambda>b s. if applicable then append_directory_chain_ownership os ''.'' ?i b s else (0, b, s)"
    let ?f = "\<lambda>fs. if applicable then map_option (foldl (note_owner ?i) fs) (unsafe_chain os ''.'') else Some fs"
    have "implements s (and_then (append_if True b [] ?i HAZARD_EMPTY_ROOT s) ?k)
        (Option.bind (Some (fitems b @ findings_of [] ?i (if True then [HAZARD_EMPTY_ROOT] else []))) ?f)"
      by (rule implements_and_then, rule append_if_implements)
        (use chain_implements implements_id grows_if [OF grows_notes(2) grows_simps(1)] in simp_all)
    then show ?thesis using True assms
      by (cases applicable)
        (simp_all add: classify_command_component_def classify_command_def command_codes_def root_codes_def Let_def)
  next
    case False
    let ?r = "append_if ?rel b ?t ?i HAZARD_RELATIVE_ROOT s"
    have first: "implements s ?r (Some (fitems b @ findings_of ?t ?i (relative_codes ?t)))"
      using append_if_implements [of s ?rel b ?t ?i HAZARD_RELATIVE_ROOT] by (simp add: relative_codes_def)
    have "implements s (and_then ?r ?look)
        (Option.bind (Some (fitems b @ findings_of ?t ?i (relative_codes ?t))) ?spec)"
      by (rule implements_and_then, rule first, rule look, rule \<open>grows ?spec\<close>)
    moreover have "classify_command_component os root applicable b s = and_then ?r ?look"
    proof -
      have cwd: "root_is_cwd_dependent root = ?rel" using assms False by (simp add: root_is_cwd_dependent_def)
      show ?thesis unfolding classify_command_component_def Let_def cwd using assms False by simp
    qed
    moreover have "classify_command os applicable ?t ?i (fitems b)
        = Option.bind (Some (fitems b @ findings_of ?t ?i (relative_codes ?t))) ?spec"
      using False by (cases "lookup_codes os ?t")
        (auto simp: classify_command_def command_codes_def root_codes_def findings_of_append)
    ultimately show ?thesis by simp
  qed
qed

lemma trust_implements:
  "implements s (append_executable_trust_findings os p i mode owner b s)
     (Some (fitems b @ findings_of p i (trust_codes os mode owner)))"
proof -
  have own: "implements s1 (append_executable_ownership os p i owner b1 s1)
      (Some (fitems b1 @ findings_of p i (if owner_uid_is_trusted os owner then [] else [HAZARD_UNSAFE_OWNER])))" for b1 s1
    using append_if_implements [of s1 "\<not> owner_uid_is_trusted os owner" b1 p i HAZARD_UNSAFE_OWNER]
    by (cases "owner_uid_is_trusted os owner") (simp_all add: append_executable_ownership_def)
  have wr: "implements s (append_executable_writability p i mode b s)
      (Some (fitems b @ findings_of p i (mode_codes mode)))"
    using mode_codes_implements [where k = "\<lambda>b s. (0, b, s)" and f = Some, OF implements_id grows_simps(1)]
    by (simp add: append_executable_writability_def and_then_id)
  have "implements s (append_executable_trust_findings os p i mode owner b s)
      (Option.bind (Some (fitems b @ findings_of p i (mode_codes mode)))
        (\<lambda>fs. Some (fs @ findings_of p i (if owner_uid_is_trusted os owner then [] else [HAZARD_UNSAFE_OWNER]))))"
    unfolding append_executable_trust_findings_def by (rule implements_and_then, rule wr, rule own, rule grows_simps)
  then show ?thesis by (simp add: trust_codes_def findings_of_append)
qed

section \<open>What is printed\<close>

lemma cmp_unsigned_bytes_eq [simp]: "cmp_unsigned_bytes s t = 0 \<longleftrightarrow> s = t"
  by (induction s t rule: cmp_unsigned_bytes.induct) auto

lemma cmp_unsigned_bytes_le [simp]: "cmp_unsigned_bytes s t \<le> 0 \<longleftrightarrow> s \<le> t"
  by (induction s t rule: cmp_unsigned_bytes.induct) (auto simp: less_char_def)

lemma cmp_unsigned_bytes_less [simp]: "cmp_unsigned_bytes s t < 0 \<longleftrightarrow> s < t"
  unfolding less_le by simp

lemma code_rank_inject [simp]: "code_rank c = code_rank d \<longleftrightarrow> c = d"
  by (cases c; cases d) simp_all

text \<open>The position of a finding in the output.\<close>

definition finding_key :: "Finding \<Rightarrow> cstr \<times> nat \<times> nat" where
  "finding_key f = (froot f, findex f, code_rank (fcode f))"

lemma compare_findings_le: "compare_findings a b \<le> 0 \<longleftrightarrow> finding_key a \<le> finding_key b"
proof (cases "froot a = froot b")
  case True
  then show ?thesis by (auto simp: compare_findings_def finding_key_def less_eq_prod_def Let_def)
next
  case False
  then show ?thesis
    by (auto simp: compare_findings_def finding_key_def less_eq_prod_def Let_def order_le_less)
qed

lemma sort_findings: "qsort_by compare_findings fs = sort_key finding_key fs"
  by (rule qsort_by_key) (rule compare_findings_le)

definition finding_text :: "Finding list \<Rightarrow> cstr" where
  "finding_text fs = findings_text (map (\<lambda>f. (HAZARD_NAMES ! code_rank (fcode f), froot f)) fs)"

lemma emit_finding_lines_write:
  "emit_finding_lines fs s =
     (case c_write Stdout (finding_text fs) s of (r, s1) \<Rightarrow> if r \<noteq> 0 then emit_stdout_write_error s1 else (0, s1))"
proof -
  have q: "put_escaped_quoted Stdout t = c_write Stdout (quoted t)" for t
    by (simp add: fun_eq_iff pathaudit_quoted.quoted_write)
  have "emit_finding_lines (f # fs) s =
      (case c_write Stdout (finding_line (HAZARD_NAMES ! code_rank (fcode f), froot f)) s of
         (r, s1) \<Rightarrow> if r \<noteq> 0 then emit_stdout_write_error s1 else emit_finding_lines fs s1)" for f fs s
    by (simp add: finding_line_def q del: or_chain.simps)
  from write_loop [of emit_finding_lines, OF _ this] show ?thesis
    by (simp add: finding_text_def findings_text_def comp_def)
qed

text \<open>After a successful run of writes stdout has taken the whole text.\<close>

lemma write_succeeds:
  "c_write Stdout t s = (0, s1) \<Longrightarrow> fits (out s) t \<and> out s1 = put_bytes t (out s)"
  using out_write [of t s] by (auto split: if_splits)

end
