(* ===== verification/Pathaudit_Audit.thy ===== *)
theory Pathaudit_Audit
  imports Pathaudit_Findings
begin

text \<open>
  The explicit mode of \<open>src/pathaudit.c\<close>: the operands and their limits, the sorted
  classification and its report.  The report is shown to be the hazards of the sorted operands,
  so that neither the order of the operands nor the second sort of the code matters.
\<close>

section \<open>The code\<close>

definition compare_roots_by_bytes_then_index :: "Root \<Rightarrow> Root \<Rightarrow> int" where
  "compare_roots_by_bytes_then_index a b =
     (let c = cmp_unsigned_bytes (text_of_root a) (text_of_root b) in
      if c \<noteq> 0 then c
      else if root_index a < root_index b then -1
      else if root_index a > root_index b then 1
      else 0)"

text \<open>The loop over the components that classifies them.\<close>

fun classify_roots :: "audit_os \<Rightarrow> bool \<Rightarrow> Root list \<Rightarrow> FindingBuffer \<Rightarrow> io \<Rightarrow> int \<times> FindingBuffer \<times> io" where
  "classify_roots os audit [] b s = (0, b, s)"
| "classify_roots os audit (r # rs) b s =
     and_then (classify_root os r audit b s) (\<lambda>b s. classify_roots os audit rs b s)"

definition sort_if_many :: "FindingBuffer \<Rightarrow> FindingBuffer" where
  "sort_if_many b =
     (if length (fitems b) > 1 then b\<lparr>fitems := qsort_by compare_findings (fitems b)\<rparr> else b)"

definition run_audit :: "audit_os \<Rightarrow> Root list \<Rightarrow> io \<Rightarrow> int \<times> io" where
  "run_audit os roots s =
     (case classify_roots os False (qsort_by compare_roots_by_bytes_then_index roots) no_findings s of
        (status, b, s1) \<Rightarrow>
          if status \<noteq> 0 then (status, s1) else emit_findings (sort_if_many b) s1)"

text \<open>The loop of \<open>run_explicit_roots\<close> that checks the operands; \<open>Inl\<close> is the reason of a failure.\<close>

fun load_operands :: "cstr list \<Rightarrow> nat \<Rightarrow> nat \<Rightarrow> cstr + Root list" where
  "load_operands [] i bytes = Inr []"
| "load_operands (t # ts) i bytes =
     (let len = length t in
      if len > PATHAUDIT_MAX_ROOT_LENGTH then Inl ''ROOT_LENGTH_LIMIT''
      else
        (case size_add_ok len 1 of
           None \<Rightarrow> Inl ''ROOT_BYTES_LIMIT''
         | Some with_nul \<Rightarrow>
             (case size_add_ok bytes with_nul of
                None \<Rightarrow> Inl ''ROOT_BYTES_LIMIT''
              | Some bytes1 \<Rightarrow>
                  if bytes1 > PATHAUDIT_MAX_ROOT_BYTES then Inl ''ROOT_BYTES_LIMIT''
                  else
                    (case load_operands ts (i + 1) bytes1 of
                       Inl e \<Rightarrow> Inl e
                     | Inr rs \<Rightarrow> Inr (\<lparr>text_of_root = t, root_index = i, root_len = len\<rparr> # rs)))))"

definition run_explicit_roots :: "audit_os \<Rightarrow> cstr list \<Rightarrow> bool \<Rightarrow> io \<Rightarrow> int \<times> io" where
  "run_explicit_roots os operands end_of_options s =
     (if operands = [] then (2, emit_usage_diag ''USAGE'' s)
      else if \<not> end_of_options \<and> list_ex (\<lambda>a. take 1 a = ''-'') operands
      then (2, emit_usage_diag ''UNKNOWN_OPTION'' s)
      else if length operands > PATHAUDIT_MAX_ROOT_COUNT then (2, emit_diag_reason ''ROOT_COUNT_LIMIT'' s)
      else
        (case c_malloc s of
           (ok, s1) \<Rightarrow>
             if \<not> ok then (2, emit_diag_reason ''OUT_OF_MEMORY'' s1)
             else
               (case load_operands operands 0 0 of
                  Inl reason \<Rightarrow> (2, emit_diag_reason reason s1)
                | Inr roots \<Rightarrow> run_audit os roots s1)))"

section \<open>Loading operands\<close>

definition operands_fit :: "nat \<Rightarrow> cstr list \<Rightarrow> bool" where
  "operands_fit bytes ts \<longleftrightarrow> (\<forall>t \<in> set ts. length t \<le> PATHAUDIT_MAX_ROOT_LENGTH)
     \<and> bytes + sum_list (map length ts) + length ts \<le> PATHAUDIT_MAX_ROOT_BYTES"

definition operand_roots :: "nat \<Rightarrow> cstr list \<Rightarrow> Root list" where
  "operand_roots i ts =
     map (\<lambda>(t, k). \<lparr>text_of_root = t, root_index = k, root_len = length t\<rparr>) (zip ts [i..<i + length ts])"

lemma operand_roots_Cons:
  "operand_roots i (t # ts) = \<lparr>text_of_root = t, root_index = i, root_len = length t\<rparr> # operand_roots (i + 1) ts"
proof -
  have "[i..<i + length (t # ts)] = i # [i + 1..<i + 1 + length ts]"
    using upt_conv_Cons [of i "i + length (t # ts)"] by simp
  then show ?thesis by (simp only: operand_roots_def zip_Cons_Cons list.map prod.case)
qed

lemma load_operands_ok:
  "bytes \<le> PATHAUDIT_MAX_ROOT_BYTES \<Longrightarrow>
    load_operands ts i bytes = Inr rs \<longleftrightarrow> operands_fit bytes ts \<and> rs = operand_roots i ts"
proof (induction ts arbitrary: i bytes rs)
  case Nil
  then show ?case by (auto simp: operands_fit_def operand_roots_def)
next
  case (Cons t ts)
  show ?case
  proof (cases "length t \<le> PATHAUDIT_MAX_ROOT_LENGTH \<and> bytes + length t + 1 \<le> PATHAUDIT_MAX_ROOT_BYTES")
    case True
    then have "size_add_ok (length t) 1 = Some (length t + 1)" "size_add_ok bytes (length t + 1) = Some (bytes + (length t + 1))"
      by (auto simp: size_add_ok_def SIZE_MAX_def PATHAUDIT_MAX_ROOT_BYTES_def)
    with True have "load_operands (t # ts) i bytes = Inr rs \<longleftrightarrow>
      (\<exists>rs1. load_operands ts (i + 1) (bytes + length t + 1) = Inr rs1
        \<and> rs = \<lparr>text_of_root = t, root_index = i, root_len = length t\<rparr> # rs1)"
      by (auto simp: Let_def split: sum.splits)
    with Cons.IH [of "bytes + length t + 1" "i + 1"] True show ?thesis
      by (auto simp: operands_fit_def operand_roots_Cons)
  next
    case False
    then have "\<not> operands_fit bytes (t # ts)" by (auto simp: operands_fit_def)
    moreover have "load_operands (t # ts) i bytes \<noteq> Inr rs"
      using False by (auto simp: size_add_ok_def Let_def split: if_splits sum.splits)
    ultimately show ?thesis by simp
  qed
qed

lemma operand_roots_sel [simp]:
  "map text_of_root (operand_roots i ts) = ts" "map root_index (operand_roots i ts) = [i..<i + length ts]"
  "length (operand_roots i ts) = length ts"
  by (simp_all add: operand_roots_def comp_def case_prod_unfold)

lemma operand_roots_len: "r \<in> set (operand_roots i ts) \<Longrightarrow> root_len r = length (text_of_root r)"
  by (auto simp: operand_roots_def)

section \<open>The order of the report\<close>

definition root_key :: "Root \<Rightarrow> cstr \<times> nat" where "root_key r = (text_of_root r, root_index r)"

lemma compare_roots_le: "compare_roots_by_bytes_then_index a b \<le> 0 \<longleftrightarrow> root_key a \<le> root_key b"
proof (cases "text_of_root a = text_of_root b")
  case True
  then show ?thesis by (auto simp: compare_roots_by_bytes_then_index_def root_key_def Let_def)
next
  case False
  then show ?thesis
    by (auto simp: compare_roots_by_bytes_then_index_def root_key_def less_eq_prod_def Let_def order_le_less)
qed

lemma sort_roots: "qsort_by compare_roots_by_bytes_then_index rs = sort_key root_key rs"
  by (rule qsort_by_key) (rule compare_roots_le)

lemma sorted_root_texts: "map text_of_root (sort_key root_key rs) = sort (map text_of_root rs)"
proof (rule properties_for_sort [symmetric])
  have "sorted (map root_key (sort_key root_key rs))" by simp
  then show "sorted (map text_of_root (sort_key root_key rs))"
    unfolding sorted_map by (rule sorted_wrt_mono_rel [rotated]) (auto simp: root_key_def less_eq_prod_def)
qed (metis mset_map mset_sort)

text \<open>The classification of a list of components.\<close>

fun classify_list :: "audit_os \<Rightarrow> bool \<Rightarrow> (cstr \<times> nat) list \<Rightarrow> Finding list \<Rightarrow> Finding list option" where
  "classify_list os audit [] fs = Some fs"
| "classify_list os audit ((t, i) # ts) fs = Option.bind (classify os audit t i fs) (classify_list os audit ts)"

lemma grows_classify_list: "grows (classify_list os audit ts)"
proof (induction ts)
  case (Cons ti ts)
  obtain t i where ti: "ti = (t, i)" by (cases ti)
  have "classify_list os audit ((t, i) # ts) = (\<lambda>fs. Option.bind (classify os audit t i fs) (classify_list os audit ts))"
    by (simp add: fun_eq_iff)
  then show ?case unfolding ti by (simp add: grows_bind grows_classify Cons)
qed (simp add: grows_def)

lemma classify_roots_implements:
  assumes "\<forall>r \<in> set rs. root_len r = length (text_of_root r)"
  shows "implements s (classify_roots os audit rs b s) (classify_list os audit (map root_key rs) (fitems b))"
  using assms
proof (induction rs arbitrary: b s)
  case Nil
  then show ?case by (simp add: implements_id)
next
  case (Cons r rs)
  have "implements s (classify_roots os audit (r # rs) b s)
      (Option.bind (classify os audit (text_of_root r) (root_index r) (fitems b)) (classify_list os audit (map root_key rs)))"
    unfolding classify_roots.simps
    by (rule implements_and_then, rule classify_implements) (use Cons grows_classify_list in simp_all)
  moreover have "root_key r = (text_of_root r, root_index r)" by (simp add: root_key_def)
  ultimately show ?case by simp
qed

text \<open>Without the audit of owners the findings are the hazards of the components one after the other.\<close>

definition hazards_of :: "audit_os \<Rightarrow> cstr \<Rightarrow> HazardCode list" where
  "hazards_of os t = (case root_codes os t of None \<Rightarrow> [] | Some cs \<Rightarrow> cs)"

lemma classify_list_plain:
  "classify_list os False ts fs =
     (if \<forall>(t, i) \<in> set ts. root_codes os t \<noteq> None
      then Some (fs @ concat (map (\<lambda>(t, i). findings_of t i (hazards_of os t)) ts)) else None)"
proof (induction ts arbitrary: fs)
  case (Cons ti ts)
  obtain t i where ti: "ti = (t, i)" by (cases ti)
  show ?case
    using Cons.IH unfolding ti
    by (cases "root_codes os t") (simp_all add: classify_def hazards_of_def)
qed simp

lemma sorted_codes: "sorted_wrt (\<lambda>c d. code_rank c < code_rank d) (hazards_of os t)"
  by (auto simp: hazards_of_def root_codes_def lookup_codes_def relative_codes_def mode_codes_def
      split: option.split sum.split if_splits)

lemma sorted_report:
  "sorted_wrt (<) ts \<Longrightarrow> sorted (map finding_key (concat (map (\<lambda>(t, i). findings_of t i (hazards_of os t)) ts)))"
proof (induction ts)
  case (Cons ti ts)
  obtain t i where ti: "ti = (t, i)" by (cases ti)
  have "sorted (map finding_key (findings_of t i (hazards_of os t)))"
    using sorted_codes [of os t]
    by (auto simp: findings_of_def finding_key_def sorted_map sorted_wrt_map intro: sorted_wrt_mono_rel [rotated])
  moreover have "finding_key f \<le> finding_key g"
    if f: "f \<in> set (findings_of t i (hazards_of os t))"
      and g: "(u, k) \<in> set ts" "g \<in> set (findings_of u k (hazards_of os u))" for f g u k
  proof -
    have "(t, i) < (u, k)" using Cons.prems g(1) ti by auto
    with f g(2) show ?thesis
      by (auto simp: findings_of_def finding_key_def less_eq_prod_def less_prod_def)
  qed
  ultimately show ?case
    using Cons unfolding ti by (auto simp: sorted_append)
qed simp

text \<open>The report of a list of operands: the hazards of every operand, in the order of the operands' bytes.\<close>

definition audit_report :: "audit_os \<Rightarrow> cstr list \<Rightarrow> (cstr \<times> cstr) list" where
  "audit_report os ts =
     concat (map (\<lambda>t. map (\<lambda>c. (HAZARD_NAMES ! code_rank c, t)) (hazards_of os t)) (sort ts))"

lemma finding_text_report:
  "finding_text (concat (map (\<lambda>(t, i). findings_of t i (hazards_of os t)) ts)) =
     findings_text (concat (map (\<lambda>t. map (\<lambda>c. (HAZARD_NAMES ! code_rank c, t)) (hazards_of os t)) (map fst ts)))"
  by (induction ts) (auto simp: finding_text_def findings_of_def comp_def)

lemma report_empty:
  "concat (map (\<lambda>(t, i). findings_of t i (hazards_of os t)) ts) = [] \<longleftrightarrow>
     concat (map (\<lambda>t. map (\<lambda>c. (HAZARD_NAMES ! code_rank c, t)) (hazards_of os t)) (map fst ts)) = []"
  by (induction ts) (auto simp: findings_of_def)

lemma report_parses: "parse_findings (findings_text (audit_report os ts)) = Some (audit_report os ts)"
  by (rule parse_findings_text) (auto simp: audit_report_def hazard_name_no_control)

section \<open>The explicit mode\<close>

lemma emit_findings_status:
  assumes "emit_findings b s = (status, s1)" and "status \<noteq> 2"
  shows "status = (if fitems b = [] then 0 else 1) \<and> text_of Stdout s1 = text_of Stdout s @ finding_text (fitems b)
    \<and> \<not> ferr (out s1) \<and> flush_errno (out s1) = None"
proof -
  obtain r s2 where w: "c_write Stdout (finding_text (fitems b)) s = (r, s2)" by fastforce
  have r: "r = 0"
    using assms w write_error_status [of s2]
    by (cases "emit_stdout_write_error s2") (auto simp: emit_findings_def emit_finding_lines_write split: if_splits)
  with assms w have "complete_stdout (if length (fitems b) = 0 then 0 else 1) s2 = (status, s1)"
    by (simp add: emit_findings_def emit_finding_lines_write)
  from audit_stdout_status [OF this assms(2)] w r show ?thesis
    using c_write_done [of Stdout "finding_text (fitems b)" s s2] by auto
qed

lemma emit_findings_sure:
  "room (out s) = None \<Longrightarrow> flush_errno (out s) = None \<Longrightarrow> \<not> ferr (out s) \<Longrightarrow> fst (emit_findings b s) \<noteq> 2"
  by (simp add: emit_findings_def emit_finding_lines_write c_write_quiet quiet_def complete_stdout_def
      c_fflush_def c_ferror_def emit_def)

lemma sort_if_many_items: "fitems (sort_if_many b) = sort_key finding_key (fitems b)"
  using sort_key_trivial [of "fitems b" finding_key] by (auto simp: sort_if_many_def sort_findings split: if_splits)

lemma classify_sorted_operands:
  assumes "rs = sort_key root_key (operand_roots 0 ts)"
  shows "classify_list os False (map root_key rs) [] =
      (if \<forall>t \<in> set ts. root_codes os t \<noteq> None
       then Some (concat (map (\<lambda>(t, i). findings_of t i (hazards_of os t)) (map root_key rs))) else None)"
    and "sorted_wrt (<) (map root_key rs)"
    and "map fst (map root_key rs) = sort ts"
proof -
  have fst: "map fst (map root_key rs) = map text_of_root rs" by (simp add: root_key_def)
  then show f: "map fst (map root_key rs) = sort ts"
    using sorted_root_texts [of "operand_roots 0 ts"] assms by simp
  have "fst ` set (map root_key rs) = set ts" unfolding set_map [symmetric] f by simp
  then have "(\<forall>(t, i) \<in> set (map root_key rs). root_codes os t \<noteq> None) \<longleftrightarrow> (\<forall>t \<in> set ts. root_codes os t \<noteq> None)"
    by (metis (mono_tags, lifting) case_prod_unfold image_iff)
  then show "classify_list os False (map root_key rs) [] =
      (if \<forall>t \<in> set ts. root_codes os t \<noteq> None
       then Some (concat (map (\<lambda>(t, i). findings_of t i (hazards_of os t)) (map root_key rs))) else None)"
    unfolding classify_list_plain by simp
  have "distinct (map root_index (operand_roots 0 ts))" by simp
  then have "distinct (map root_key (operand_roots 0 ts))"
    unfolding root_key_def distinct_map inj_on_def by auto
  then have "distinct (map root_key rs)"
    using assms by (metis mset_map mset_eq_imp_distinct_iff mset_sort)
  moreover have "sorted (map root_key rs)" using assms by simp
  ultimately show "sorted_wrt (<) (map root_key rs)" by (simp add: strict_sorted_iff)
qed

lemma run_audit_ok:
  assumes "run_audit os (operand_roots 0 ts) s = (status, s1)" and "status \<noteq> 2"
  shows "(\<forall>t \<in> set ts. root_codes os t \<noteq> None) \<and> status = (if audit_report os ts = [] then 0 else 1)
    \<and> text_of Stdout s1 = text_of Stdout s @ findings_text (audit_report os ts)
    \<and> \<not> ferr (out s1) \<and> flush_errno (out s1) = None"
proof -
  define rs where "rs = sort_key root_key (operand_roots 0 ts)"
  note c = classify_sorted_operands [OF rs_def]
  obtain st b s2 where cl: "classify_roots os False rs no_findings s = (st, b, s2)" by (cases "classify_roots os False rs no_findings s")
  have "\<forall>r \<in> set rs. root_len r = length (text_of_root r)" by (auto simp: rs_def operand_roots_len)
  from classify_roots_implements [OF this, of s os False no_findings] cl
  have i: "implements s (st, b, s2) (classify_list os False (map root_key rs) [])" by (simp add: no_findings_def)
  have run: "run_audit os (operand_roots 0 ts) s = (if st \<noteq> 0 then (st, s2) else emit_findings (sort_if_many b) s2)"
    using cl by (simp add: run_audit_def sort_roots rs_def)
  with assms i have st: "st = 0" "out s2 = out s" by (auto simp: implements_def split: if_splits)
  with i c(1) have all: "\<forall>t \<in> set ts. root_codes os t \<noteq> None"
    and b: "fitems b = concat (map (\<lambda>(t, i). findings_of t i (hazards_of os t)) (map root_key rs))"
    by (auto simp: implements_def split: if_splits)
  have sorted: "fitems (sort_if_many b) = fitems b"
    unfolding sort_if_many_items using sorted_report [OF c(2), of os] b by (simp add: sorted_sort_id sort_key_id_if_sorted)
  have rep: "finding_text (fitems b) = findings_text (audit_report os ts)"
    unfolding b finding_text_report c(3) audit_report_def ..
  have "fitems b = [] \<longleftrightarrow> audit_report os ts = []"
    unfolding b audit_report_def report_empty c(3) ..
  with emit_findings_status [of "sort_if_many b" s2 status s1] run assms st sorted rep all show ?thesis
    by (simp add: text_of_def)
qed

lemma length_hazards_of: "length (hazards_of os t) \<le> 3"
  by (auto simp: hazards_of_def root_codes_def lookup_codes_def relative_codes_def mode_codes_def
      split: option.split sum.split)

lemma length_report: "length (concat (map (\<lambda>(t, i). findings_of t i (hazards_of os t)) ts)) \<le> 3 * length ts"
proof (induction ts)
  case (Cons ti ts)
  then show ?case using length_hazards_of [of os "fst ti"] by (cases ti) (simp add: findings_of_def)
qed simp

lemma run_audit_completes:
  assumes "faultless s" and "length ts \<le> PATHAUDIT_MAX_ROOT_COUNT" and "\<forall>t \<in> set ts. root_codes os t \<noteq> None"
  shows "fst (run_audit os (operand_roots 0 ts) s) \<noteq> 2"
proof -
  define rs where "rs = sort_key root_key (operand_roots 0 ts)"
  note c = classify_sorted_operands [OF rs_def]
  obtain st b s2 where cl: "classify_roots os False rs no_findings s = (st, b, s2)" by (cases "classify_roots os False rs no_findings s")
  have "\<forall>r \<in> set rs. root_len r = length (text_of_root r)" by (auto simp: rs_def operand_roots_len)
  from classify_roots_implements [OF this, of s os False no_findings] cl
  have i: "implements s (st, b, s2) (classify_list os False (map root_key rs) [])" by (simp add: no_findings_def)
  have "length (concat (map (\<lambda>(t, i). findings_of t i (hazards_of os t)) (map root_key rs))) < 2 ^ 57"
    using length_report [of os "map root_key rs"] assms(2) by (simp add: rs_def PATHAUDIT_MAX_ROOT_COUNT_def)
  with i assms(1,3) c(1) have st: "st = 0" "out s2 = out s"
    by (auto simp: implements_def too_many_def faultless_def split: if_splits)
  with emit_findings_sure [of s2 "sort_if_many b"] assms(1) cl show ?thesis
    by (simp add: run_audit_def sort_roots rs_def faultless_def quiet_def)
qed

end
