(* ===== verification/Pathaudit_Owners.thy ===== *)
theory Pathaudit_Owners
  imports Pathaudit_Audit
begin

text \<open>
  Ownership over a whole search path: the directories with an unsafe owner are noted once each,
  at the lowest component that leads to them, although the chains of the components share their
  upper directories; the other findings are not affected by the deduplication.
\<close>

definition is_owner_finding :: "Finding \<Rightarrow> bool" where
  "is_owner_finding f \<longleftrightarrow> fcode f = HAZARD_UNSAFE_OWNER"

text \<open>The noted directories with their indexes.\<close>

definition owned :: "Finding list \<Rightarrow> (cstr \<times> nat) list" where
  "owned fs = map (\<lambda>f. (froot f, findex f)) (filter is_owner_finding fs)"

lemma owned_append [simp]: "owned (fs @ gs) = owned fs @ owned gs"
  by (simp add: owned_def)

lemma owned_codes: "HAZARD_UNSAFE_OWNER \<notin> set codes \<Longrightarrow> owned (findings_of t i codes) = []"
  by (auto simp: owned_def findings_of_def is_owner_finding_def filter_empty_conv)

lemma note_loop_None: "note_loop fs p i = None \<longleftrightarrow> p \<notin> fst ` set (owned fs)"
  by (induction fs) (auto simp: owned_def is_owner_finding_def)

lemma note_loop_same:
  "note_loop fs p i = Some gs \<Longrightarrow> \<forall>(q, j) \<in> set (owned fs). j \<le> i \<Longrightarrow> gs = fs"
proof (induction fs arbitrary: gs)
  case (Cons f fs)
  then show ?case by (cases "fcode f = HAZARD_UNSAFE_OWNER") (auto simp: owned_def is_owner_finding_def split: if_splits)
qed simp

text \<open>With indexes that only grow, a directory that is noted already keeps its index.\<close>

lemma note_owner_cases:
  assumes "\<forall>(q, j) \<in> set (owned fs). j \<le> i"
  shows "note_owner i fs p = (if p \<in> fst ` set (owned fs) then fs
     else fs @ [\<lparr>froot = p, findex = i, fcode = HAZARD_UNSAFE_OWNER\<rparr>])"
  using note_loop_same [OF _ assms, of p] note_loop_None [of fs p i]
  by (auto simp: note_owner_def split: option.split)

definition noted :: "Finding list \<Rightarrow> (cstr \<times> nat) list \<Rightarrow> nat \<Rightarrow> bool" where
  "noted fs ps i \<longleftrightarrow> map_of (owned fs) = map_of ps \<and> distinct (map fst (owned fs)) \<and> (\<forall>(q, j) \<in> set (owned fs). j \<le> i)"

lemma noted_note:
  assumes "noted fs ps i"
  shows "noted (note_owner i fs p) (ps @ [(p, i)]) i"
    and "filter (\<lambda>f. \<not> is_owner_finding f) (note_owner i fs p) = filter (\<lambda>f. \<not> is_owner_finding f) fs"
proof -
  let ?f = "\<lparr>froot = p, findex = i, fcode = HAZARD_UNSAFE_OWNER\<rparr>"
  have own: "owned [?f] = [(p, i)]" "is_owner_finding ?f" by (simp_all add: owned_def is_owner_finding_def)
  have le: "\<forall>(q, j) \<in> set (owned fs). j \<le> i" using assms by (simp add: noted_def)
  have dom: "p \<in> fst ` set (owned fs) \<Longrightarrow> map_of ps p \<noteq> None"
    using assms by (metis map_of_eq_None_iff noted_def)
  have keep: "p \<in> fst ` set (owned fs) \<Longrightarrow> map_of (ps @ [(p, i)]) = map_of ps"
    using dom by (auto simp: map_of_append fun_eq_iff map_add_def split: option.split)
  show "noted (note_owner i fs p) (ps @ [(p, i)]) i"
    using assms note_owner_cases [OF le, of p] own keep
    by (auto simp: noted_def map_of_append)
  show "filter (\<lambda>f. \<not> is_owner_finding f) (note_owner i fs p) = filter (\<lambda>f. \<not> is_owner_finding f) fs"
    using note_owner_cases [OF le, of p] own by simp
qed

lemma noted_notes:
  "noted fs ps i \<Longrightarrow> noted (foldl (note_owner i) fs qs) (ps @ map (\<lambda>q. (q, i)) qs) i
     \<and> filter (\<lambda>f. \<not> is_owner_finding f) (foldl (note_owner i) fs qs) = filter (\<lambda>f. \<not> is_owner_finding f) fs"
proof (induction qs arbitrary: fs ps)
  case (Cons q qs)
  from Cons.IH [OF noted_note(1) [OF Cons.prems, of q]] noted_note(2) [OF Cons.prems, of q] show ?case by simp
qed simp

lemma noted_plain:
  assumes "noted fs ps i" and "HAZARD_UNSAFE_OWNER \<notin> set codes" and "i \<le> j"
  shows "noted (fs @ findings_of t k codes) ps j"
  using assms by (auto simp: noted_def owned_codes)

lemma no_owner_code: "HAZARD_UNSAFE_OWNER \<notin> set (hazards_of os t)"
  by (auto simp: hazards_of_def root_codes_def lookup_codes_def relative_codes_def mode_codes_def
      split: option.splits sum.splits if_splits)

text \<open>The unsafe directories a component leads to.\<close>

definition owners_above :: "audit_os \<Rightarrow> cstr \<Rightarrow> cstr list" where
  "owners_above os t =
     (if t \<noteq> [] \<and> is_dir os t then (case unsafe_chain os t of None \<Rightarrow> [] | Some ps \<Rightarrow> ps) else [])"

definition owner_pairs :: "audit_os \<Rightarrow> (cstr \<times> nat) list \<Rightarrow> (cstr \<times> nat) list" where
  "owner_pairs os ts = concat (map (\<lambda>(t, i). map (\<lambda>p. (p, i)) (owners_above os t)) ts)"

lemma classify_step:
  assumes "classify os True t i fs = Some gs" and "noted fs ps j" and "j \<le> i"
  shows "noted gs (ps @ map (\<lambda>p. (p, i)) (owners_above os t)) i"
    and "filter (\<lambda>f. \<not> is_owner_finding f) gs = filter (\<lambda>f. \<not> is_owner_finding f) fs @ findings_of t i (hazards_of os t)"
proof -
  from assms(1) obtain codes where codes: "root_codes os t = Some codes" and h: "hazards_of os t = codes"
    by (cases "root_codes os t") (auto simp: classify_def hazards_of_def)
  let ?fs = "fs @ findings_of t i codes"
  have plain: "filter (\<lambda>f. \<not> is_owner_finding f) (findings_of t i codes) = findings_of t i codes"
    using no_owner_code [of os t] h by (auto simp: filter_id_conv findings_of_def is_owner_finding_def)
  have n: "noted ?fs ps i" using noted_plain [OF assms(2) _ assms(3)] no_owner_code [of os t] h by simp
  have "gs = foldl (note_owner i) ?fs (owners_above os t)"
    using assms(1) codes by (auto simp: classify_def owners_above_def split: if_splits)
  with noted_notes [OF n, of "owners_above os t"] plain h
  show "noted gs (ps @ map (\<lambda>p. (p, i)) (owners_above os t)) i"
    "filter (\<lambda>f. \<not> is_owner_finding f) gs = filter (\<lambda>f. \<not> is_owner_finding f) fs @ findings_of t i (hazards_of os t)"
    by simp_all
qed

lemma classify_list_owners:
  "classify_list os True ts fs = Some gs \<Longrightarrow> noted fs ps j \<Longrightarrow> sorted (j # map snd ts) \<Longrightarrow>
     (\<exists>k. noted gs (ps @ owner_pairs os ts) k)
     \<and> filter (\<lambda>f. \<not> is_owner_finding f) gs = filter (\<lambda>f. \<not> is_owner_finding f) fs
         @ concat (map (\<lambda>(t, i). findings_of t i (hazards_of os t)) ts)"
proof (induction ts arbitrary: fs ps j)
  case Nil
  then show ?case by (auto simp: owner_pairs_def)
next
  case (Cons ti ts)
  obtain t i where ti: "ti = (t, i)" by (cases ti)
  from Cons.prems(1) ti obtain fs1 where c: "classify os True t i fs = Some fs1" "classify_list os True ts fs1 = Some gs"
    by (auto simp: bind_eq_Some_conv)
  have "j \<le> i" "sorted (i # map snd ts)" using Cons.prems(3) ti by simp_all
  note s = classify_step [OF c(1) Cons.prems(2) this(1)]
  from Cons.IH [OF c(2) s(1) \<open>sorted (i # map snd ts)\<close>] s(2) ti show ?case
    by (auto simp: owner_pairs_def)
qed

lemma classify_path_owners:
  assumes "classify_list os True ts [] = Some fs" and "sorted (map snd ts)"
  shows "filter (\<lambda>f. \<not> is_owner_finding f) fs = concat (map (\<lambda>(t, i). findings_of t i (hazards_of os t)) ts)"
    and "distinct (map fst (owned fs))"
    and "(p, i) \<in> set (owned fs) \<longleftrightarrow> map_of (owner_pairs os ts) p = Some i"
proof -
  have "noted [] [] 0" by (simp add: noted_def owned_def)
  from classify_list_owners [OF assms(1) this] assms(2)
  have f: "filter (\<lambda>f. \<not> is_owner_finding f) fs = concat (map (\<lambda>(t, i). findings_of t i (hazards_of os t)) ts)"
    and n: "map_of (owned fs) = map_of (owner_pairs os ts)" "distinct (map fst (owned fs))"
    by (auto simp: noted_def)
  then show "filter (\<lambda>f. \<not> is_owner_finding f) fs = concat (map (\<lambda>(t, i). findings_of t i (hazards_of os t)) ts)"
    "distinct (map fst (owned fs))" by simp_all
  show "(p, i) \<in> set (owned fs) \<longleftrightarrow> map_of (owner_pairs os ts) p = Some i"
    using n by (simp flip: n(1))
qed

end
