(* ===== verification/Pathaudit_Match.thy ===== *)
theory Pathaudit_Match
  imports Pathaudit_Findings
begin

text \<open>
  Finding the executable a command names in one \<open>PATH\<close> component, in \<open>src/pathaudit.c\<close>: the
  candidate path, the symbolic-link and image probes, and the decision between a match, no match
  and an error that ends the run.  The decision is a function of the file system
  (\<open>command_match\<close>); only a refused allocation can change its answer.
\<close>

section \<open>The code\<close>

definition build_command_candidate :: "Root \<Rightarrow> cstr \<Rightarrow> io \<Rightarrow> int \<times> cstr option \<times> io" where
  "build_command_candidate root command s =
     (let cmd_len = length command in
      if root_len root = 0 then
        (if cmd_len > PATHAUDIT_MAX_ROOT_LENGTH then (0, None, s)
         else
           (case c_malloc s of
              (ok, s1) \<Rightarrow>
                if \<not> ok then (2, None, emit_diag_reason ''OUT_OF_MEMORY'' s1)
                else (0, Some command, s1)))
      else
        (let need_slash = (text_of_root root ! (root_len root - 1) \<noteq> CHR ''/'');
             slash = (if need_slash then 1 else 0) in
         case size_add_ok (root_len root) slash of
           None \<Rightarrow> (0, None, s)
         | Some total1 \<Rightarrow>
             (case size_add_ok total1 cmd_len of
                None \<Rightarrow> (0, None, s)
              | Some path_len \<Rightarrow>
                  if path_len > PATHAUDIT_MAX_ROOT_LENGTH then (0, None, s)
                  else
                    (case c_malloc s of
                       (ok, s1) \<Rightarrow>
                         if \<not> ok then (2, None, emit_diag_reason ''OUT_OF_MEMORY'' s1)
                         else (0, Some (text_of_root root @ (if need_slash then ''/'' else []) @ command), s1)))))"

text \<open>The buffer of \<open>readlink\<close> holds one byte more than the command.\<close>

definition symlink_is_self_basename :: "audit_os \<Rightarrow> cstr \<Rightarrow> cstr \<Rightarrow> io \<Rightarrow> int \<times> bool \<times> io" where
  "symlink_is_self_basename os candidate command s =
     (case a_lstat os candidate of
        Inl e \<Rightarrow> (0, False, s)
      | Inr lst \<Rightarrow>
          if \<not> S_ISLNK (st_mode lst) then (0, False, s)
          else
            (let command_len = length command in
             case size_add_ok command_len 1 of
               None \<Rightarrow> (2, False, emit_diag_reason ''OUT_OF_MEMORY'' s)
             | Some buf_size \<Rightarrow>
                 (case c_malloc s of
                    (ok, s1) \<Rightarrow>
                      if \<not> ok then (2, False, emit_diag_reason ''OUT_OF_MEMORY'' s1)
                      else
                        (case a_readlink os candidate of
                           Inl e \<Rightarrow> (0, False, s1)
                         | Inr link \<Rightarrow>
                             if length (take buf_size link) \<noteq> command_len then (0, False, s1)
                             else
                               (let target = cstr_of (take buf_size link) in
                                (0, strchr target CHR ''/'' = None
                                    \<and> cmp_unsigned_bytes target command = 0, s1))))))"

definition root_lookup_fails_with :: "audit_os \<Rightarrow> Root \<Rightarrow> nat \<Rightarrow> bool" where
  "root_lookup_fails_with os root e =
     (if root_len root = 0 then False
      else (case a_stat os (text_of_root root) of Inl e1 \<Rightarrow> e1 = e | Inr st \<Rightarrow> False))"

text \<open>The error number that is returned (0 for none), and \<open>*is_image\<close>.\<close>

definition probe_exec_image :: "audit_os \<Rightarrow> cstr \<Rightarrow> nat \<times> bool" where
  "probe_exec_image os path =
     (case a_open os path of
        Inl e \<Rightarrow> if e = EACCES then (0, True) else (e, False)
      | Inr (Inl read_err) \<Rightarrow> (read_err, False)
      | Inr (Inr hdr) \<Rightarrow>
          (let n = length hdr;
               shebang = (n \<ge> 2 \<and> hdr ! 0 = CHR ''#'' \<and> hdr ! 1 = CHR ''!'');
               elf = (n \<ge> 4 \<and> hdr ! 0 = CHR 0x7F \<and> hdr ! 1 = CHR ''E'' \<and> hdr ! 2 = CHR ''L'' \<and> hdr ! 3 = CHR ''F'')
           in (0, shebang \<or> elf)))"

type_synonym command_hit = "cstr \<times> mode_t \<times> nat"

text \<open>
  What \<open>try_command_match\<close> does three times with an error number: silence when the component
  itself fails the same way or when a loop of links is not the command's own, and otherwise
  the diagnostic that ends the run.
\<close>

definition candidate_failure ::
  "audit_os \<Rightarrow> Root \<Rightarrow> cstr \<Rightarrow> cstr \<Rightarrow> nat \<Rightarrow> io \<Rightarrow> int \<times> command_hit option \<times> io" where
  "candidate_failure os root candidate command e s =
     (if root_lookup_fails_with os root e then (0, None, s)
      else if e = ELOOP then
        (case symlink_is_self_basename os candidate command s of
           (check, is_self, s1) \<Rightarrow>
             if check \<noteq> 0 then (check, None, s1)
             else if \<not> is_self then (0, None, s1)
             else (case emit_inspection_error_on_path e candidate s1 of (status, s2) \<Rightarrow> (status, None, s2)))
      else (case emit_inspection_error_on_path e candidate s of (status, s1) \<Rightarrow> (status, None, s1)))"

definition try_command_match :: "audit_os \<Rightarrow> Root \<Rightarrow> cstr \<Rightarrow> io \<Rightarrow> int \<times> command_hit option \<times> io" where
  "try_command_match os root command s =
     (case build_command_candidate root command s of
        (build_status, cand, s1) \<Rightarrow>
          if build_status \<noteq> 0 then (build_status, None, s1)
          else
            (case cand of
               None \<Rightarrow> (0, None, s1)
             | Some candidate \<Rightarrow>
                 (case a_stat os candidate of
                    Inl e \<Rightarrow>
                      if e = ENOENT \<or> e = ENOTDIR then (0, None, s1)
                      else candidate_failure os root candidate command e s1
                  | Inr st \<Rightarrow>
                      if \<not> S_ISREG (st_mode st) \<or> \<not> a_access os candidate then (0, None, s1)
                      else
                        (case probe_exec_image os candidate of
                           (image_err, is_image) \<Rightarrow>
                             if image_err \<noteq> 0 then
                               (if image_err = ENOENT \<or> image_err = ENOTDIR then (0, None, s1)
                                else candidate_failure os root candidate command image_err s1)
                             else if \<not> is_image then (0, None, s1)
                             else
                               (case c_malloc s1 of
                                  (ok, s2) \<Rightarrow>
                                    if \<not> ok then (2, None, emit_diag_reason ''OUT_OF_MEMORY'' s2)
                                    else
                                      (case a_realpath os candidate of
                                         Inl e \<Rightarrow>
                                           if e = ENOMEM then (2, None, emit_diag_reason ''OUT_OF_MEMORY'' s2)
                                           else if e = EACCES \<or> e = ELOOP
                                           then candidate_failure os root candidate command e s2
                                           else (0, None, s2)
                                       | Inr resolved \<Rightarrow>
                                           (case owned_strdup s2 of
                                              (ok1, s3) \<Rightarrow>
                                                if \<not> ok1 then (2, None, emit_diag_reason ''OUT_OF_MEMORY'' s3)
                                                else (0, Some (resolved, st_mode st, st_uid st), s3))))))))"

section \<open>The decision\<close>

definition candidate_path :: "cstr \<Rightarrow> cstr \<Rightarrow> cstr option" where
  "candidate_path t command =
     (let p = (if t = [] \<or> last t = CHR ''/'' then t @ command else t @ ''/'' @ command) in
      if length p > PATHAUDIT_MAX_ROOT_LENGTH then None else Some p)"

definition self_link :: "audit_os \<Rightarrow> cstr \<Rightarrow> cstr \<Rightarrow> bool" where
  "self_link os candidate command =
     (case (a_lstat os candidate, a_readlink os candidate) of
        (Inr lst, Inr link) \<Rightarrow>
          S_ISLNK (st_mode lst) \<and> length link = length command \<and> cstr_of link = command \<and> CHR ''/'' \<notin> set command
      | _ \<Rightarrow> False)"

text \<open>Whether an error number on a candidate ends the run.\<close>

definition fatal_lookup :: "audit_os \<Rightarrow> cstr \<Rightarrow> cstr \<Rightarrow> cstr \<Rightarrow> nat \<Rightarrow> bool" where
  "fatal_lookup os t candidate command e \<longleftrightarrow>
     \<not> (t \<noteq> [] \<and> a_stat os t = Inl e) \<and> (e = ELOOP \<longrightarrow> self_link os candidate command)"

definition no_match_unless :: "bool \<Rightarrow> 'a option option" where
  "no_match_unless fatal = (if fatal then None else Some None)"

lemma no_match_simps [simp]: "no_match_unless False = Some None" "no_match_unless True = None"
  by (simp_all add: no_match_unless_def)

text \<open>\<open>None\<close>: an error; \<open>Some None\<close>: no match; the path, mode and owner of a match otherwise.\<close>

definition command_match :: "audit_os \<Rightarrow> cstr \<Rightarrow> cstr \<Rightarrow> command_hit option option" where
  "command_match os t command =
     (case candidate_path t command of
        None \<Rightarrow> Some None
      | Some candidate \<Rightarrow>
          (let fatal = fatal_lookup os t candidate command in
           case a_stat os candidate of
             Inl e \<Rightarrow> no_match_unless (e \<noteq> ENOENT \<and> e \<noteq> ENOTDIR \<and> fatal e)
           | Inr st \<Rightarrow>
               if \<not> S_ISREG (st_mode st) \<or> \<not> a_access os candidate then Some None
               else
                 (case probe_exec_image os candidate of
                    (e, is_image) \<Rightarrow>
                      if e \<noteq> 0 then no_match_unless (e \<noteq> ENOENT \<and> e \<noteq> ENOTDIR \<and> fatal e)
                      else if \<not> is_image then Some None
                      else
                        (case a_realpath os candidate of
                           Inl e \<Rightarrow> no_match_unless (e = ENOMEM \<or> (e = EACCES \<or> e = ELOOP) \<and> fatal e)
                         | Inr resolved \<Rightarrow> Some (Some (resolved, st_mode st, st_uid st))))))"

text \<open>A computation that gives the specified value unless an allocation is refused.\<close>

definition answers :: "io \<Rightarrow> int \<times> 'a \<times> io \<Rightarrow> 'a option \<Rightarrow> bool" where
  "answers s r spec =
     (case r of (status, v, s1) \<Rightarrow>
        out s1 = out s \<and> (mem s = None \<longrightarrow> mem s1 = None)
        \<and> (if status = 0 then spec = Some v else status = 2 \<and> (spec = None \<or> mem s \<noteq> None)))"

lemma answers_return [simp]: "answers s (0, v, s) (Some v)"
  by (simp add: answers_def)

lemma answers_step:
  assumes "answers s1 r spec" and "out s1 = out s" and "mem s = None \<longrightarrow> mem s1 = None"
  shows "answers s r spec"
  using assms by (cases "mem s") (auto simp: answers_def split: if_splits)

lemma answers_no_memory: "mem s \<noteq> None \<Longrightarrow> out s1 = out s \<Longrightarrow> answers s (2, v, emit_diag_reason r s1) spec"
  by (auto simp: answers_def)

text \<open>An allocation, then what follows it when it is granted.\<close>

lemma answers_malloc:
  assumes "\<And>s1. out s1 = out s \<Longrightarrow> mem s = None \<longrightarrow> mem s1 = None \<Longrightarrow> answers s1 (f s1) spec"
  shows "answers s (case c_malloc s of (ok, s1) \<Rightarrow> if \<not> ok then (2, v, emit_diag_reason r s1) else f s1) spec"
proof -
  obtain ok s1 where m: "c_malloc s = (ok, s1)" by fastforce
  note c = c_malloc_None [OF m]
  show ?thesis
  proof (cases ok)
    case True
    with m c answers_step [OF assms, of s1] show ?thesis by simp
  next
    case False
    with m c answers_no_memory [of s s1] show ?thesis by simp
  qed
qed

lemma build_candidate_answers:
  assumes "root_len root = length (text_of_root root)"
  shows "answers s (build_command_candidate root command s) (Some (candidate_path (text_of_root root) command))"
proof (cases "text_of_root root = []")
  case True
  then show ?thesis
    using assms
    by (auto simp: build_command_candidate_def candidate_path_def Let_def intro!: answers_malloc)
next
  case False
  let ?t = "text_of_root root" and ?slash = "if last (text_of_root root) \<noteq> CHR ''/'' then 1 else 0"
  have last: "?t ! (root_len root - 1) = last ?t" using False assms by (simp add: last_conv_nth)
  have p: "candidate_path ?t command =
      (if length ?t + ?slash + length command > PATHAUDIT_MAX_ROOT_LENGTH then None
       else Some (?t @ (if last ?t \<noteq> CHR ''/'' then ''/'' else []) @ command))"
    using False by (simp add: candidate_path_def Let_def)
  have b: "build_command_candidate root command s =
      (case size_add_ok (length ?t) ?slash of
         None \<Rightarrow> (0, None, s)
       | Some n \<Rightarrow>
           (case size_add_ok n (length command) of
              None \<Rightarrow> (0, None, s)
            | Some m \<Rightarrow>
                if m > PATHAUDIT_MAX_ROOT_LENGTH then (0, None, s)
                else (case c_malloc s of (ok, s1) \<Rightarrow> if \<not> ok then (2, None, emit_diag_reason ''OUT_OF_MEMORY'' s1)
                   else (0, Some (?t @ (if last ?t \<noteq> CHR ''/'' then ''/'' else []) @ command), s1))))"
    using False assms last by (simp add: build_command_candidate_def Let_def)
  show ?thesis
  proof (cases "length ?t + ?slash + length command > PATHAUDIT_MAX_ROOT_LENGTH")
    case True
    then show ?thesis unfolding b p by (auto simp: size_add_ok_def)
  next
    case False
    then have "size_add_ok (length ?t) ?slash = Some (length ?t + ?slash)"
      "size_add_ok (length ?t + ?slash) (length command) = Some (length ?t + ?slash + length command)"
      by (auto simp: size_add_ok_def SIZE_MAX_def PATHAUDIT_MAX_ROOT_LENGTH_def)
    with False show ?thesis unfolding b p by (auto intro!: answers_malloc)
  qed
qed

lemma symlink_answers:
  assumes "length command \<le> PATHAUDIT_MAX_ROOT_LENGTH"
  shows "answers s (symlink_is_self_basename os candidate command s) (Some (self_link os candidate command))"
proof (cases "a_lstat os candidate")
  case (Inl e)
  then show ?thesis by (simp add: symlink_is_self_basename_def self_link_def)
next
  case (Inr lst)
  have add: "size_add_ok (length command) 1 = Some (length command + 1)"
    using assms by (simp add: size_add_ok_def SIZE_MAX_def PATHAUDIT_MAX_ROOT_LENGTH_def)
  have len: "length (take (Suc (length command)) link) = length command \<longleftrightarrow> length link = length command" for link :: cstr
    by (auto simp: min_def)
  have "answers s1
      (case a_readlink os candidate of
         Inl e \<Rightarrow> (0, False, s1)
       | Inr link \<Rightarrow>
           if length (take (Suc (length command)) link) \<noteq> length command then (0, False, s1)
           else (let target = cstr_of (take (Suc (length command)) link) in
             (0, strchr target CHR ''/'' = None \<and> cmp_unsigned_bytes target command = 0, s1)))
      (Some (self_link os candidate command))"
    if "S_ISLNK (st_mode lst)" for s1
    using Inr that
    by (cases "a_readlink os candidate") (auto simp: len self_link_def strchr_None Let_def answers_def)
  note inner = this
  show ?thesis
  proof (cases "S_ISLNK (st_mode lst)")
    case True
    with Inr add have "symlink_is_self_basename os candidate command s =
      (case c_malloc s of (ok, s1) \<Rightarrow> if \<not> ok then (2, False, emit_diag_reason ''OUT_OF_MEMORY'' s1)
       else (case a_readlink os candidate of
         Inl e \<Rightarrow> (0, False, s1)
       | Inr link \<Rightarrow>
           if length (take (Suc (length command)) link) \<noteq> length command then (0, False, s1)
           else (let target = cstr_of (take (Suc (length command)) link) in
             (0, strchr target CHR ''/'' = None \<and> cmp_unsigned_bytes target command = 0, s1))))"
      by (simp add: symlink_is_self_basename_def Let_def)
    then show ?thesis using inner [OF True] by (auto intro: answers_malloc)
  next
    case False
    with Inr have "self_link os candidate command = False" by (simp add: self_link_def split: sum.split)
    with Inr False show ?thesis by (simp add: symlink_is_self_basename_def)
  qed
qed

lemma candidate_failure_answers:
  assumes "root_len root = length (text_of_root root)" and "length command \<le> PATHAUDIT_MAX_ROOT_LENGTH"
  shows "answers s (candidate_failure os root candidate command e s)
    (no_match_unless (fatal_lookup os (text_of_root root) candidate command e))"
proof -
  let ?t = "text_of_root root"
  have r: "root_lookup_fails_with os root e \<longleftrightarrow> ?t \<noteq> [] \<and> a_stat os ?t = Inl e"
    using assms(1) by (auto simp: root_lookup_fails_with_def split: sum.split)
  have fl: "fatal_lookup os ?t candidate command e \<longleftrightarrow>
      \<not> root_lookup_fails_with os root e \<and> (e = ELOOP \<longrightarrow> self_link os candidate command)"
    by (simp add: fatal_lookup_def r)
  obtain c is_self s1 where l: "symlink_is_self_basename os candidate command s = (c, is_self, s1)"
    by (cases "symlink_is_self_basename os candidate command s")
  with symlink_answers [OF assms(2), of s os candidate] have
    a: "answers s (c, is_self, s1) (Some (self_link os candidate command))" by simp
  have fail: "answers s (case emit_inspection_error_on_path e candidate s of (status, s1) \<Rightarrow> (status, None, s1)) None"
    for s :: io
    by (simp add: answers_def emit_inspection_error_on_path_def Let_def)
  show ?thesis
  proof (cases "root_lookup_fails_with os root e")
    case True
    then show ?thesis by (simp add: candidate_failure_def fl)
  next
    case nr: False
    show ?thesis
    proof (cases "e = ELOOP")
      case False
      with nr fail show ?thesis by (simp add: candidate_failure_def fl)
    next
      case True
      with a have s1: "out s1 = out s" "mem s = None \<longrightarrow> mem s1 = None" by (auto simp: answers_def)
      note st = answers_step [OF _ s1]
      show ?thesis
      proof (cases "c = 0")
        case zero: True
        with a have "self_link os candidate command = is_self" by (simp add: answers_def)
        with zero nr True l st [OF fail] st [OF answers_return, of "None :: command_hit option"] show ?thesis
          by (cases is_self) (simp_all add: candidate_failure_def fl [unfolded True])
      next
        case False
        with a have "c = 2" "mem s \<noteq> None" by (auto simp: answers_def)
        with nr True l s1 show ?thesis by (auto simp: candidate_failure_def answers_def)
      qed
    qed
  qed
qed

lemma candidate_path_command: "candidate_path t command = Some p \<Longrightarrow> length command \<le> PATHAUDIT_MAX_ROOT_LENGTH"
  by (auto simp: candidate_path_def Let_def split: if_splits)

text \<open>The search for a command in one component gives its match.\<close>

lemma try_match_answers:
  assumes "root_len root = length (text_of_root root)"
  shows "answers s (try_command_match os root command s) (command_match os (text_of_root root) command)"
proof -
  let ?t = "text_of_root root"
  obtain bs cand s1 where b: "build_command_candidate root command s = (bs, cand, s1)"
    by (cases "build_command_candidate root command s")
  with build_candidate_answers [OF assms, of s command] have
    a: "answers s (bs, cand, s1) (Some (candidate_path ?t command))" by simp
  show ?thesis
  proof (cases "bs = 0")
    case False
    with a b show ?thesis by (auto simp: try_command_match_def answers_def)
  next
    case True
    with a have s1: "out s1 = out s" "mem s = None \<longrightarrow> mem s1 = None" and cand: "candidate_path ?t command = cand"
      by (auto simp: answers_def)
    show ?thesis
    proof (cases cand)
      case None
      with True b cand s1 answers_step [OF answers_return] show ?thesis
        by (simp add: try_command_match_def command_match_def)
    next
      case (Some p)
      note len = candidate_path_command [OF cand [unfolded Some]]
      have fail: "answers s2 (candidate_failure os root p command e s2) (no_match_unless (fatal_lookup os ?t p command e))"
        for e s2 by (rule candidate_failure_answers [OF assms len])
      have found: "answers s2
          (case a_realpath os p of
             Inl e \<Rightarrow>
               if e = ENOMEM then (2, None, emit_diag_reason ''OUT_OF_MEMORY'' s2)
               else if e = EACCES \<or> e = ELOOP then candidate_failure os root p command e s2
               else (0, None, s2)
           | Inr resolved \<Rightarrow>
               (case owned_strdup s2 of
                  (ok1, s3) \<Rightarrow>
                    if \<not> ok1 then (2, None, emit_diag_reason ''OUT_OF_MEMORY'' s3)
                    else (0, Some (resolved, st_mode st, st_uid st), s3)))
          (case a_realpath os p of
             Inl e \<Rightarrow> no_match_unless (e = ENOMEM \<or> (e = EACCES \<or> e = ELOOP) \<and> fatal_lookup os ?t p command e)
           | Inr resolved \<Rightarrow> Some (Some (resolved, st_mode st, st_uid st)))" for s2 st
      proof (cases "a_realpath os p")
        case (Inl e)
        have "answers s2 (2, None, emit_diag_reason ''OUT_OF_MEMORY'' s2) None" by (simp add: answers_def)
        with Inl fail [of s2 e] show ?thesis by (cases "e = ENOMEM") (auto simp: ENOMEM_def EACCES_def ELOOP_def)
      next
        case (Inr resolved)
        then show ?thesis by (auto simp: owned_strdup_def intro!: answers_malloc)
      qed
      note up = answers_step [OF _ s1]
      show ?thesis
      proof (cases "a_stat os p")
        case (Inl e)
        with True b cand Some up [OF fail [of s1 e]] up [OF answers_return, of "None :: command_hit option"] show ?thesis
          by (simp add: try_command_match_def command_match_def Let_def)
      next
        case (Inr st)
        have nz: "ENOENT \<noteq> 0" "ENOTDIR \<noteq> 0" by (simp_all add: ENOENT_def ENOTDIR_def)
        obtain e im where pr: "probe_exec_image os p = (e, im)" by fastforce
        consider "\<not> S_ISREG (st_mode st) \<or> \<not> a_access os p" | "S_ISREG (st_mode st)" "a_access os p" "e \<noteq> 0"
          | "S_ISREG (st_mode st)" "a_access os p" "e = 0" "im"
          | "S_ISREG (st_mode st)" "a_access os p" "e = 0" "\<not> im" by auto
        then show ?thesis
        proof cases
          case 3
          have "answers s1 (try_command_match os root command s) (command_match os ?t command)"
            using True b cand Some Inr pr 3 answers_malloc [where s = s1, OF found]
            by (simp add: try_command_match_def command_match_def Let_def)
          then show ?thesis by (rule up)
        qed (use nz True b cand Some Inr pr up [OF fail [of s1 e]] up [OF answers_return, of "None :: command_hit option"] in
            \<open>simp_all add: try_command_match_def command_match_def Let_def\<close>)
      qed
    qed
  qed
qed

end
