(* ===== verification/Pathaudit_Scan.thy ===== *)
theory Pathaudit_Scan
  imports Pathaudit_Match Pathaudit_Audit
begin

text \<open>
  The \<open>--path\<close> mode of \<open>src/pathaudit.c\<close>: every component of \<open>PATH\<close> is classified, every
  executable in it is checked and recorded, and the findings and shadows are sorted and printed.
  The specification is the list of hits in the order in which they are found (\<open>path_hits\<close>); the
  tables of \<open>Pathaudit_Index\<close> follow it, and the printed shadows are exactly its shadows.
\<close>

section \<open>The code\<close>

definition skipped_entry :: "cstr \<Rightarrow> bool" where
  "skipped_entry name \<longleftrightarrow> name = [] \<or> name = ''.'' \<or> name = ''..'' \<or> strchr name CHR ''/'' \<noteq> None"

text \<open>The loop over \<open>readdir\<close>; \<open>read_errno\<close> is the error number that its last call leaves.\<close>

fun scan_entries ::
  "audit_os \<Rightarrow> Root \<Rightarrow> cstr list \<Rightarrow> nat \<Rightarrow> WinnerBuffer \<Rightarrow> ShadowBuffer \<Rightarrow> FindingBuffer \<Rightarrow> io
    \<Rightarrow> (int \<times> WinnerBuffer \<times> ShadowBuffer \<times> FindingBuffer \<times> io) option" where
  "scan_entries os root [] read_errno winners shadows findings s =
     (if read_errno \<noteq> 0 then
        (case emit_inspection_error_on_path read_errno (text_of_root root) s of
           (status, s1) \<Rightarrow> Some (status, winners, shadows, findings, s1))
      else Some (0, winners, shadows, findings, s))"
| "scan_entries os root (name # names) read_errno winners shadows findings s =
     (if skipped_entry name then scan_entries os root names read_errno winners shadows findings s
      else
        (case try_command_match os root name s of
           (match_status, hit, s1) \<Rightarrow>
             if match_status \<noteq> 0 then Some (match_status, winners, shadows, findings, s1)
             else
               (case hit of
                  None \<Rightarrow> scan_entries os root names read_errno winners shadows findings s1
                | Some (path, mode, owner) \<Rightarrow>
                    (case append_executable_trust_findings os path (root_index root) mode owner findings s1 of
                       (trust_status, findings1, s2) \<Rightarrow>
                         if trust_status \<noteq> 0 then Some (trust_status, winners, shadows, findings1, s2)
                         else
                           (case record_executable_hit name path (root_index root) winners shadows s2 of
                              None \<Rightarrow> None
                            | Some (record_status, winners1, shadows1, s3) \<Rightarrow>
                                if record_status \<noteq> 0
                                then Some (record_status, winners1, shadows1, findings1, s3)
                                else scan_entries os root names read_errno winners1 shadows1 findings1 s3)))))"

definition scan_root_executables ::
  "audit_os \<Rightarrow> Root \<Rightarrow> WinnerBuffer \<Rightarrow> ShadowBuffer \<Rightarrow> FindingBuffer \<Rightarrow> io
    \<Rightarrow> (int \<times> WinnerBuffer \<times> ShadowBuffer \<times> FindingBuffer \<times> io) option" where
  "scan_root_executables os root winners shadows findings s =
     (if root_len root = 0 then Some (0, winners, shadows, findings, s)
      else
        (case a_stat os (text_of_root root) of
           Inl e \<Rightarrow> Some (0, winners, shadows, findings, s)
         | Inr st \<Rightarrow>
             if \<not> S_ISDIR (st_mode st) then Some (0, winners, shadows, findings, s)
             else
               (case a_opendir os (text_of_root root) of
                  None \<Rightarrow> Some (0, winners, shadows, findings, s)
                | Some (names, read_errno) \<Rightarrow>
                    scan_entries os root names read_errno winners shadows findings s)))"

fun scan_roots ::
  "audit_os \<Rightarrow> Root list \<Rightarrow> WinnerBuffer \<Rightarrow> ShadowBuffer \<Rightarrow> FindingBuffer \<Rightarrow> io
    \<Rightarrow> (int \<times> WinnerBuffer \<times> ShadowBuffer \<times> FindingBuffer \<times> io) option" where
  "scan_roots os [] winners shadows findings s = Some (0, winners, shadows, findings, s)"
| "scan_roots os (r # rs) winners shadows findings s =
     (case scan_root_executables os r winners shadows findings s of
        None \<Rightarrow> None
      | Some (status, winners1, shadows1, findings1, s1) \<Rightarrow>
          if status \<noteq> 0 then Some (status, winners1, shadows1, findings1, s1)
          else scan_roots os rs winners1 shadows1 findings1 s1)"

definition compare_shadows :: "ShadowRecord \<Rightarrow> ShadowRecord \<Rightarrow> int" where
  "compare_shadows a b =
     (let c = cmp_unsigned_bytes (scommand a) (scommand b) in
      if c \<noteq> 0 then c
      else if shadow_index a < shadow_index b then -1
      else if shadow_index a > shadow_index b then 1
      else 0)"

definition sort_shadows_if_many :: "ShadowBuffer \<Rightarrow> ShadowBuffer" where
  "sort_shadows_if_many b =
     (if length (sitems b) > 1
      then (shadows_index_invalidate b)\<lparr>sitems := qsort_by compare_shadows (sitems b)\<rparr> else b)"

fun emit_shadow_lines :: "ShadowRecord list \<Rightarrow> io \<Rightarrow> int \<times> io" where
  "emit_shadow_lines [] s = (0, s)"
| "emit_shadow_lines (r # rs) s =
     (case or_chain [fputs_checked ''SHADOWED'' Stdout, fputc_checked TAB Stdout,
                     put_escaped_quoted Stdout (scommand r), fputc_checked TAB Stdout,
                     put_escaped_quoted Stdout (swinner r), fputc_checked TAB Stdout,
                     put_escaped_quoted Stdout (sshadow r), fputc_checked LF Stdout] s of
        (w, s1) \<Rightarrow> if w \<noteq> 0 then emit_stdout_write_error s1 else emit_shadow_lines rs s1)"

text \<open>Printing and the status, after the scan.\<close>

definition report_path :: "FindingBuffer \<Rightarrow> ShadowBuffer \<Rightarrow> io \<Rightarrow> int \<times> io" where
  "report_path findings shadows s =
     (case emit_finding_lines (fitems findings) s of
        (write_status, s1) \<Rightarrow>
          (case (if write_status = 0 then emit_shadow_lines (sitems shadows) s1 else (write_status, s1)) of
             (write_status, s2) \<Rightarrow>
               if write_status \<noteq> 0 then (write_status, s2)
               else complete_stdout
                 (if length (fitems findings) = 0 \<and> length (sitems shadows) = 0 then 0 else 1) s2))"

definition run_path_mode :: "audit_os \<Rightarrow> io \<Rightarrow> (int \<times> io) option" where
  "run_path_mode os s =
     (case path_components_load (a_stat os) (a_path os) s of
        (Inl load_status, s1) \<Rightarrow> Some (load_status, s1)
      | (Inr roots, s1) \<Rightarrow>
          (case classify_roots os True roots no_findings s1 of
             (class_status, findings, s2) \<Rightarrow>
               if class_status \<noteq> 0 then Some (class_status, s2)
               else
                 (case scan_roots os roots no_winners no_shadows findings s2 of
                    None \<Rightarrow> None
                  | Some (scan_status, winners, shadows, findings1, s3) \<Rightarrow>
                      if scan_status \<noteq> 0 then Some (scan_status, s3)
                      else Some (report_path (sort_if_many findings1) (sort_shadows_if_many shadows) s3))))"

section \<open>The hits of a search path\<close>

text \<open>The executables of one directory: their names with path, mode and owner.\<close>

fun entry_hits :: "audit_os \<Rightarrow> cstr \<Rightarrow> cstr list \<Rightarrow> (cstr \<times> command_hit) list option" where
  "entry_hits os t [] = Some []"
| "entry_hits os t (name # names) =
     (if skipped_entry name then entry_hits os t names
      else Option.bind (command_match os t name)
        (\<lambda>m. map_option (\<lambda>hs. case m of None \<Rightarrow> hs | Some h \<Rightarrow> (name, h) # hs) (entry_hits os t names)))"

definition root_hits :: "audit_os \<Rightarrow> cstr \<Rightarrow> (cstr \<times> command_hit) list option" where
  "root_hits os t =
     (if t = [] \<or> \<not> is_dir os t then Some []
      else
        (case a_opendir os t of
           None \<Rightarrow> Some []
         | Some (names, e) \<Rightarrow> if e \<noteq> 0 then None else entry_hits os t names))"

text \<open>The hits of all components with the index of their component.\<close>

definition hits_at :: "nat \<Rightarrow> (cstr \<times> command_hit) list \<Rightarrow> (cstr \<times> command_hit \<times> nat) list" where
  "hits_at i hs = map (\<lambda>(n, h). (n, h, i)) hs"

fun path_hits :: "audit_os \<Rightarrow> (cstr \<times> nat) list \<Rightarrow> (cstr \<times> command_hit \<times> nat) list option" where
  "path_hits os [] = Some []"
| "path_hits os ((t, i) # ts) =
     Option.bind (root_hits os t)
       (\<lambda>hs. map_option ((@) (hits_at i hs)) (path_hits os ts))"

definition hit_of :: "cstr \<times> command_hit \<times> nat \<Rightarrow> hit" where
  "hit_of x = (case x of (n, (p, mode, owner), i) \<Rightarrow> (n, p, i))"

definition trust_of :: "audit_os \<Rightarrow> cstr \<times> command_hit \<times> nat \<Rightarrow> Finding list" where
  "trust_of os x = (case x of (n, (p, mode, owner), i) \<Rightarrow> findings_of p i (trust_codes os mode owner))"

section \<open>The scan follows the hits\<close>

text \<open>
  A scan from tables that hold \<open>hits\<close>: it returns; with status 0 the tables hold the new hits as
  well and their trust findings are added; any other status is 2, and it comes from an
  operational error, a refused allocation, or tables of at least \<open>2^57\<close> entries.
\<close>

definition too_large :: "audit_os \<Rightarrow> hit list \<Rightarrow> FindingBuffer \<Rightarrow> (cstr \<times> command_hit \<times> nat) list option \<Rightarrow> bool" where
  "too_large os hits f spec =
     (case spec of
        None \<Rightarrow> False
      | Some hs \<Rightarrow> 2 ^ 57 \<le> length hits + length hs
          \<or> 2 ^ 57 \<le> length (fitems f) + length (concat (map (trust_of os) hs)))"

definition scans ::
  "audit_os \<Rightarrow> io \<Rightarrow> hit list \<Rightarrow> FindingBuffer
    \<Rightarrow> (int \<times> WinnerBuffer \<times> ShadowBuffer \<times> FindingBuffer \<times> io) option
    \<Rightarrow> (cstr \<times> command_hit \<times> nat) list option \<Rightarrow> bool" where
  "scans os s hits f res spec =
     (case res of
        None \<Rightarrow> False
      | Some (r, w1, sh1, f1, s1) \<Rightarrow>
          out s1 = out s \<and> (mem s = None \<longrightarrow> mem s1 = None)
          \<and> (if r = 0
             then \<exists>hs. spec = Some hs \<and> tables_ok (hits @ map hit_of hs) w1 sh1
               \<and> fitems f1 = fitems f @ concat (map (trust_of os) hs)
             else r = 2 \<and> (spec = None \<or> mem s \<noteq> None \<or> too_large os hits f spec)))"

text \<open>A state that differs from \<open>s\<close> neither on stdout nor in a memory that never runs out.\<close>

definition after :: "io \<Rightarrow> io \<Rightarrow> bool" where
  "after s s1 \<longleftrightarrow> out s1 = out s \<and> (mem s = None \<longrightarrow> mem s1 = None)"

lemma after_refl [simp]: "after s s"
  by (simp add: after_def)

lemma after_trans: "after s s1 \<Longrightarrow> after s1 s2 \<Longrightarrow> after s s2"
  by (simp add: after_def)

lemma scans_nothing: "tables_ok hits w sh \<Longrightarrow> scans os s hits f (Some (0, w, sh, f, s)) (Some [])"
  by (simp add: scans_def)

lemma scans_stop:
  "after s s1 \<Longrightarrow> spec = None \<or> mem s \<noteq> None \<or> too_large os hits f spec \<Longrightarrow> scans os s hits f (Some (2, w, sh, f1, s1)) spec"
  by (simp add: scans_def after_def)

lemma scans_later: "scans os s1 hits f res spec \<Longrightarrow> after s s1 \<Longrightarrow> scans os s hits f res spec"
  by (cases "mem s") (auto simp: scans_def after_def split: option.splits if_splits)

lemma scans_more:
  assumes "scans os s1 (hits @ map hit_of hs) f1 res spec" and "after s s1"
    and "fitems f1 = fitems f @ concat (map (trust_of os) hs)"
  shows "scans os s hits f res (map_option ((@) hs) spec)"
proof -
  have "too_large os (hits @ map hit_of hs) f1 spec \<Longrightarrow> too_large os hits f (map_option ((@) hs) spec)"
    using assms(3) by (auto simp: too_large_def split: option.splits)
  moreover have "scans os s (hits @ map hit_of hs) f1 res spec" by (rule scans_later [OF assms(1,2)])
  ultimately show ?thesis
    using assms(3) by (auto simp: scans_def split: option.splits if_splits)
qed

lemma scan_entries_ok:
  assumes "tables_ok hits winners shadows" and "root_len root = length (text_of_root root)"
  shows "scans os s hits f (scan_entries os root names e winners shadows f s)
    (if e \<noteq> 0 then None else map_option (hits_at (root_index root)) (entry_hits os (text_of_root root) names))"
  using assms(1)
proof (induction names arbitrary: hits winners shadows f s)
  case Nil
  show ?case
  proof (cases "e = 0")
    case True
    with Nil scans_nothing show ?thesis by (simp add: hits_at_def)
  next
    case False
    moreover obtain u where "emit_inspection_error_on_path e (text_of_root root) s = (2, u)" "after s u"
      using inspection_error_out [of e "text_of_root root" s]
      by (cases "emit_inspection_error_on_path e (text_of_root root) s") (auto simp: after_def)
    ultimately show ?thesis by (simp add: scans_stop)
  qed
next
  case (Cons name names)
  let ?i = "root_index root"
  let ?rest = "if e \<noteq> 0 then None else map_option (hits_at ?i) (entry_hits os (text_of_root root) names)"
  let ?all = "if e \<noteq> 0 then None else map_option (hits_at ?i) (entry_hits os (text_of_root root) (name # names))"
  show ?case
  proof (cases "skipped_entry name")
    case True
    with Cons.IH [OF Cons.prems, of s f] show ?thesis by (cases "e = 0") simp_all
  next
    case False
    obtain ms m s1 where tm: "try_command_match os root name s = (ms, m, s1)"
      by (cases "try_command_match os root name s")
    with try_match_answers [OF assms(2), of s os name] have
      a: "answers s (ms, m, s1) (command_match os (text_of_root root) name)" by simp
    then have o1: "after s s1" by (simp add: answers_def after_def)
    show ?thesis
    proof (cases "ms = 0")
      case ms: False
      with a have "ms = 2" "command_match os (text_of_root root) name = None \<or> mem s \<noteq> None" by (auto simp: answers_def)
      with False have "ms = 2" "?all = None \<or> mem s \<noteq> None" by auto
      moreover have "scan_entries os root (name # names) e winners shadows f s = Some (2, winners, shadows, f, s1)"
        using False tm \<open>ms = 2\<close> by simp
      ultimately show ?thesis using scans_stop [OF o1, of ?all os hits f] by metis
    next
      case ms: True
      with a have cm: "command_match os (text_of_root root) name = Some m" by (simp add: answers_def)
      show ?thesis
      proof (cases m)
        case None
        with cm False have "?all = ?rest" by (simp add: option.map_ident)
        with scans_later [OF Cons.IH [OF Cons.prems, of s1 f] o1] None False ms tm show ?thesis by simp
      next
        case (Some h)
        obtain path mode owner where h: "h = (path, mode, owner)" by (cases h)
        let ?hs = "[(name, h, ?i)]"
        have all: "?all = map_option ((@) ?hs) ?rest"
          using cm False Some
          by (cases "entry_hits os (text_of_root root) names") (simp_all add: hits_at_def)
        obtain t f1 s2 where at: "append_executable_trust_findings os path ?i mode owner f s1 = (t, f1, s2)"
          by (cases "append_executable_trust_findings os path ?i mode owner f s1")
        with trust_implements [of s1 os path ?i mode owner f] have
          i: "implements s1 (t, f1, s2) (Some (fitems f @ findings_of path ?i (trust_codes os mode owner)))" by simp
        then have o12: "after s1 s2" by (simp add: implements_def after_def)
        note o2 = after_trans [OF o1 o12]
        show ?thesis
        proof (cases "t = 0")
          case t: False
          have trust: "trust_of os (name, h, ?i) = findings_of path ?i (trust_codes os mode owner)"
            by (simp add: trust_of_def h)
          have "t = 2" and "mem s1 \<noteq> None \<or> 2 ^ 57 \<le> length (fitems f) + length (trust_of os (name, h, ?i))"
            using i t unfolding trust by (auto simp: implements_def too_many_def)
          moreover have "mem s1 \<noteq> None \<Longrightarrow> mem s \<noteq> None" using o1 by (auto simp: after_def)
          moreover have "2 ^ 57 \<le> length (fitems f) + length (trust_of os (name, h, ?i)) \<Longrightarrow> ?all = None \<or> too_large os hits f ?all"
            unfolding all by (cases ?rest) (auto simp: too_large_def)
          moreover have "scan_entries os root (name # names) e winners shadows f s = Some (2, winners, shadows, f1, s2)"
            using False ms tm Some h at \<open>t = 2\<close> by simp
          ultimately show ?thesis using scans_stop [OF o2, of ?all os hits f] by metis
        next
          case t: True
          with i h have f1: "fitems f1 = fitems f @ concat (map (trust_of os) ?hs)"
            by (simp add: implements_def trust_of_def)
          from record_hit_ok [OF Cons.prems, of name path ?i s2] obtain r w1 sh1 s3 where
            rec: "record_executable_hit name path ?i winners shadows s2 = Some (r, w1, sh1, s3)" and
            o23: "out s3 = out s2" "mem s2 = None \<longrightarrow> mem s3 = None" and
            tab: "if r = 0 then tables_ok (hits @ [(name, path, ?i)]) w1 sh1 else r = 2 \<and> tables_ok hits w1 sh1" and
            cause: "r \<noteq> 0 \<longrightarrow> mem s2 \<noteq> None \<or> 2 ^ 57 \<le> length hits"
            by (elim exE conjE) (rule that)
          have o3: "after s s3" using after_trans [OF o2, of s3] o23 by (simp add: after_def)
          have step: "scan_entries os root (name # names) e winners shadows f s =
            (if r \<noteq> 0 then Some (r, w1, sh1, f1, s3) else scan_entries os root names e w1 sh1 f1 s3)"
            using False ms tm Some h at t rec by simp
          show ?thesis
          proof (cases "r = 0")
            case r: False
            with tab have "r = 2" by simp
            moreover have "mem s2 \<noteq> None \<Longrightarrow> mem s \<noteq> None" using o2 by (auto simp: after_def)
            moreover have "2 ^ 57 \<le> length hits \<Longrightarrow> ?all = None \<or> too_large os hits f ?all"
              unfolding all by (cases ?rest) (auto simp: too_large_def)
            moreover have "scan_entries os root (name # names) e winners shadows f s = Some (2, w1, sh1, f1, s3)"
              using step \<open>r = 2\<close> by simp
            ultimately show ?thesis using r cause scans_stop [OF o3, of ?all os hits f] by metis
          next
            case r: True
            with tab h have "tables_ok (hits @ map hit_of ?hs) w1 sh1" by (simp add: hit_of_def)
            from scans_more [OF Cons.IH [OF this, of s3 f1] o3 f1] show ?thesis
              unfolding all step using r by simp
          qed
        qed
      qed
    qed
  qed
qed

lemma scan_root_ok:
  assumes "tables_ok hits winners shadows" and "root_len root = length (text_of_root root)"
  shows "scans os s hits f (scan_root_executables os root winners shadows f s)
    (map_option (hits_at (root_index root)) (root_hits os (text_of_root root)))"
proof (cases "text_of_root root = [] \<or> \<not> is_dir os (text_of_root root) \<or> a_opendir os (text_of_root root) = None")
  case True
  then have "root_hits os (text_of_root root) = Some []" by (auto simp: root_hits_def)
  moreover have "scan_root_executables os root winners shadows f s = Some (0, winners, shadows, f, s)"
    using True assms(2) by (auto simp: scan_root_executables_def is_dir_def split: sum.splits)
  ultimately show ?thesis using scans_nothing [OF assms(1)] by (simp add: hits_at_def)
next
  case False
  then obtain names e where o: "a_opendir os (text_of_root root) = Some (names, e)" by auto
  have "scan_root_executables os root winners shadows f s = scan_entries os root names e winners shadows f s"
    using False o assms(2) by (auto simp: scan_root_executables_def is_dir_def split: sum.splits)
  moreover have "root_hits os (text_of_root root) = (if e \<noteq> 0 then None else entry_hits os (text_of_root root) names)"
    using False o by (simp add: root_hits_def)
  ultimately show ?thesis
    using scan_entries_ok [OF assms, of os s f names e] by (simp split: if_splits)
qed

lemma scan_roots_ok:
  assumes "tables_ok hits winners shadows" and "\<forall>r \<in> set roots. root_len r = length (text_of_root r)"
  shows "scans os s hits f (scan_roots os roots winners shadows f s) (path_hits os (map root_key roots))"
  using assms
proof (induction roots arbitrary: hits winners shadows f s)
  case Nil
  then show ?case by (simp add: scans_nothing)
next
  case (Cons root roots)
  let ?res = "scan_root_executables os root winners shadows f s"
  have key: "root_key root = (text_of_root root, root_index root)" by (simp add: root_key_def)
  from scan_root_ok [OF Cons.prems(1), of root os s f] Cons.prems(2) have
    n: "scans os s hits f ?res (map_option (hits_at (root_index root)) (root_hits os (text_of_root root)))" by simp
  then obtain r w1 sh1 f1 s1 where res: "?res = Some (r, w1, sh1, f1, s1)"
    by (auto simp: scans_def split: option.splits)
  with n have o1: "after s s1" by (simp add: scans_def after_def)
  show ?case
  proof (cases "r = 0")
    case False
    let ?spec = "path_hits os (map root_key (root # roots))"
    from False n res have "r = 2" and cause: "root_hits os (text_of_root root) = None \<or> mem s \<noteq> None
        \<or> too_large os hits f (map_option (hits_at (root_index root)) (root_hits os (text_of_root root)))"
      by (auto simp: scans_def)
    have "too_large os hits f (map_option (hits_at (root_index root)) (root_hits os (text_of_root root)))
        \<Longrightarrow> ?spec = None \<or> too_large os hits f ?spec"
      using key by (cases "root_hits os (text_of_root root)"; cases "path_hits os (map root_key roots)")
        (auto simp: too_large_def)
    with cause key have "?spec = None \<or> mem s \<noteq> None \<or> too_large os hits f ?spec" by auto
    from scans_stop [OF o1 this] \<open>r = 2\<close> res show ?thesis by simp
  next
    case True
    with n res obtain hs where hs: "root_hits os (text_of_root root) = Some hs"
      "tables_ok (hits @ map hit_of (hits_at (root_index root) hs)) w1 sh1"
      "fitems f1 = fitems f @ concat (map (trust_of os) (hits_at (root_index root) hs))"
      by (auto simp: scans_def)
    from scans_more [OF Cons.IH [OF hs(2), of s1 f1] o1 hs(3)] Cons.prems(2) show ?thesis
      using res True hs(1) key by simp
  qed
qed

section \<open>The report\<close>

definition shadow_line :: "ShadowRecord \<Rightarrow> cstr" where
  "shadow_line r = ''SHADOWED'' @ TAB # quoted (scommand r) @ TAB # quoted (swinner r) @ TAB # quoted (sshadow r) @ [LF]"

definition shadow_text :: "ShadowRecord list \<Rightarrow> cstr" where
  "shadow_text rs = concat (map shadow_line rs)"

lemma put_quoted_fun: "put_escaped_quoted st t = c_write st (quoted t)"
  by (simp add: fun_eq_iff pathaudit_quoted.quoted_write)

lemma emit_shadow_lines_write:
  "emit_shadow_lines rs s =
     (case c_write Stdout (shadow_text rs) s of (r, s1) \<Rightarrow> if r \<noteq> 0 then emit_stdout_write_error s1 else (0, s1))"
proof -
  have "emit_shadow_lines (r # rs) s =
      (case c_write Stdout (shadow_line r) s of (w, s1) \<Rightarrow> if w \<noteq> 0 then emit_stdout_write_error s1 else emit_shadow_lines rs s1)"
    for r rs s
    by (simp add: shadow_line_def put_quoted_fun del: or_chain.simps)
  from write_loop [of emit_shadow_lines, OF _ this] show ?thesis by (simp add: shadow_text_def)
qed

lemma report_path_status:
  assumes "report_path f sh s = (status, s1)" and "status \<noteq> 2"
  shows "status = (if fitems f = [] \<and> sitems sh = [] then 0 else 1)
    \<and> text_of Stdout s1 = text_of Stdout s @ finding_text (fitems f) @ shadow_text (sitems sh)
    \<and> \<not> ferr (out s1) \<and> flush_errno (out s1) = None"
proof -
  obtain r s2 where w: "c_write Stdout (finding_text (fitems f)) s = (r, s2)" by fastforce
  obtain q s3 where v: "c_write Stdout (shadow_text (sitems sh)) s2 = (q, s3)" by fastforce
  have err: "fst (emit_stdout_write_error u) = 2" for u by simp
  have e: "report_path f sh s = (2, snd (emit_stdout_write_error u))"
    if "emit_finding_lines (fitems f) s = emit_stdout_write_error u" for u
    using that err [of u] by (cases "emit_stdout_write_error u") (simp add: report_path_def)
  have r: "r = 0"
  proof (rule ccontr)
    assume "r \<noteq> 0"
    with w have "emit_finding_lines (fitems f) s = emit_stdout_write_error s2" by (simp add: emit_finding_lines_write)
    from e [OF this] assms show False by simp
  qed
  have q: "q = 0"
  proof (rule ccontr)
    assume "q \<noteq> 0"
    with w v r err [of s3] have "report_path f sh s = (2, snd (emit_stdout_write_error s3))"
      by (cases "emit_stdout_write_error s3") (simp add: report_path_def emit_finding_lines_write emit_shadow_lines_write)
    with assms show False by simp
  qed
  with w v r assms(1) have "complete_stdout (if length (fitems f) = 0 \<and> length (sitems sh) = 0 then 0 else 1) s3 = (status, s1)"
    by (simp add: report_path_def emit_finding_lines_write emit_shadow_lines_write)
  from audit_stdout_status [OF this assms(2)] w v r q show ?thesis
    using c_write_done [of Stdout "finding_text (fitems f)" s s2] c_write_done [of Stdout "shadow_text (sitems sh)" s2 s3]
    by auto
qed

text \<open>The position of a shadow in the output.\<close>

definition shadow_pos :: "ShadowRecord \<Rightarrow> cstr \<times> nat" where
  "shadow_pos r = (scommand r, shadow_index r)"

lemma compare_shadows_le: "compare_shadows a b \<le> 0 \<longleftrightarrow> shadow_pos a \<le> shadow_pos b"
proof (cases "scommand a = scommand b")
  case True
  then show ?thesis by (auto simp: compare_shadows_def shadow_pos_def Let_def)
next
  case False
  then show ?thesis
    by (auto simp: compare_shadows_def shadow_pos_def less_eq_prod_def Let_def order_le_less)
qed

lemma sort_shadows_items: "sitems (sort_shadows_if_many b) = sort_key shadow_pos (sitems b)"
  using sort_key_trivial [of "sitems b" shadow_pos] qsort_by_key [of compare_shadows shadow_pos, OF compare_shadows_le]
  by (auto simp: sort_shadows_if_many_def split: if_splits)

text \<open>
  In one component a command has one path, so no two shadows have the same position and the
  order of the lines is determined.
\<close>

definition functional_hits :: "hit list \<Rightarrow> bool" where
  "functional_hits hits \<longleftrightarrow> (\<forall>c i p q. (c, p, i) \<in> set hits \<longrightarrow> (c, q, i) \<in> set hits \<longrightarrow> p = q)"

lemma shadow_pos_inj: "functional_hits hits \<Longrightarrow> inj_on shadow_pos (shadow_spec hits)"
proof (rule inj_onI)
  fix r q
  assume f: "functional_hits hits" and r: "r \<in> shadow_spec hits" and q: "q \<in> shadow_spec hits" and "shadow_pos r = shadow_pos q"
  then have e: "scommand r = scommand q" "shadow_index r = shadow_index q" by (simp_all add: shadow_pos_def)
  moreover from r q e have "swinner r = swinner q" by (simp add: shadow_spec_def)
  moreover have "sshadow r = sshadow q"
  proof -
    have "(scommand q, sshadow r, shadow_index q) \<in> set hits" "(scommand q, sshadow q, shadow_index q) \<in> set hits"
      using r q e by (auto simp: shadow_spec_def dest: index_of_hit)
    with f show ?thesis unfolding functional_hits_def by blast
  qed
  ultimately show "r = q" by (intro ShadowRecord.equality) simp_all
qed

lemma entry_hits_match: "entry_hits os t names = Some hs \<Longrightarrow> (n, h) \<in> set hs \<Longrightarrow> command_match os t n = Some (Some h)"
  by (induction names arbitrary: hs) (auto simp: bind_eq_Some_conv split: if_splits option.splits)

lemma path_hits_match:
  "path_hits os ts = Some hs \<Longrightarrow> (n, h, i) \<in> set hs \<Longrightarrow> \<exists>t. (t, i) \<in> set ts \<and> command_match os t n = Some (Some h)"
proof (induction ts arbitrary: hs)
  case (Cons ti ts)
  obtain t j where ti: "ti = (t, j)" by (cases ti)
  from Cons.prems(1) ti obtain hs1 hs2 where h: "root_hits os t = Some hs1" "path_hits os ts = Some hs2" "hs = hits_at j hs1 @ hs2"
    by (auto simp: bind_eq_Some_conv)
  show ?case
  proof (cases "(n, h, i) \<in> set hs2")
    case True
    with Cons.IH [OF h(2)] show ?thesis by auto
  next
    case False
    with Cons.prems(2) h(3) have "(n, h) \<in> set hs1" "i = j" by (auto simp: hits_at_def)
    with h(1) have "command_match os t n = Some (Some h)"
      by (auto simp: root_hits_def dest: entry_hits_match split: if_splits option.splits)
    with ti \<open>i = j\<close> show ?thesis by auto
  qed
qed simp

lemma path_hits_functional:
  assumes "path_hits os ts = Some hs" and "distinct (map snd ts)"
  shows "functional_hits (map hit_of hs)"
  unfolding functional_hits_def
proof (intro allI impI)
  fix c i p q
  assume "(c, p, i) \<in> set (map hit_of hs)" "(c, q, i) \<in> set (map hit_of hs)"
  then obtain m u m1 u1 where h: "(c, (p, m, u), i) \<in> set hs" "(c, (q, m1, u1), i) \<in> set hs"
    by (auto simp: hit_of_def split: prod.splits)
  from path_hits_match [OF assms(1) h(1)] path_hits_match [OF assms(1) h(2)] obtain t t1 where
    t: "(t, i) \<in> set ts" "command_match os t c = Some (Some (p, m, u))"
       "(t1, i) \<in> set ts" "command_match os t1 c = Some (Some (q, m1, u1))" by blast
  from assms(2) t(1,3) have "t = t1" by (metis eq_key_imp_eq_value distinct_map inj_onD prod.inject snd_conv)
  with t show "p = q" by simp
qed

text \<open>Every run of the mode returns.\<close>

lemma scan_roots_returns:
  assumes "tables_ok hits w sh"
  shows "\<exists>r w1 sh1 f1 s1 hits1. scan_roots os roots w sh f s = Some (r, w1, sh1, f1, s1) \<and> tables_ok hits1 w1 sh1"
proof -
  have entries: "\<exists>r w1 sh1 f1 s1 hits1. scan_entries os root names e w sh f s = Some (r, w1, sh1, f1, s1) \<and> tables_ok hits1 w1 sh1"
    if "tables_ok hits w sh" for os root names e w sh f s hits
    using that
  proof (induction names arbitrary: hits w sh f s)
    case Nil
    then show ?case by (cases "emit_inspection_error_on_path e (text_of_root root) s") auto
  next
    case (Cons name names)
    obtain ms m s1 where tm: "try_command_match os root name s = (ms, m, s1)" by (cases "try_command_match os root name s")
    show ?case
    proof (cases "skipped_entry name \<or> ms \<noteq> 0 \<or> m = None")
      case True
      with Cons tm show ?thesis by (cases "skipped_entry name"; cases "ms = 0") auto
    next
      case False
      then obtain path mode owner where m: "m = Some (path, mode, owner)" by (cases m) auto
      obtain t f1 s2 where at: "append_executable_trust_findings os path (root_index root) mode owner f s1 = (t, f1, s2)"
        by (cases "append_executable_trust_findings os path (root_index root) mode owner f s1")
      from record_hit_ok [OF Cons.prems, of name path "root_index root" s2] obtain r w1 sh1 s3 where
        rec: "record_executable_hit name path (root_index root) w sh s2 = Some (r, w1, sh1, s3)"
        and tab: "if r = 0 then tables_ok (hits @ [(name, path, root_index root)]) w1 sh1 else r = 2 \<and> tables_ok hits w1 sh1"
        by blast
      have step: "scan_entries os root (name # names) e w sh f s =
        (if t \<noteq> 0 then Some (t, w, sh, f1, s2) else if r \<noteq> 0 then Some (r, w1, sh1, f1, s3)
         else scan_entries os root names e w1 sh1 f1 s3)"
        using False tm m at rec by simp
      from Cons.prems tab Cons.IH [of "hits @ [(name, path, root_index root)]" w1 sh1 f1 s3] show ?thesis
        unfolding step by (cases "t = 0"; cases "r = 0") auto
    qed
  qed
  show ?thesis
    using assms
  proof (induction roots arbitrary: hits w sh f s)
    case (Cons root roots)
    have "\<exists>r w1 sh1 f1 s1 hits1. scan_root_executables os root w sh f s = Some (r, w1, sh1, f1, s1) \<and> tables_ok hits1 w1 sh1"
      using entries [OF Cons.prems] Cons.prems
      by (auto simp: scan_root_executables_def split: sum.splits option.splits)
    then obtain r w1 sh1 f1 s1 hits1 where
      r: "scan_root_executables os root w sh f s = Some (r, w1, sh1, f1, s1)" "tables_ok hits1 w1 sh1" by blast
    from Cons.IH [OF r(2), of f1 s1] r show ?case by (cases "r = 0") auto
  qed auto
qed

lemma path_mode_total: "run_path_mode os s \<noteq> None"
proof -
  obtain l s1 where l: "path_components_load (a_stat os) (a_path os) s = (l, s1)" by fastforce
  show ?thesis
  proof (cases l)
    case (Inl st)
    with l show ?thesis by (simp add: run_path_mode_def)
  next
    case (Inr roots)
    obtain st f s2 where c: "classify_roots os True roots no_findings s1 = (st, f, s2)"
      by (cases "classify_roots os True roots no_findings s1")
    from scan_roots_returns [OF tables_ok_empty, of os roots f s2] l Inr c show ?thesis
      by (auto simp: run_path_mode_def)
  qed
qed

definition indexed :: "cstr list \<Rightarrow> (cstr \<times> nat) list" where
  "indexed ts = zip ts [0..<length ts]"

lemma path_mode_ok:
  assumes "a_path os = Some env" and "is_cstr env" and "run_path_mode os s = Some (status, s1)" and "status \<noteq> 2"
    and ts: "ts = indexed (coalesce_spec (a_stat os) (Pathaudit_Path.fields env))"
  shows "\<exists>hits dirs fs shadows.
      path_hits os ts = Some hits \<and> classify_list os True ts [] = Some dirs
    \<and> sorted (map finding_key fs) \<and> mset fs = mset (dirs @ concat (map (trust_of os) hits))
    \<and> sorted_wrt (<) (map shadow_pos shadows) \<and> set shadows = shadow_spec (map hit_of hits)
    \<and> text_of Stdout s1 = text_of Stdout s @ finding_text fs @ shadow_text shadows
    \<and> status = (if fs = [] \<and> shadows = [] then 0 else 1)
    \<and> \<not> ferr (out s1) \<and> flush_errno (out s1) = None \<and> path_fits env"
proof -
  let ?roots = "roots_of (coalesce_spec (a_stat os) (Pathaudit_Path.fields env))"
  from path_load_ok [OF assms(2), of s "a_stat os"] obtain s2 where s2: "out s2 = out s" and
    "path_components_load (a_stat os) (Some env) s = (Inr ?roots, s2) \<and> path_fits env
     \<or> path_components_load (a_stat os) (Some env) s = (Inl 2, s2)" by blast
  with assms have load: "path_components_load (a_stat os) (Some env) s = (Inr ?roots, s2)" and fits: "path_fits env"
    by (auto simp: run_path_mode_def)
  have len: "\<forall>r \<in> set ?roots. root_len r = length (text_of_root r)" using roots_of_len by blast
  have keys: "map root_key ?roots = ts"
    unfolding ts indexed_def roots_of_def by (simp add: root_key_def comp_def case_prod_unfold)
  obtain st f s3 where c: "classify_roots os True ?roots no_findings s2 = (st, f, s3)"
    by (cases "classify_roots os True ?roots no_findings s2")
  from classify_roots_implements [OF len, of s2 os True no_findings] c keys
  have i: "implements s2 (st, f, s3) (classify_list os True ts [])" by (simp add: no_findings_def)
  then have o3: "out s3 = out s" using s2 by (simp add: implements_def)
  have st: "st = 0"
    using i assms(1,3,4) load c by (auto simp: implements_def run_path_mode_def split: if_splits)
  with i have dirs: "classify_list os True ts [] = Some (fitems f)" by (simp add: implements_def)
  from scan_roots_ok [OF tables_ok_empty len, of os s3 f] keys
  have sc: "scans os s3 [] f (scan_roots os ?roots no_winners no_shadows f s3) (path_hits os ts)" by simp
  then obtain r w sh f1 s4 where res: "scan_roots os ?roots no_winners no_shadows f s3 = Some (r, w, sh, f1, s4)"
    by (auto simp: scans_def split: option.splits)
  have run: "(if r \<noteq> 0 then (r, s4) else report_path (sort_if_many f1) (sort_shadows_if_many sh) s4) = (status, s1)"
    using assms(1,3) load c st res by (simp add: run_path_mode_def split: if_splits)
  have r: "r = 0" using sc res run assms(4) by (auto simp: scans_def split: if_splits)
  with sc res obtain hits where hits: "path_hits os ts = Some hits" "tables_ok (map hit_of hits) w sh"
      "fitems f1 = fitems f @ concat (map (trust_of os) hits)" and o4: "out s4 = out s"
    using o3 by (auto simp: scans_def)
  from run r have rep: "report_path (sort_if_many f1) (sort_shadows_if_many sh) s4 = (status, s1)" by simp
  define fs where "fs = sort_key finding_key (fitems f1)"
  define shadows where "shadows = sort_key shadow_pos (sitems sh)"
  have set_sh: "set shadows = shadow_spec (map hit_of hits)"
    using hits(2) by (simp add: shadows_def tables_ok_def)
  have "distinct (map snd ts)" by (simp add: ts indexed_def)
  from shadow_pos_inj [OF path_hits_functional [OF hits(1) this]] set_sh have inj: "inj_on shadow_pos (set shadows)" by simp
  have "distinct (sitems sh)"
    using hits(2) by (auto simp: tables_ok_def shadows_ok_def distinct_map)
  then have "distinct shadows" by (simp add: shadows_def)
  with inj have "distinct (map shadow_pos shadows)" by (simp add: distinct_map)
  then have "sorted_wrt (<) (map shadow_pos shadows)" by (simp add: strict_sorted_iff shadows_def)
  moreover have "sorted (map finding_key fs)" "mset fs = mset (fitems f @ concat (map (trust_of os) hits))"
    using hits(3) by (simp_all add: fs_def)
  moreover from report_path_status [OF rep assms(4)] o4 have
    "text_of Stdout s1 = text_of Stdout s @ finding_text fs @ shadow_text shadows"
    "status = (if fs = [] \<and> shadows = [] then 0 else 1)" "\<not> ferr (out s1)" "flush_errno (out s1) = None"
    by (simp_all add: sort_if_many_items sort_shadows_items fs_def shadows_def text_of_def)
  ultimately show ?thesis using hits(1) dirs set_sh fits by blast
qed

text \<open>Without faults the mode gives its report, up to tables of astronomical size.\<close>

lemma report_path_sure:
  assumes "room (out s) = None" and "flush_errno (out s) = None" and "\<not> ferr (out s)"
  shows "fst (report_path f sh s) \<noteq> 2"
proof -
  have w: "c_write Stdout t u = (0, emit Stdout t u)" if "room (out u) = None" for t u
    using that by (simp add: c_write_quiet quiet_def)
  have o: "out (emit Stdout t u) = (out u)\<lparr>sent := sent (out u) @ t\<rparr>" for t u by (simp add: emit_def)
  have "emit_finding_lines (fitems f) s = (0, emit Stdout (finding_text (fitems f)) s)"
    "emit_shadow_lines (sitems sh) (emit Stdout (finding_text (fitems f)) s)
      = (0, emit Stdout (shadow_text (sitems sh)) (emit Stdout (finding_text (fitems f)) s))"
    using assms(1) by (simp_all add: emit_finding_lines_write emit_shadow_lines_write w o)
  with assms(2,3) show ?thesis
    by (simp add: report_path_def complete_stdout_def c_fflush_def c_ferror_def o)
qed

lemma path_mode_completes:
  assumes "a_path os = Some env" and "is_cstr env" and "faultless s" and "path_fits env"
    and ts: "ts = indexed (coalesce_spec (a_stat os) (Pathaudit_Path.fields env))"
    and dirs: "classify_list os True ts [] = Some dirs" and hits: "path_hits os ts = Some hits"
    and small: "length hits < 2 ^ 57" "length dirs + length (concat (map (trust_of os) hits)) < 2 ^ 57"
  shows "\<exists>status s1. run_path_mode os s = Some (status, s1) \<and> status \<noteq> 2"
proof -
  let ?roots = "roots_of (coalesce_spec (a_stat os) (Pathaudit_Path.fields env))"
  have mem: "mem s = None" using assms(3) by (simp add: faultless_def)
  from path_load_ok [OF assms(2), of s "a_stat os"] assms(4) mem obtain s2 where s2: "out s2 = out s"
    and load: "path_components_load (a_stat os) (Some env) s = (Inr ?roots, s2)" by auto
  have mem2: "mem s2 = None"
    using load mem by (auto simp: path_components_load_def split: option.splits sum.splits if_splits prod.splits)
  have len: "\<forall>r \<in> set ?roots. root_len r = length (text_of_root r)" using roots_of_len by blast
  have keys: "map root_key ?roots = ts"
    unfolding ts indexed_def roots_of_def by (simp add: root_key_def comp_def case_prod_unfold)
  obtain st f s3 where c: "classify_roots os True ?roots no_findings s2 = (st, f, s3)"
    by (cases "classify_roots os True ?roots no_findings s2")
  from classify_roots_implements [OF len, of s2 os True no_findings] c keys dirs
  have "implements s2 (st, f, s3) (Some dirs)" by (simp add: no_findings_def)
  with mem2 s2 small(2) have st: "st = 0" and f: "fitems f = dirs" and o3: "out s3 = out s" and mem3: "mem s3 = None"
    by (auto simp: implements_def too_many_def split: if_splits)
  from scan_roots_ok [OF tables_ok_empty len, of os s3 f] keys hits
  have sc: "scans os s3 [] f (scan_roots os ?roots no_winners no_shadows f s3) (Some hits)" by simp
  then obtain r w sh f1 s4 where res: "scan_roots os ?roots no_winners no_shadows f s3 = Some (r, w, sh, f1, s4)"
    by (auto simp: scans_def split: option.splits)
  with sc mem3 small f have r: "r = 0" and o4: "out s4 = out s"
    using o3 by (auto simp: scans_def too_large_def split: if_splits)
  have "run_path_mode os s = Some (report_path (sort_if_many f1) (sort_shadows_if_many sh) s4)"
    using assms(1) load c st res r by (simp add: run_path_mode_def)
  moreover have "fst (report_path (sort_if_many f1) (sort_shadows_if_many sh) s4) \<noteq> 2"
    using assms(3) o4 by (intro report_path_sure) (simp_all add: faultless_def quiet_def)
  ultimately show ?thesis by (cases "report_path (sort_if_many f1) (sort_shadows_if_many sh) s4") auto
qed

end
