(* ===== verification/Pathaudit_Command.thy ===== *)
theory Pathaudit_Command
  imports Pathaudit_Scan
begin

text \<open>
  The \<open>--command\<close> mode of \<open>src/pathaudit.c\<close>: the components are searched in order for one
  command; every match is printed, with the hazards that matter to the search.  The mode is
  shown to follow a walk over the components without buffers and streams (\<open>command_walk\<close>).
\<close>

section \<open>The code\<close>

record MatchBuffer =
  mpaths :: "cstr list"
  mcap :: nat

definition no_matches :: MatchBuffer where "no_matches = \<lparr>mpaths = [], mcap = 0\<rparr>"

definition matches_append :: "MatchBuffer \<Rightarrow> cstr \<Rightarrow> io \<Rightarrow> bool \<times> MatchBuffer \<times> io" where
  "matches_append b path s =
     (case reserve 8 8 (length (mpaths b)) (mcap b) s of
        (None, s1) \<Rightarrow> (False, b, s1)
      | (Some cap, s1) \<Rightarrow> (True, b\<lparr>mcap := cap, mpaths := mpaths b @ [path]\<rparr>, s1))"

definition command_name_is_valid :: "cstr \<Rightarrow> bool" where
  "command_name_is_valid name \<longleftrightarrow> name \<noteq> [] \<and> list_all (\<lambda>c. c \<noteq> CHR ''/'') name"

fun command_loop ::
  "audit_os \<Rightarrow> cstr \<Rightarrow> Root list \<Rightarrow> bool \<Rightarrow> MatchBuffer \<Rightarrow> FindingBuffer \<Rightarrow> io
    \<Rightarrow> int \<times> MatchBuffer \<times> FindingBuffer \<times> io" where
  "command_loop os command [] seen_match matches findings s = (0, matches, findings, s)"
| "command_loop os command (root # roots) seen_match matches findings s =
     (case try_command_match os root command s of
        (match_status, hit, s1) \<Rightarrow>
          if match_status \<noteq> 0 then (match_status, matches, findings, s1)
          else
            (let has_match = (hit \<noteq> None); permission_applicable = (has_match \<or> \<not> seen_match) in
             case classify_command_component os root permission_applicable findings s1 of
               (class_status, findings1, s2) \<Rightarrow>
                 if class_status \<noteq> 0 then (class_status, matches, findings1, s2)
                 else
                   (case hit of
                      None \<Rightarrow> command_loop os command roots seen_match matches findings1 s2
                    | Some (path, mode, owner) \<Rightarrow>
                        (case append_executable_trust_findings os path (root_index root) mode owner findings1 s2 of
                           (trust_status, findings2, s3) \<Rightarrow>
                             if trust_status \<noteq> 0 then (trust_status, matches, findings2, s3)
                             else
                               (case matches_append matches path s3 of
                                  (ok, matches1, s4) \<Rightarrow>
                                    if \<not> ok
                                    then (2, matches1, findings2, emit_diag_reason ''OUT_OF_MEMORY'' s4)
                                    else command_loop os command roots True matches1 findings2 s4)))))"

fun emit_match_lines :: "cstr list \<Rightarrow> io \<Rightarrow> int \<times> io" where
  "emit_match_lines [] s = (0, s)"
| "emit_match_lines (p # ps) s =
     (case or_chain [fputs_checked ''MATCH'' Stdout, fputc_checked TAB Stdout,
                     put_escaped_quoted Stdout p, fputc_checked LF Stdout] s of
        (r, s1) \<Rightarrow> if r \<noteq> 0 then emit_stdout_write_error s1 else emit_match_lines ps s1)"

definition emit_command_query :: "MatchBuffer \<Rightarrow> FindingBuffer \<Rightarrow> io \<Rightarrow> int \<times> io" where
  "emit_command_query matches findings s =
     (case emit_match_lines (mpaths matches) s of
        (r, s1) \<Rightarrow>
          if r \<noteq> 0 then (r, s1)
          else
            (case emit_finding_lines (fitems findings) s1 of
               (r1, s2) \<Rightarrow>
                 if r1 \<noteq> 0 then (r1, s2)
                 else complete_stdout (if length (fitems findings) = 0 then 0 else 1) s2))"

definition run_command_mode :: "audit_os \<Rightarrow> cstr \<Rightarrow> io \<Rightarrow> int \<times> io" where
  "run_command_mode os command s =
     (if \<not> command_name_is_valid command then (2, emit_diag_reason_root ''INVALID_COMMAND'' command s)
      else
        (case path_components_load (a_stat os) (a_path os) s of
           (Inl load_status, s1) \<Rightarrow> (load_status, s1)
         | (Inr roots, s1) \<Rightarrow>
             (case command_loop os command roots False no_matches no_findings s1 of
                (status, matches, findings, s2) \<Rightarrow>
                  if status \<noteq> 0 then (status, s2)
                  else emit_command_query matches (sort_if_many findings) s2)))"

section \<open>The walk\<close>

fun command_walk ::
  "audit_os \<Rightarrow> cstr \<Rightarrow> (cstr \<times> nat) list \<Rightarrow> bool \<Rightarrow> Finding list \<Rightarrow> (cstr list \<times> Finding list) option" where
  "command_walk os command [] seen fs = Some ([], fs)"
| "command_walk os command ((t, i) # ts) seen fs =
     Option.bind (command_match os t command)
       (\<lambda>hit. Option.bind (classify_command os (hit \<noteq> None \<or> \<not> seen) t i fs)
          (\<lambda>gs. case hit of
             None \<Rightarrow> command_walk os command ts seen gs
           | Some (p, mode, owner) \<Rightarrow>
               map_option (\<lambda>(ps, hs). (p # ps, hs))
                 (command_walk os command ts True (gs @ findings_of p i (trust_codes os mode owner)))))"

definition match_of :: "audit_os \<Rightarrow> cstr \<Rightarrow> cstr \<Rightarrow> cstr list" where
  "match_of os command t =
     (case command_match os t command of Some (Some (p, mode, owner)) \<Rightarrow> [p] | _ \<Rightarrow> [])"

text \<open>The matches are those of the components, in the order of the search path.\<close>

lemma command_walk_matches:
  "command_walk os command ts seen fs = Some (ps, gs) \<Longrightarrow> ps = concat (map (\<lambda>(t, i). match_of os command t) ts)"
proof (induction ts arbitrary: seen fs ps)
  case (Cons ti ts)
  obtain t i where ti: "ti = (t, i)" by (cases ti)
  from Cons.prems ti obtain hit fs1 where h: "command_match os t command = Some hit"
    "classify_command os (hit \<noteq> None \<or> \<not> seen) t i fs = Some fs1" by (auto simp: bind_eq_Some_conv)
  show ?case
  proof (cases hit)
    case None
    with Cons h ti show ?thesis by (simp add: match_of_def)
  next
    case (Some x)
    then obtain p m u where x: "hit = Some (p, m, u)" by (cases x) auto
    with Cons.prems h ti obtain qs where "command_walk os command ts True (fs1 @ findings_of p i (trust_codes os m u)) = Some (qs, gs)"
      "ps = p # qs" by (auto split: prod.splits)
    with Cons.IH x h ti show ?thesis by (simp add: match_of_def)
  qed
qed simp

lemma command_loop_ok:
  assumes "command_loop os command roots seen matches f s = (status, m1, f1, s1)"
    and "\<forall>r \<in> set roots. root_len r = length (text_of_root r)"
  shows "out s1 = out s \<and>
    (if status = 0
     then \<exists>ps. command_walk os command (map root_key roots) seen (fitems f) = Some (ps, fitems f1) \<and> mpaths m1 = mpaths matches @ ps
     else status = 2)"
  using assms
proof (induction roots arbitrary: seen matches f s)
  case Nil
  then show ?case by simp
next
  case (Cons root roots)
  have key: "root_key root = (text_of_root root, root_index root)" by (simp add: root_key_def)
  obtain ms hit s2 where tm: "try_command_match os root command s = (ms, hit, s2)" by (cases "try_command_match os root command s")
  with try_match_answers [of root s os command] Cons.prems(2) have
    a: "answers s (ms, hit, s2) (command_match os (text_of_root root) command)" by simp
  then have o2: "out s2 = out s" by (simp add: answers_def)
  let ?app = "hit \<noteq> None \<or> \<not> seen"
  obtain cs f2 s3 where cl: "classify_command_component os root ?app f s2 = (cs, f2, s3)"
    by (cases "classify_command_component os root ?app f s2")
  with classify_command_implements [of root s2 os ?app f] Cons.prems(2) have
    i: "implements s2 (cs, f2, s3) (classify_command os ?app (text_of_root root) (root_index root) (fitems f))" by simp
  then have o3: "out s3 = out s" using o2 by (simp add: implements_def)
  show ?case
  proof (cases "ms = 0 \<and> cs = 0")
    case False
    with Cons.prems(1) tm cl a i o2 o3 show ?thesis
      by (cases "ms = 0") (auto simp: answers_def implements_def Let_def)
  next
    case True
    with a i have cm: "command_match os (text_of_root root) command = Some hit"
      and cc: "classify_command os ?app (text_of_root root) (root_index root) (fitems f) = Some (fitems f2)"
      by (simp_all add: answers_def implements_def)
    show ?thesis
    proof (cases hit)
      case None
      with Cons.prems(1) tm cl True have "command_loop os command roots seen matches f2 s3 = (status, m1, f1, s1)" by simp
      from Cons.IH [OF this] Cons.prems(2) o3 cm cc None key show ?thesis by simp
    next
      case (Some x)
      then obtain p mode u where x: "hit = Some (p, mode, u)" by (cases x) auto
      obtain t f3 s4 where at: "append_executable_trust_findings os p (root_index root) mode u f2 s3 = (t, f3, s4)"
        by (cases "append_executable_trust_findings os p (root_index root) mode u f2 s3")
      with trust_implements [of s3 os p "root_index root" mode u f2] have
        j: "implements s3 (t, f3, s4) (Some (fitems f2 @ findings_of p (root_index root) (trust_codes os mode u)))" by simp
      then have o4: "out s4 = out s" using o3 by (simp add: implements_def)
      obtain ok m2 s5 where ma: "matches_append matches p s4 = (ok, m2, s5)" by (cases "matches_append matches p s4")
      then have o5: "out s5 = out s" and m2: "ok \<Longrightarrow> mpaths m2 = mpaths matches @ [p]"
        using o4 by (auto simp: matches_append_def reserve_def Let_def dest: c_malloc_out split: if_splits prod.splits option.splits)
      have step: "(if t \<noteq> 0 then (t, matches, f3, s4) else if \<not> ok then (2, m2, f3, emit_diag_reason ''OUT_OF_MEMORY'' s5)
        else command_loop os command roots True m2 f3 s5) = (status, m1, f1, s1)"
        using Cons.prems(1) tm cl True x at ma by (cases "t = 0"; cases ok) simp_all
      show ?thesis
      proof (cases "t = 0 \<and> ok")
        case False
        with step j o4 o5 show ?thesis by (cases "t = 0") (auto simp: implements_def)
      next
        case good: True
        with j have f3: "fitems f3 = fitems f2 @ findings_of p (root_index root) (trust_codes os mode u)" by (simp add: implements_def)
        from step good have "command_loop os command roots True m2 f3 s5 = (status, m1, f1, s1)" by simp
        from Cons.IH [OF this] Cons.prems(2) o5 cm cc x key f3 m2 good show ?thesis by auto
      qed
    qed
  qed
qed

definition match_text :: "cstr list \<Rightarrow> cstr" where
  "match_text ps = findings_text (map (\<lambda>p. (''MATCH'', p)) ps)"

lemma emit_match_lines_write:
  "emit_match_lines ps s =
     (case c_write Stdout (match_text ps) s of (r, s1) \<Rightarrow> if r \<noteq> 0 then emit_stdout_write_error s1 else (0, s1))"
proof -
  have "emit_match_lines (p # ps) s =
      (case c_write Stdout (finding_line (''MATCH'', p)) s of
         (r, s1) \<Rightarrow> if r \<noteq> 0 then emit_stdout_write_error s1 else emit_match_lines ps s1)" for p ps s
    by (simp add: finding_line_def put_quoted_fun del: or_chain.simps)
  from write_loop [of emit_match_lines, OF _ this] show ?thesis
    by (simp add: match_text_def findings_text_def comp_def)
qed

lemma emit_command_query_status:
  assumes "emit_command_query m f s = (status, s1)" and "status \<noteq> 2"
  shows "status = (if fitems f = [] then 0 else 1)
    \<and> text_of Stdout s1 = text_of Stdout s @ match_text (mpaths m) @ finding_text (fitems f)
    \<and> \<not> ferr (out s1) \<and> flush_errno (out s1) = None"
proof -
  obtain r s2 where w: "c_write Stdout (match_text (mpaths m)) s = (r, s2)" by fastforce
  obtain q s3 where v: "c_write Stdout (finding_text (fitems f)) s2 = (q, s3)" by fastforce
  have err: "\<exists>z. emit_stdout_write_error u = (2, z)" for u
    using write_error_status [of u] by (cases "emit_stdout_write_error u") simp
  have r: "r = 0"
  proof (rule ccontr)
    assume "r \<noteq> 0"
    moreover obtain z where "emit_stdout_write_error s2 = (2, z)" using err by blast
    ultimately have "emit_command_query m f s = (2, z)"
      using w by (simp add: emit_command_query_def emit_match_lines_write)
    with assms show False by simp
  qed
  have q: "q = 0"
  proof (rule ccontr)
    assume "q \<noteq> 0"
    moreover obtain z where "emit_stdout_write_error s3 = (2, z)" using err by blast
    ultimately have "emit_command_query m f s = (2, z)"
      using w v r by (simp add: emit_command_query_def emit_match_lines_write emit_finding_lines_write)
    with assms show False by simp
  qed
  with w v r assms(1) have "complete_stdout (if length (fitems f) = 0 then 0 else 1) s3 = (status, s1)"
    by (simp add: emit_command_query_def emit_match_lines_write emit_finding_lines_write)
  from audit_stdout_status [OF this assms(2)] w v r q show ?thesis
    using c_write_done [of Stdout "match_text (mpaths m)" s s2] c_write_done [of Stdout "finding_text (fitems f)" s2 s3]
    by auto
qed

lemma command_mode_ok:
  assumes "a_path os = Some env" and "is_cstr env" and "run_command_mode os command s = (status, s1)" and "status \<noteq> 2"
    and ts: "ts = indexed (coalesce_spec (a_stat os) (Pathaudit_Path.fields env))"
  shows "command \<noteq> [] \<and> CHR ''/'' \<notin> set command \<and>
    (\<exists>fs. command_walk os command ts False [] = Some (concat (map (\<lambda>(t, i). match_of os command t) ts), fs)
     \<and> text_of Stdout s1 = text_of Stdout s
         @ match_text (concat (map (\<lambda>(t, i). match_of os command t) ts)) @ finding_text (sort_key finding_key fs)
     \<and> status = (if fs = [] then 0 else 1) \<and> \<not> ferr (out s1) \<and> flush_errno (out s1) = None)"
proof -
  let ?roots = "roots_of (coalesce_spec (a_stat os) (Pathaudit_Path.fields env))"
  have valid: "command_name_is_valid command"
    using assms(3,4) by (auto simp: run_command_mode_def split: if_splits)
  from path_load_ok [OF assms(2), of s "a_stat os"] obtain s2 where s2: "out s2 = out s" and
    "path_components_load (a_stat os) (Some env) s = (Inr ?roots, s2) \<and> path_fits env
     \<or> path_components_load (a_stat os) (Some env) s = (Inl 2, s2)" by blast
  with assms valid have load: "path_components_load (a_stat os) (Some env) s = (Inr ?roots, s2)"
    by (auto simp: run_command_mode_def)
  have len: "\<forall>r \<in> set ?roots. root_len r = length (text_of_root r)" using roots_of_len by blast
  have keys: "map root_key ?roots = ts"
    unfolding ts indexed_def roots_of_def by (simp add: root_key_def comp_def case_prod_unfold)
  obtain st m f s3 where c: "command_loop os command ?roots False no_matches no_findings s2 = (st, m, f, s3)"
    by (cases "command_loop os command ?roots False no_matches no_findings s2")
  from command_loop_ok [OF c len] keys have o: "out s3 = out s"
    and w: "if st = 0 then \<exists>ps. command_walk os command ts False [] = Some (ps, fitems f) \<and> mpaths m = ps else st = 2"
    using s2 by (simp_all add: no_matches_def no_findings_def split: if_splits)
  have st: "st = 0" using w assms(1,3,4) load c valid by (auto simp: run_command_mode_def split: if_splits)
  with w obtain ps where ps: "command_walk os command ts False [] = Some (ps, fitems f)" "mpaths m = ps" by auto
  from command_walk_matches [OF ps(1)] have m: "ps = concat (map (\<lambda>(t, i). match_of os command t) ts)" .
  have "emit_command_query m (sort_if_many f) s3 = (status, s1)"
    using assms(1,3) load c valid st by (simp add: run_command_mode_def)
  moreover have "sort_key finding_key (fitems f) = [] \<longleftrightarrow> fitems f = []"
    by (metis length_0_conv length_sort)
  ultimately have e:
    "text_of Stdout s1 = text_of Stdout s @ match_text ps @ finding_text (sort_key finding_key (fitems f))"
    "status = (if fitems f = [] then 0 else 1)" "\<not> ferr (out s1)" "flush_errno (out s1) = None"
    using emit_command_query_status [of m "sort_if_many f" s3 status s1] assms(4) ps(2) o
    by (simp_all add: sort_if_many_items text_of_def)
  have "command \<noteq> [] \<and> CHR ''/'' \<notin> set command"
    using valid by (auto simp: command_name_is_valid_def list_all_iff)
  with ps(1) e show ?thesis unfolding m [symmetric] by blast
qed

end
