(* ===== verification/Pathaudit.thy ===== *)
theory Pathaudit
  imports Pathaudit_Owners Pathaudit_Command
begin

text \<open>
  The command line of \<open>src/pathaudit.c\<close> and the properties of the program: loading \<open>PATH\<close>,
  termination, the reports of the three modes under every write fault, and the deduplication of
  owners.
\<close>

section \<open>The code\<close>

text \<open>\<open>ignore_ok\<close> says whether \<open>signal(SIGPIPE, SIG_IGN)\<close> succeeds.\<close>

definition ignore_sigpipe_for_stdout :: "bool \<Rightarrow> io \<Rightarrow> int \<times> io" where
  "ignore_sigpipe_for_stdout ignore_ok s =
     (if \<not> ignore_ok then (2, emit_diag_reason ''SIGNAL_SETUP'' s) else (0, s))"

definition main :: "audit_os \<Rightarrow> bool \<Rightarrow> cstr list \<Rightarrow> io \<Rightarrow> (int \<times> io) option" where
  "main os ignore_ok argv s =
     (let argc = length argv in
      if argc < 1 then Some (2, emit_usage_diag ''USAGE'' s)
      else
        (case ignore_sigpipe_for_stdout ignore_ok s of
           (sigpipe_status, s1) \<Rightarrow>
             if sigpipe_status \<noteq> 0 then Some (sigpipe_status, s1)
             else if argc \<ge> 2 \<and> strcmp (argv ! 1) ''--help'' = 0 then
               (if argc \<noteq> 2 then Some (2, emit_usage_diag ''USAGE'' s1) else Some (handle_help s1))
             else if argc \<ge> 2 \<and> strcmp (argv ! 1) ''--version'' = 0 then
               (if argc \<noteq> 2 then Some (2, emit_usage_diag ''USAGE'' s1) else Some (handle_version s1))
             else if argc \<ge> 2 \<and> strcmp (argv ! 1) ''--path'' = 0 then
               (if argc \<noteq> 2 then Some (2, emit_usage_diag ''USAGE'' s1) else run_path_mode os s1)
             else if argc \<ge> 2 \<and> strcmp (argv ! 1) ''--command'' = 0 then
               (if argc \<noteq> 3 then Some (2, emit_usage_diag ''USAGE'' s1)
                else Some (run_command_mode os (argv ! 2) s1))
             else if 1 < argc \<and> strcmp (argv ! 1) ''--'' = 0
             then Some (run_explicit_roots os (drop 2 argv) True s1)
             else Some (run_explicit_roots os (drop 1 argv) False s1)))"

section \<open>Explicit operands\<close>

lemma explicit_sound:
  assumes "run_explicit_roots os operands end_of_options s = (status, s1)" and two: "status \<noteq> 2"
  shows "(\<forall>t \<in> set operands. root_codes os t \<noteq> None) \<and> operands_fit 0 operands
      \<and> status = (if audit_report os operands = [] then 0 else 1)
      \<and> (\<exists>t. text_of Stdout s1 = text_of Stdout s @ t \<and> parse_findings t = Some (audit_report os operands))
      \<and> \<not> ferr (out s1) \<and> flush_errno (out s1) = None"
proof -
  obtain ok s2 where m: "c_malloc s = (ok, s2)" by fastforce
  note o2 = c_malloc_None [OF m]
  have load: "load_operands operands 0 0 = Inr rs \<longleftrightarrow> operands_fit 0 operands \<and> rs = operand_roots 0 operands" for rs
    by (rule load_operands_ok) simp
  have ok: ok
    by (rule ccontr) (use assms m in \<open>simp add: run_explicit_roots_def split: if_splits\<close>)
  have guards: "operands \<noteq> []" "\<not> (\<not> end_of_options \<and> list_ex (\<lambda>a. take 1 a = ''-'') operands)"
      "\<not> length operands > PATHAUDIT_MAX_ROOT_COUNT"
    using assms by (auto simp: run_explicit_roots_def split: if_splits)
  have step: "run_explicit_roots os operands end_of_options s =
      (case load_operands operands 0 0 of Inl reason \<Rightarrow> (2, emit_diag_reason reason s2) | Inr roots \<Rightarrow> run_audit os roots s2)"
    unfolding run_explicit_roots_def if_not_P [OF guards(1)] if_not_P [OF guards(2)] if_not_P [OF guards(3)] m by (simp add: ok)
  have "operands_fit 0 operands \<and> run_audit os (operand_roots 0 operands) s2 = (status, s1)"
  proof (cases "load_operands operands 0 0")
    case (Inl e)
    with assms step show ?thesis by simp
  next
    case (Inr rs)
    from Inr load [of rs] have fit: "operands_fit 0 operands" and rs: "rs = operand_roots 0 operands" by blast+
    from step assms(1) Inr have "run_audit os rs s2 = (status, s1)" by simp
    with fit show ?thesis unfolding rs by (rule conjI)
  qed
  then have fit: "operands_fit 0 operands" and run: "run_audit os (operand_roots 0 operands) s2 = (status, s1)" by simp_all
  have "text_of Stdout s2 = text_of Stdout s" using o2 by (simp add: text_of_def)
  with run_audit_ok [OF run two] have "text_of Stdout s1 = text_of Stdout s @ findings_text (audit_report os operands)" by simp
  with run_audit_ok [OF run two] fit report_parses [of os operands] show ?thesis by blast
qed

text \<open>The command lines that are not refused: enough operands within the limits, all inspectable.\<close>

definition accepted_operands :: "audit_os \<Rightarrow> cstr list \<Rightarrow> bool \<Rightarrow> bool" where
  "accepted_operands os operands end_of_options \<longleftrightarrow>
     operands \<noteq> [] \<and> (end_of_options \<or> (\<forall>t \<in> set operands. take 1 t \<noteq> ''-''))
     \<and> length operands \<le> PATHAUDIT_MAX_ROOT_COUNT \<and> operands_fit 0 operands
     \<and> (\<forall>t \<in> set operands. root_codes os t \<noteq> None)"

lemma explicit_guards:
  assumes "run_explicit_roots os operands end_of_options s = (status, s1)" and "status \<noteq> 2"
  shows "operands \<noteq> [] \<and> (end_of_options \<or> (\<forall>t \<in> set operands. take 1 t \<noteq> ''-''))
    \<and> length operands \<le> PATHAUDIT_MAX_ROOT_COUNT"
proof -
  have "operands \<noteq> []" "\<not> (\<not> end_of_options \<and> list_ex (\<lambda>a. take 1 a = ''-'') operands)"
      "\<not> length operands > PATHAUDIT_MAX_ROOT_COUNT"
    using assms by (auto simp: run_explicit_roots_def split: if_splits)
  then show ?thesis unfolding list_ex_iff by (simp only: not_less) blast
qed

lemma explicit_complete:
  assumes f: "faultless s" and ops: "operands \<noteq> []" "end_of_options \<or> (\<forall>t \<in> set operands. take 1 t \<noteq> ''-'')"
    "length operands \<le> PATHAUDIT_MAX_ROOT_COUNT" "operands_fit 0 operands" "\<forall>t \<in> set operands. root_codes os t \<noteq> None"
  shows "fst (run_explicit_roots os operands end_of_options s) \<noteq> 2"
proof -
  have load: "load_operands operands 0 0 = Inr (operand_roots 0 operands)"
    using load_operands_ok [of 0 operands 0] ops(4) by simp
  have "\<not> (\<not> end_of_options \<and> list_ex (\<lambda>a. take 1 a = ''-'') operands)"
    using ops(2) unfolding list_ex_iff by blast
  then have "run_explicit_roots os operands end_of_options s = run_audit os (operand_roots 0 operands) s"
    unfolding run_explicit_roots_def if_not_P [OF ops(1)] load faultlessD(4) [OF f] using ops(3) by (simp only: if_not_P simp_thms prod.case sum.case not_less)
  with run_audit_completes [OF f ops(3,5)] show ?thesis by simp
qed

lemma audit_report_order: "mset others = mset operands \<Longrightarrow> audit_report os others = audit_report os operands"
  by (simp only: audit_report_def flip: sorted_list_of_multiset_mset)

section \<open>Properties\<close>

text \<open>
  C24. Loading \<open>PATH\<close> succeeds exactly when the components keep the limits on their number, their
  length and their bytes, unless an allocation is refused; failures have status 2 and stdout is not
  touched.  The components of a success are numbered from 0, carry their lengths, and joined with
  colons they are the string again; they are its fields, except that runs of fields are put
  together again where the joined path fails for another reason than absence, so that a component
  with a colon in it always is such a path.  The in-place rewriting of the separators in the shared
  storage, with its undo, is covered.
\<close>

theorem path_loading:
  assumes "is_cstr env" and "path_components_load stat (Some env) s = (r, s1)"
  shows "out s1 = out s
    \<and> (case r of
         Inl status \<Rightarrow> status = 2 \<and> (path_fits env \<longrightarrow> mem s \<noteq> None)
       | Inr roots \<Rightarrow>
           path_fits env
           \<and> map text_of_root roots = coalesce_spec stat (Pathaudit_Path.fields env)
           \<and> map root_index roots = [0..<length roots]
           \<and> (\<forall>r \<in> set roots. root_len r = length (text_of_root r) \<and> root_len r \<le> PATHAUDIT_MAX_ROOT_LENGTH
               \<and> (CHR '':'' \<in> set (text_of_root r) \<longrightarrow> (\<exists>e. stat (text_of_root r) = Inl e \<and> e \<noteq> ENOENT)))
           \<and> join_fields (map text_of_root roots) = env)"
proof -
  let ?ts = "coalesce_spec stat (Pathaudit_Path.fields env)"
  from path_load_ok [OF assms(1), of s stat] assms(2) consider
      "out s1 = out s" "r = Inr (roots_of ?ts)" "path_fits env"
    | "out s1 = out s" "r = Inl 2" "path_fits env \<longrightarrow> mem s \<noteq> None" by auto
  then show ?thesis
  proof cases
    case 1
    have "root_len q = length (text_of_root q) \<and> root_len q \<le> PATHAUDIT_MAX_ROOT_LENGTH
        \<and> (CHR '':'' \<in> set (text_of_root q) \<longrightarrow> (\<exists>e. stat (text_of_root q) = Inl e \<and> e \<noteq> ENOENT))"
      if "q \<in> set (roots_of ?ts)" for q
      using roots_of_len [OF that] coalesce_spec_set [of "text_of_root q" stat "Pathaudit_Path.fields env"]
        fields_no_colon [of "text_of_root q" env] 1(3) by (auto simp: path_fits_def)
    then have "\<forall>q \<in> set (roots_of ?ts). root_len q = length (text_of_root q) \<and> root_len q \<le> PATHAUDIT_MAX_ROOT_LENGTH
        \<and> (CHR '':'' \<in> set (text_of_root q) \<longrightarrow> (\<exists>e. stat (text_of_root q) = Inl e \<and> e \<noteq> ENOENT))" by blast
    with 1 show ?thesis by (simp only: sum.case roots_of_sel join_coalesce join_fields_fields simp_thms)
  qed simp
qed

text \<open>
  C22. Every command line returns: the probe loops of the two hash tables, their growth, the walk
  up the directories and the coalescing of components all end, whatever the file system answers
  for each path (the same for the whole run) and whichever allocation or write fails.
\<close>

theorem pathaudit_returns: "\<exists>status s1. main os ignore_ok argv s = Some (status, s1)"
  using path_mode_total by (auto simp: main_def Let_def split: prod.splits if_splits)

text \<open>
  C23. The report of \<open>--path\<close> can be trusted under every fault of writes and allocations: a status
  other than 2 means that \<open>PATH\<close> kept its limits, every component was classified and scanned
  without an error, and stdout has taken and flushed, first, all hazards of the directories and of
  the executables sorted by path, index and code, then one line for every shadowed executable (a
  path that is not the first one found for its command), at the index of its first hit, sorted by
  command and index, where no two lines have the same position; the status is 1 exactly when there
  is a line.
\<close>

theorem path_mode_sound:
  assumes "a_path os = Some env" and "is_cstr env" and "run_path_mode os s = Some (status, s1)" and "status \<noteq> 2"
    and "ts = indexed (coalesce_spec (a_stat os) (Pathaudit_Path.fields env))"
  shows "\<exists>hits dirs fs shadows.
      path_hits os ts = Some hits \<and> classify_list os True ts [] = Some dirs
    \<and> sorted (map finding_key fs) \<and> mset fs = mset (dirs @ concat (map (trust_of os) hits))
    \<and> sorted_wrt (<) (map shadow_pos shadows) \<and> set shadows = shadow_spec (map hit_of hits)
    \<and> text_of Stdout s1 = text_of Stdout s @ finding_text fs @ shadow_text shadows
    \<and> status = (if fs = [] \<and> shadows = [] then 0 else 1)
    \<and> \<not> ferr (out s1) \<and> flush_errno (out s1) = None \<and> path_fits env"
  by (rule path_mode_ok [OF assms])

text \<open>
  C25. Without faults \<open>--path\<close> gives its report whenever \<open>PATH\<close> keeps its limits and no component or
  candidate is an operational error; only tables of \<open>2^57\<close> entries could still refuse.
\<close>

theorem path_mode_complete:
  assumes "a_path os = Some env" and "is_cstr env" and "faultless s" and "path_fits env"
    and "ts = indexed (coalesce_spec (a_stat os) (Pathaudit_Path.fields env))"
    and "classify_list os True ts [] = Some dirs" and "path_hits os ts = Some hits"
    and "length hits < 2 ^ 57" and "length dirs + length (concat (map (trust_of os) hits)) < 2 ^ 57"
  shows "\<exists>status s1. run_path_mode os s = Some (status, s1) \<and> status \<in> {0, 1}"
proof -
  from path_mode_completes [OF assms] obtain status s1 where r: "run_path_mode os s = Some (status, s1)" "status \<noteq> 2" by blast
  from path_mode_ok [OF assms(1,2) r assms(5)] have "status = 0 \<or> status = 1" by (auto split: if_splits)
  with r show ?thesis by auto
qed

text \<open>
  C26. Classifying the components of a search path in order notes every directory with an unsafe
  owner, above or at a component, exactly once, with the lowest index that leads to it, and leaves
  the other hazards of the components as they are.
\<close>

theorem owners_noted_once:
  assumes "classify_roots os True (roots_of texts) no_findings s = (0, b, s1)"
  shows "distinct (map fst (owned (fitems b)))
    \<and> (\<forall>p i. (p, i) \<in> set (owned (fitems b)) \<longleftrightarrow> map_of (owner_pairs os (indexed texts)) p = Some i)
    \<and> filter (\<lambda>f. \<not> is_owner_finding f) (fitems b)
        = concat (map (\<lambda>(t, i). findings_of t i (hazards_of os t)) (indexed texts))"
proof -
  have len: "\<forall>r \<in> set (roots_of texts). root_len r = length (text_of_root r)" using roots_of_len by blast
  have keys: "map root_key (roots_of texts) = indexed texts"
    unfolding indexed_def roots_of_def by (simp add: root_key_def comp_def case_prod_unfold)
  from classify_roots_implements [OF len, of s os True no_findings] assms keys
  have c: "classify_list os True (indexed texts) [] = Some (fitems b)" by (simp add: implements_def no_findings_def)
  have "sorted (map snd (indexed texts))" by (simp add: indexed_def)
  from classify_path_owners [OF c this] show ?thesis by blast
qed

text \<open>
  C27. The report of \<open>--command\<close> can be trusted under every fault: a status other than 2 means that
  the name is not empty and has no slash, that every component was searched and classified, and
  that stdout has taken and flushed the match of every component that has one, in the order of the
  search path, and then the sorted hazards that matter to the search; the status is 1 exactly when
  there is a hazard.
\<close>

theorem command_mode_sound:
  assumes "a_path os = Some env" and "is_cstr env" and "run_command_mode os command s = (status, s1)" and "status \<noteq> 2"
    and "ts = indexed (coalesce_spec (a_stat os) (Pathaudit_Path.fields env))"
  shows "command \<noteq> [] \<and> CHR ''/'' \<notin> set command \<and>
    (\<exists>fs. command_walk os command ts False [] = Some (concat (map (\<lambda>(t, i). match_of os command t) ts), fs)
     \<and> text_of Stdout s1 = text_of Stdout s
         @ match_text (concat (map (\<lambda>(t, i). match_of os command t) ts)) @ finding_text (sort_key finding_key fs)
     \<and> status = (if fs = [] then 0 else 1) \<and> \<not> ferr (out s1) \<and> flush_errno (out s1) = None)"
  by (rule command_mode_ok [OF assms])

text \<open>
  C28. The report on explicit operands is the hazards of the operands in the order of their bytes,
  from which code and operand can be read back, so it does not depend on the order of the command
  line; a status other than 2 means that it is complete and flushed, with status 1 exactly when it
  is not empty.  A status other than 2 is given only when there are operands, none starts with a dash
  unless the options were ended, their number, lengths and bytes keep the limits and every one can
  be inspected; without faults it is given exactly then.
\<close>

theorem explicit_report:
  assumes "run_explicit_roots os operands end_of_options s = (status, s1)"
  shows "(status \<noteq> 2 \<longrightarrow>
      accepted_operands os operands end_of_options
      \<and> status = (if audit_report os operands = [] then 0 else 1)
      \<and> (\<exists>t. text_of Stdout s1 = text_of Stdout s @ t \<and> parse_findings t = Some (audit_report os operands))
      \<and> \<not> ferr (out s1) \<and> flush_errno (out s1) = None)
    \<and> (faultless s \<longrightarrow> (status \<noteq> 2 \<longleftrightarrow> accepted_operands os operands end_of_options))
    \<and> (\<forall>others. mset others = mset operands \<longrightarrow> audit_report os others = audit_report os operands)"
proof -
  have accepted: "accepted_operands os operands end_of_options" if "status \<noteq> 2"
    using explicit_guards [OF assms that] explicit_sound [OF assms that] unfolding accepted_operands_def by blast
  have complete: "status \<noteq> 2" if "faultless s" "accepted_operands os operands end_of_options"
    using explicit_complete [of s operands end_of_options os] that unfolding accepted_operands_def assms fst_conv by blast
  show ?thesis
    using accepted complete explicit_sound [OF assms] audit_report_order [of _ operands os] by blast
qed

section \<open>Closed examples\<close>

text \<open>
  A search path with two directories that hold a command each: \<open>/a\<close> is group-writable, and the
  second \<open>x\<close> is shadowed.
\<close>

definition sample_stat :: "cstr \<Rightarrow> nat + stat" where
  "sample_stat p =
     (if p = ''/'' \<or> p = ''/b'' then Inr \<lparr>st_mode = 16877, st_dev = 0, st_ino = 0, st_uid = 0\<rparr>
      else if p = ''/a'' then Inr \<lparr>st_mode = 16893, st_dev = 0, st_ino = 0, st_uid = 7\<rparr>
      else if p = ''/a/x'' \<or> p = ''/b/x'' then Inr \<lparr>st_mode = 33261, st_dev = 0, st_ino = 0, st_uid = 0\<rparr>
      else Inl 2)"

definition sample_os :: audit_os where
  "sample_os = \<lparr>a_stat = sample_stat, a_lstat = sample_stat, a_readlink = (\<lambda>p. Inl 22), a_realpath = Inr,
     a_access = (\<lambda>p. True), a_open = (\<lambda>p. Inr (Inr ''#!/b'')),
     a_opendir = (\<lambda>p. Some ([''.'', ''x''], 0)), a_getuid = 1000, a_path = Some ''/a:/b''\<rparr>"

lemma sample_sel [simp]: "a_stat sample_os = sample_stat" "a_realpath sample_os = Inr" "a_access sample_os p"
  "a_open sample_os p = Inr (Inr ''#!/b'')" "a_opendir sample_os p = Some ([''.'', ''x''], 0)" "a_getuid sample_os = 1000"
  "a_path sample_os = Some ''/a:/b''"
  by (simp_all add: sample_os_def)

lemma sample_modes [simp]: "S_ISDIR 16877" "S_ISDIR 16893" "S_ISREG 33261" "\<not> S_ISDIR 33261"
   "mode_codes 16877 = []" "mode_codes 16893 = [HAZARD_GROUP_WRITABLE]" "mode_codes 33261 = []"
  by (simp_all add: S_ISDIR_def S_ISREG_def S_IFMT_def S_IFDIR_def S_IFREG_def mode_codes_def S_IWGRP_def S_IWOTH_def)

lemma sample_roots: "[(''/a'', 0), (''/b'', 1)] = indexed (coalesce_spec (a_stat sample_os) (Pathaudit_Path.fields ''/a:/b''))"
proof -
  have "sample_stat ''/a'' \<noteq> Inl ENOENT" "sample_stat ''/b'' \<noteq> Inl ENOENT" by (simp_all add: sample_stat_def)
  then show ?thesis by (simp add: indexed_def)
qed

lemma sample_hits: "path_hits sample_os [(''/a'', 0), (''/b'', 1)] =
   Some [(''x'', (''/a/x'', 33261, 0), 0), (''x'', (''/b/x'', 33261, 0), 1)]"
  by (simp add: root_hits_def is_dir_def sample_stat_def skipped_entry_def command_match_def candidate_path_def
     PATHAUDIT_MAX_ROOT_LENGTH_def probe_exec_image_def hits_at_def)

lemma sample_ancestors: "ancestors ''/a'' = [''/a'', ''/'']" "ancestors ''/b'' = [''/b'', ''/'']"
  by (simp_all add: ancestors.simps path_truncate_to_parent_def)

lemma sample_dirs: "classify_list sample_os True [(''/a'', 0), (''/b'', 1)] [] =
   Some [\<lparr>froot = ''/a'', findex = 0, fcode = HAZARD_GROUP_WRITABLE\<rparr>,
     \<lparr>froot = ''/a'', findex = 0, fcode = HAZARD_UNSAFE_OWNER\<rparr>]"
  by (simp add: classify_def root_codes_def lookup_codes_def relative_codes_def is_dir_def sample_stat_def
      unsafe_chain_def sample_ancestors unsafe_owned_def owner_uid_is_trusted_def findings_of_def note_owner_def)

lemma sample_trust: "concat (map (trust_of sample_os) [(''x'', (''/a/x'', 33261, 0), 0), (''x'', (''/b/x'', 33261, 0), 1)]) = []"
  by (simp add: trust_of_def trust_codes_def owner_uid_is_trusted_def findings_of_def)

lemma sample_fits: "path_fits ''/a:/b''"
  by (simp add: path_fits_def PATHAUDIT_MAX_ROOT_COUNT_def PATHAUDIT_MAX_ROOT_LENGTH_def PATHAUDIT_MAX_ROOT_BYTES_def)

lemma sample_shadow: "shadow_spec (map hit_of [(''x'', (''/a/x'', 33261, 0), 0), (''x'', (''/b/x'', 33261, 0), 1)])
   = {\<lparr>scommand = ''x'', swinner = ''/a/x'', sshadow = ''/b/x'', shadow_index = 1\<rparr>}"
  by (auto simp: shadow_spec_def winner_of_def index_of_def hit_of_def split: if_splits intro!: ShadowRecord.equality)

theorem path_loading_witness:
  "\<exists>roots s1. path_components_load (\<lambda>p. if p = ''/a:b'' then Inl 40 else Inl 2 :: nat + stat) (Some ''/a:b'') clear_io = (Inr roots, s1)
     \<and> map text_of_root roots = [''/a:b''] \<and> join_fields (map text_of_root roots) = ''/a:b''"
proof -
  let ?stat = "\<lambda>p. if p = ''/a:b'' then Inl 40 else Inl 2 :: nat + stat"
  obtain r s1 where l: "path_components_load ?stat (Some ''/a:b'') clear_io = (r, s1)" by fastforce
  have co: "coalesce_spec ?stat (Pathaudit_Path.fields ''/a:b'') = [''/a:b'']"
    by (simp add: ENOENT_def PATHAUDIT_MAX_ROOT_LENGTH_def)
  have fits: "path_fits ''/a:b''"
    by (simp add: path_fits_def PATHAUDIT_MAX_ROOT_COUNT_def PATHAUDIT_MAX_ROOT_LENGTH_def PATHAUDIT_MAX_ROOT_BYTES_def)
  have c: "is_cstr ''/a:b''" by simp
  have mem: "mem clear_io = None" by (simp add: clear_io_def)
  note p = path_loading [OF c l]
  show ?thesis
  proof (cases r)
    case (Inl status)
    with p fits mem show ?thesis by simp
  next
    case (Inr roots)
    from p have r: "map text_of_root roots = [''/a:b'']" and "join_fields (map text_of_root roots) = ''/a:b''"
      unfolding Inr sum.case co by (iprover+)
    with l Inr show ?thesis by (intro exI [of _ roots] exI [of _ s1] conjI) simp_all
  qed
qed

abbreviation sample_found :: "(cstr \<times> (cstr \<times> mode_t \<times> nat) \<times> nat) list" where
  "sample_found \<equiv> [(''x'', (''/a/x'', 33261, 0), 0), (''x'', (''/b/x'', 33261, 0), 1)]"

lemma path_sample_small: "length sample_found < 2 ^ 57"
    "length [\<lparr>froot = ''/a'', findex = 0, fcode = HAZARD_GROUP_WRITABLE\<rparr>, \<lparr>froot = ''/a'', findex = 0, fcode = HAZARD_UNSAFE_OWNER\<rparr>]
      + length (concat (map (trust_of sample_os) sample_found)) < 2 ^ 57"
  unfolding sample_trust by simp_all

lemma sample_path: "a_path sample_os = Some ''/a:/b''" "is_cstr ''/a:/b''"
  by simp_all

lemmas sample_complete = sample_path faultless_clear_io sample_fits sample_roots sample_dirs sample_hits path_sample_small

theorem path_mode_sound_witness:
  "\<exists>s1 fs shadows. run_path_mode sample_os clear_io = Some (1, s1)
     \<and> mset fs = {#\<lparr>froot = ''/a'', findex = 0, fcode = HAZARD_GROUP_WRITABLE\<rparr>, \<lparr>froot = ''/a'', findex = 0, fcode = HAZARD_UNSAFE_OWNER\<rparr>#}
     \<and> set shadows = {\<lparr>scommand = ''x'', swinner = ''/a/x'', sshadow = ''/b/x'', shadow_index = 1\<rparr>}
     \<and> text_of Stdout s1 = finding_text fs @ shadow_text shadows"
proof -
  obtain status s1 where r: "run_path_mode sample_os clear_io = Some (status, s1)" "status \<noteq> 2"
    using path_mode_completes [OF sample_complete] by blast
  from path_mode_sound [OF sample_path r sample_roots]
  obtain hits dirs fs shadows where p: "path_hits sample_os [(''/a'', 0), (''/b'', 1)] = Some hits"
      "classify_list sample_os True [(''/a'', 0), (''/b'', 1)] [] = Some dirs"
      "mset fs = mset (dirs @ concat (map (trust_of sample_os) hits))" "set shadows = shadow_spec (map hit_of hits)"
      "text_of Stdout s1 = text_of Stdout clear_io @ finding_text fs @ shadow_text shadows"
      "status = (if fs = [] \<and> shadows = [] then 0 else 1)" by blast
  have h: "hits = sample_found" using p(1) sample_hits by simp
  have d: "dirs = [\<lparr>froot = ''/a'', findex = 0, fcode = HAZARD_GROUP_WRITABLE\<rparr>, \<lparr>froot = ''/a'', findex = 0, fcode = HAZARD_UNSAFE_OWNER\<rparr>]"
    using p(2) sample_dirs by simp
  have fs: "mset fs = {#\<lparr>froot = ''/a'', findex = 0, fcode = HAZARD_GROUP_WRITABLE\<rparr>, \<lparr>froot = ''/a'', findex = 0, fcode = HAZARD_UNSAFE_OWNER\<rparr>#}"
    using p(3) unfolding h d sample_trust by simp
  then have "fs \<noteq> []" by auto
  moreover have "text_of Stdout clear_io = []" by (simp add: text_of_def clear_io_def clear_stream_def)
  ultimately show ?thesis using r(1) p(5,6) fs p(4) unfolding h sample_shadow by auto
qed

theorem path_mode_complete_witness: "\<exists>status s1. run_path_mode sample_os clear_io = Some (status, s1) \<and> status \<in> {0, 1}"
  by (rule path_mode_complete [OF sample_complete])

theorem explicit_report_witness:
  "\<exists>status s1. run_explicit_roots sample_os [''/a''] False clear_io = (status, s1) \<and> status \<noteq> 2"
proof -
  obtain status s1 where r: "run_explicit_roots sample_os [''/a''] False clear_io = (status, s1)" by fastforce
  have "accepted_operands sample_os [''/a''] False"
    by (simp add: accepted_operands_def PATHAUDIT_MAX_ROOT_COUNT_def operands_fit_def PATHAUDIT_MAX_ROOT_LENGTH_def
        PATHAUDIT_MAX_ROOT_BYTES_def root_codes_def sample_stat_def lookup_codes_def)
  moreover have "faultless clear_io" by simp
  ultimately show ?thesis using explicit_report [OF r] r by blast
qed

lemma sample_owners: "classify_list sample_os True (indexed [''/a'']) [] = Some
    [\<lparr>froot = ''/a'', findex = 0, fcode = HAZARD_GROUP_WRITABLE\<rparr>, \<lparr>froot = ''/a'', findex = 0, fcode = HAZARD_UNSAFE_OWNER\<rparr>]"
  by (simp add: indexed_def classify_def root_codes_def lookup_codes_def relative_codes_def is_dir_def sample_stat_def
      unsafe_chain_def sample_ancestors unsafe_owned_def owner_uid_is_trusted_def findings_of_def note_owner_def)

theorem owners_noted_once_witness:
  "\<exists>b s1. classify_roots sample_os True (roots_of [''/a'']) no_findings clear_io = (0, b, s1)
     \<and> distinct (map fst (owned (fitems b)))"
proof -
  obtain st b s1 where c: "classify_roots sample_os True (roots_of [''/a'']) no_findings clear_io = (st, b, s1)"
    by (cases "classify_roots sample_os True (roots_of [''/a'']) no_findings clear_io")
  have len: "\<forall>r \<in> set (roots_of [''/a'']). root_len r = length (text_of_root r)" by (simp add: roots_of_def)
  have keys: "map root_key (roots_of [''/a'']) = indexed [''/a'']"
    by (simp add: indexed_def roots_of_def root_key_def)
  have mem: "mem clear_io = None" by (simp add: clear_io_def)
  from classify_roots_implements [OF len, of clear_io sample_os True no_findings] sample_owners mem c
  have "st = 0" unfolding keys by (simp add: implements_def no_findings_def too_many_def split: if_splits)
  with c have r: "classify_roots sample_os True (roots_of [''/a'']) no_findings clear_io = (0, b, s1)" by simp
  with owners_noted_once [OF r] show ?thesis by blast
qed

text \<open>A search path with one directory that does not exist.\<close>

definition empty_os :: audit_os where
  "empty_os = sample_os\<lparr>a_path := Some ''/c'', a_stat := (\<lambda>p. Inl 2)\<rparr>"

lemma empty_sel [simp]: "a_path empty_os = Some ''/c''" "a_stat empty_os = (\<lambda>p. Inl 2)"
  by (simp_all add: empty_os_def)

definition empty_root :: Root where
  "empty_root = \<lparr>text_of_root = ''/c'', root_index = 0, root_len = 2\<rparr>"

lemma empty_root: "roots_of [''/c''] = [empty_root]" "text_of_root empty_root = ''/c''" "root_index empty_root = 0"
  "root_len empty_root = length ''/c''"
  by (simp_all add: roots_of_def empty_root_def)

lemma empty_len: "root_len empty_root = length (text_of_root empty_root)"
  by (simp add: empty_root_def)

theorem command_mode_sound_witness:
  "\<exists>s1. run_command_mode empty_os ''x'' clear_io = (0, s1) \<and> text_of Stdout s1 = []"
proof -
  let ?roots = "roots_of [''/c'']"
  have ts: "[(''/c'', 0)] = indexed (coalesce_spec (a_stat empty_os) (Pathaudit_Path.fields ''/c''))" by (simp add: indexed_def)
  have fits: "path_fits ''/c''"
    by (simp add: path_fits_def PATHAUDIT_MAX_ROOT_COUNT_def PATHAUDIT_MAX_ROOT_LENGTH_def PATHAUDIT_MAX_ROOT_BYTES_def)
  obtain s1 where load: "path_components_load (\<lambda>p. Inl 2) (Some ''/c'') clear_io = (Inr ?roots, s1)" and o1: "out s1 = out clear_io"
    using path_load_ok [of "''/c''" clear_io "\<lambda>p. Inl 2"] fits by (auto simp: clear_io_def)
  have mem: "mem s1 = None"
    using load by (auto simp: path_components_load_def clear_io_def split: option.splits sum.splits if_splits prod.splits)
  obtain ms hit s2 where tm: "try_command_match empty_os empty_root ''x'' s1 = (ms, hit, s2)"
    by (cases "try_command_match empty_os empty_root ''x'' s1")
  have "command_match empty_os ''/c'' ''x'' = Some None"
    by (simp add: command_match_def candidate_path_def PATHAUDIT_MAX_ROOT_LENGTH_def ENOENT_def no_match_unless_def)
  with try_match_answers [OF empty_len, of s1 empty_os "''x''"] tm mem empty_root(2)
  have m: "ms = 0" "hit = None" "out s2 = out s1" "mem s2 = None" by (simp_all add: answers_def split: if_splits)
  obtain cs f s3 where cl: "classify_command_component empty_os empty_root True no_findings s2 = (cs, f, s3)"
    by (cases "classify_command_component empty_os empty_root True no_findings s2")
  have "classify_command empty_os True ''/c'' 0 [] = Some []"
    by (simp add: classify_command_def command_codes_def is_dir_def findings_of_def root_codes_def matters_def lookup_codes_def relative_codes_def ENOENT_def)
  with classify_command_implements [OF empty_len, of s2 empty_os True no_findings] cl m empty_root(2,3)
  have c: "cs = 0" "fitems f = []" "out s3 = out clear_io"
    using o1 by (simp_all add: implements_def no_findings_def too_many_def split: if_splits)
  have "command_loop empty_os ''x'' ?roots False no_matches no_findings s1 = (0, no_matches, f, s3)"
    using tm cl m c by (simp add: empty_root)
  moreover have "complete_stdout 0 s3 = (0, s3)"
    using c(3) by (simp add: complete_stdout_def c_fflush_def c_ferror_def clear_io_def clear_stream_def)
  ultimately have r: "run_command_mode empty_os ''x'' clear_io = (0, s3)"
    using load c by (simp add: run_command_mode_def command_name_is_valid_def emit_command_query_def sort_if_many_def no_matches_def)
  have "text_of Stdout s3 = []" using c(3) by (simp add: text_of_def clear_io_def clear_stream_def)
  with command_mode_sound [of empty_os, OF _ _ r _ ts] r show ?thesis by auto
qed

end
