(* ===== verification/Openunlink_Code.thy ===== *)
theory Openunlink_Code
  imports Escaping Numbers Posix
begin

text \<open>
  The scanner of \<open>src/openunlink.c\<close>: the regular files without a name that a process holds open.
  The directory \<open>/proc/PID/fd\<close> is opened and duplicated, its entries are read as descriptor
  numbers into a fixed array and sorted, and every descriptor is looked at three times
  (\<open>fstatat\<close>, \<open>readlinkat\<close>, \<open>fstatat\<close>) to notice that it changed in between.

  The kernel answers through a record of functions (\<open>scan_os\<close>); the two calls of \<open>fstatat\<close> on one
  name are numbered, since their answers may differ.  \<open>ScanState\<close> has the fields of the source and
  one more, \<open>closes\<close>: the descriptors the program has closed so far, in order.  A \<open>DIR *\<close> is the
  descriptor it owns.
\<close>

section \<open>The kernel\<close>

record fdstat = stat +
  st_nlink :: nat
  st_size :: int

record scan_os =
  o_open :: "cstr \<Rightarrow> nat + nat"
  o_dup :: "nat \<Rightarrow> nat option"
  o_fdopendir :: "nat \<Rightarrow> bool"
  o_readdir :: "cstr list \<times> nat"
  o_closedir :: bool
  o_fstatat :: "nat \<Rightarrow> cstr \<Rightarrow> nat + fdstat"
  o_readlinkat :: "cstr \<Rightarrow> nat + char list"
  o_close :: bool

text \<open>
  \<open>o_readdir\<close>: the entries, and \<open>errno\<close> at the end (0 for the end of the directory).
  \<open>o_readlinkat\<close>: the whole target, of which the call stores as many bytes as fit the buffer.
\<close>

section \<open>Constants and state\<close>

definition FD_RETAIN_CAP :: nat where "FD_RETAIN_CAP = 65536"
definition TARGET_LEN_CAP :: nat where "TARGET_LEN_CAP = 65536"
definition TARGET_BUF_SIZE :: nat where "TARGET_BUF_SIZE = 65537"

definition INT_MAX :: nat where "INT_MAX = 2147483647"

definition INT_DECIMAL_BOUND :: nat where "INT_DECIMAL_BOUND = 3 * 4"
definition UINTMAX_DECIMAL_BOUND :: nat where "UINTMAX_DECIMAL_BOUND = 3 * 8"

definition HELP_TEXT :: cstr where
  "HELP_TEXT = ''Usage: openunlink PID'' @ LF # ''       openunlink --help'' @ LF # ''       openunlink --version''
     @ LF # ''Report zero-link regular-file descriptors for one Linux process.'' @ [LF]"

definition VERSION_TEXT :: cstr where "VERSION_TEXT = ''openunlink 0.1.0'' @ [LF]"

datatype OpCode =
    OP_NONE
  | OP_USAGE
  | OP_PROCESS_NOT_FOUND
  | OP_PROCESS_ACCESS
  | OP_PROCESS_SCAN
  | OP_MEMORY
  | OP_STDOUT_WRITE

record ScanState =
  pid :: nat
  dir_fd :: "nat option"
  dup_fd :: "nat option"
  dir :: "nat option"
  fds :: "nat list option"
  link_buf :: "char list option"
  line_buf :: "char list option"
  line_cap :: nat
  fd_count :: nat
  fd_count_limit :: bool
  had_finding :: bool
  had_advisory :: bool
  op :: OpCode
  closes :: "nat list"

section \<open>Sizes\<close>

definition size_add :: "nat \<Rightarrow> nat \<Rightarrow> nat option" where
  "size_add a b = (if a > SIZE_MAX - b then None else Some (a + b))"

definition size_mul :: "nat \<Rightarrow> nat \<Rightarrow> nat option" where
  "size_mul a b = (if a \<noteq> 0 \<and> b > SIZE_MAX div a then None else Some (a * b))"

definition line_fixed :: cstr where
  "line_fixed = ''OPEN_UNLINKED'' @ TAB # ''pid='' @ TAB # ''fd='' @ TAB # ''size='' @ TAB # ''target='' @ [DQ, DQ, LF]"

definition finding_line_capacity :: nat where
  "finding_line_capacity =
     (case size_add (length line_fixed) INT_DECIMAL_BOUND of
        None \<Rightarrow> 0
      | Some cap1 \<Rightarrow>
          (case size_add cap1 INT_DECIMAL_BOUND of
             None \<Rightarrow> 0
           | Some cap2 \<Rightarrow>
               (case size_add cap2 UINTMAX_DECIMAL_BOUND of
                  None \<Rightarrow> 0
                | Some cap3 \<Rightarrow>
                    (case size_mul TARGET_LEN_CAP 4 of
                       None \<Rightarrow> 0
                     | Some bytes \<Rightarrow>
                         (case size_add cap3 bytes of
                            None \<Rightarrow> 0
                          | Some cap4 \<Rightarrow> (case size_add cap4 1 of None \<Rightarrow> 0 | Some cap5 \<Rightarrow> cap5))))))"

definition process_path_capacity :: nat where
  "process_path_capacity =
     (case size_add (length ''/proc//fd'') INT_DECIMAL_BOUND of
        None \<Rightarrow> 0
      | Some tmp \<Rightarrow> (case size_add tmp 1 of None \<Rightarrow> 0 | Some tmp1 \<Rightarrow> tmp1))"

section \<open>Diagnostics\<close>

definition set_op :: "OpCode \<Rightarrow> ScanState \<Rightarrow> ScanState" where
  "set_op code st = (if op st = OP_NONE then st\<lparr>op := code\<rparr> else st)"

fun op_name :: "OpCode \<Rightarrow> cstr option" where
  "op_name OP_USAGE = Some ''USAGE''"
| "op_name OP_PROCESS_NOT_FOUND = Some ''PROCESS_NOT_FOUND''"
| "op_name OP_PROCESS_ACCESS = Some ''PROCESS_ACCESS''"
| "op_name OP_PROCESS_SCAN = Some ''PROCESS_SCAN''"
| "op_name OP_MEMORY = Some ''MEMORY''"
| "op_name OP_STDOUT_WRITE = Some ''STDOUT_WRITE''"
| "op_name OP_NONE = None"

definition is_pid_owned_op :: "OpCode \<Rightarrow> bool" where
  "is_pid_owned_op code \<longleftrightarrow> code = OP_PROCESS_NOT_FOUND \<or> code = OP_PROCESS_ACCESS \<or> code = OP_PROCESS_SCAN"

definition emit_operational :: "ScanState \<Rightarrow> io \<Rightarrow> io" where
  "emit_operational st s =
     (if op st = OP_NONE then s
      else
        (case op_name (op st) of
           None \<Rightarrow> s
         | Some name \<Rightarrow>
             if is_pid_owned_op (op st)
             then ignore_result (c_write Stderr (''openunlink: '' @ name @ '': pid='' @ dec (pid st) @ [LF])) s
             else ignore_result (c_write Stderr (''openunlink: '' @ name @ [LF])) s))"

definition emit_usage :: "io \<Rightarrow> io" where
  "emit_usage s = ignore_result (c_write Stderr (''openunlink: USAGE'' @ [LF])) s"

definition emit_fd_advisory :: "cstr \<Rightarrow> nat \<Rightarrow> ScanState \<Rightarrow> io \<Rightarrow> ScanState \<times> io" where
  "emit_fd_advisory code fd st s =
     (st\<lparr>had_advisory := True\<rparr>,
      ignore_result (c_write Stderr
        (''openunlink: '' @ code @ '': pid='' @ dec (pid st) @ '' fd='' @ dec fd @ [LF])) s)"

definition emit_count_advisory :: "ScanState \<Rightarrow> io \<Rightarrow> ScanState \<times> io" where
  "emit_count_advisory st s =
     (st\<lparr>had_advisory := True\<rparr>,
      ignore_result (c_write Stderr (''openunlink: FD_COUNT_LIMIT: pid='' @ dec (pid st) @ [LF])) s)"

definition write_stdout_bytes :: "char list \<Rightarrow> io \<Rightarrow> int \<times> io" where
  "write_stdout_bytes buf s =
     (if length buf = 0 then (0, s)
      else (case c_write Stdout buf s of (r, s1) \<Rightarrow> if r \<noteq> 0 then (-1, s1) else (0, s1)))"

section \<open>Parsing numbers\<close>

text \<open>The loop of \<open>parse_canonical_int\<close>, in \<open>unsigned long\<close> of 64 bits.\<close>

fun parse_digits :: "cstr \<Rightarrow> nat \<Rightarrow> nat \<Rightarrow> nat option" where
  "parse_digits [] acc digits = Some acc"
| "parse_digits (ch # p) acc digits =
     (if ubyte ch < ubyte (CHR ''0'') \<or> ubyte ch > ubyte (CHR ''9'') then None
      else
        (let digit = ubyte ch - ubyte (CHR ''0'') in
         if acc > INT_MAX div 10 then None
         else
           (let acc1 = size_plus (size_times acc 10) digit in
            if acc1 > INT_MAX then None
            else if digits + 1 > INT_DECIMAL_BOUND then None
            else parse_digits p acc1 (digits + 1))))"

definition parse_canonical_int :: "cstr \<Rightarrow> bool \<Rightarrow> nat option" where
  "parse_canonical_int t allow_zero =
     (if t = [] then None
      else if hd t = CHR ''0'' then (if \<not> allow_zero \<or> tl t \<noteq> [] then None else Some 0)
      else if ubyte (hd t) < ubyte (CHR ''1'') \<or> ubyte (hd t) > ubyte (CHR ''9'') then None
      else
        (case parse_digits t 0 0 of
           None \<Rightarrow> None
         | Some acc \<Rightarrow> if acc < 1 then None else Some acc))"

definition parse_pid :: "cstr \<Rightarrow> nat option" where "parse_pid t = parse_canonical_int t False"

definition parse_fd_name :: "cstr \<Rightarrow> nat option" where "parse_fd_name t = parse_canonical_int t True"

definition fd_cmp :: "nat \<Rightarrow> nat \<Rightarrow> int" where
  "fd_cmp a b = (if a < b then -1 else if a > b then 1 else 0)"

text \<open>\<open>snprintf(buf, cap, "%d", fd)\<close> of a value that is not negative.\<close>

definition format_fd_name :: "nat \<Rightarrow> nat \<Rightarrow> cstr option" where
  "format_fd_name cap fd = (if length (dec fd) \<ge> cap then None else Some (dec fd))"

section \<open>One line\<close>

text \<open>
  \<open>escape_append\<close>: the buffer up to \<open>*used\<close>, and 0 or -1.  \<open>snprintf\<close> into exactly four bytes
  would store a NUL in the place of the last digit.
\<close>

fun escape_append :: "char list \<Rightarrow> nat \<Rightarrow> char list \<Rightarrow> int \<times> char list" where
  "escape_append dst cap [] = (0, dst)"
| "escape_append dst cap (ch # src) =
     (let pos = length dst in
      if ch = DQ \<or> ch = BSL then
        (if pos > cap \<or> 2 > cap - pos then (-1, dst) else escape_append (dst @ [BSL, ch]) cap src)
      else if ubyte ch \<ge> 0x20 \<and> ubyte ch \<le> 0x7e then
        (if pos > cap \<or> 1 > cap - pos then (-1, dst) else escape_append (dst @ [ch]) cap src)
      else
        (if pos > cap \<or> 4 > cap - pos then (-1, dst)
         else
           (let hex = BSL # CHR ''x'' # hex2_upper ch in
            escape_append (dst @ (if cap - pos > 4 then hex else take 3 hex @ [NUL])) cap src)))"

text \<open>What the first \<open>snprintf\<close> of \<open>emit_finding\<close> formats.\<close>

definition line_head :: "nat \<Rightarrow> nat \<Rightarrow> nat \<Rightarrow> cstr" where
  "line_head p fd bytes =
     ''OPEN_UNLINKED'' @ TAB # ''pid='' @ dec p @ TAB # ''fd='' @ dec fd @ TAB # ''size='' @ dec bytes @ TAB # ''target='' @ [DQ]"

definition emit_finding :: "ScanState \<Rightarrow> nat \<Rightarrow> nat \<Rightarrow> char list \<Rightarrow> io \<Rightarrow> int \<times> ScanState \<times> io" where
  "emit_finding st fd bytes target s =
     (if line_buf st = None \<or> line_cap st = 0 then (-1, st, s)
      else
        (let head = line_head (pid st) fd bytes in
         if length head \<ge> line_cap st then (-1, st, s)
         else
           (case escape_append head (line_cap st) target of
              (r, dst) \<Rightarrow>
                if r \<noteq> 0 then (-1, st\<lparr>line_buf := Some dst\<rparr>, s)
                else
                  (let remain = line_cap st - length dst in
                   if remain < 3 then (-1, st\<lparr>line_buf := Some dst\<rparr>, s)
                   else
                     (let line = dst @ [DQ, LF] in
                      case write_stdout_bytes line s of
                        (w, s1) \<Rightarrow>
                          if w \<noteq> 0 then (-1, st\<lparr>line_buf := Some line\<rparr>, s1)
                          else (0, st\<lparr>line_buf := Some line, had_finding := True\<rparr>, s1))))))"

definition map_fstatat_errno :: "nat \<Rightarrow> bool" where
  "map_fstatat_errno e \<longleftrightarrow> e = ENOENT \<or> e = ENOTDIR \<or> e = ESTALE"

definition map_readlinkat_errno :: "nat \<Rightarrow> bool" where
  "map_readlinkat_errno e \<longleftrightarrow> e = ENOENT \<or> e = ENOTDIR \<or> e = ESTALE \<or> e = EINVAL"

text \<open>\<open>off_t\<close> and \<open>uintmax_t\<close> have 64 bits.\<close>

definition convert_size :: "int \<Rightarrow> nat option" where
  "convert_size v =
     (if v < 0 then None
      else
        (let converted = uint (of_int v :: 64 word) in
         if sint (of_int converted :: 64 word) \<noteq> v then None else Some (nat converted)))"

section \<open>One descriptor\<close>

definition inspect_one :: "scan_os \<Rightarrow> nat \<Rightarrow> ScanState \<Rightarrow> io \<Rightarrow> int \<times> ScanState \<times> io" where
  "inspect_one os fd st s =
     (let advise = (\<lambda>code st. case emit_fd_advisory code fd st s of (st1, s1) \<Rightarrow> (0, st1, s1)) in
      case format_fd_name (INT_DECIMAL_BOUND + 1) fd of
        None \<Rightarrow> (-1, set_op OP_PROCESS_SCAN st, s)
      | Some name \<Rightarrow>
          (case o_fstatat os 0 name of
             Inl e \<Rightarrow> advise (if map_fstatat_errno e then ''FD_UNSTABLE'' else ''FD_UNREADABLE'') st
           | Inr first \<Rightarrow>
               if \<not> S_ISREG (st_mode first) then (0, st, s)
               else
                 (case o_readlinkat os name of
                    Inl e \<Rightarrow> advise (if map_readlinkat_errno e then ''FD_UNSTABLE'' else ''FD_UNREADABLE'') st
                  | Inr target \<Rightarrow>
                      (let link = take TARGET_BUF_SIZE target; st1 = st\<lparr>link_buf := Some link\<rparr> in
                       if length link = TARGET_BUF_SIZE then advise ''TARGET_LENGTH_LIMIT'' st1
                       else if length link > TARGET_LEN_CAP then advise ''TARGET_LENGTH_LIMIT'' st1
                       else
                         (case o_fstatat os 1 name of
                            Inl e \<Rightarrow> advise (if map_fstatat_errno e then ''FD_UNSTABLE'' else ''FD_UNREADABLE'') st1
                          | Inr second \<Rightarrow>
                              if st_dev first \<noteq> st_dev second \<or> st_ino first \<noteq> st_ino second
                                \<or> \<not> S_ISREG (st_mode second)
                              then advise ''FD_UNSTABLE'' st1
                              else if st_nlink second \<noteq> 0 then (0, st1, s)
                              else
                                (case convert_size (st_size second) of
                                   None \<Rightarrow> advise ''FD_SIZE_RANGE'' st1
                                 | Some bytes \<Rightarrow>
                                     (case emit_finding st1 fd bytes link s of
                                        (r, st2, s1) \<Rightarrow>
                                          if r \<noteq> 0 then (-1, set_op OP_STDOUT_WRITE st2, s1)
                                          else (0, st2, s1))))))))"

section \<open>The scan\<close>

definition cleanup_scan :: "ScanState \<Rightarrow> ScanState" where
  "cleanup_scan st =
     (let st1 = (case dir st of None \<Rightarrow> st
                 | Some d \<Rightarrow> st\<lparr>dir := None, dup_fd := None, closes := closes st @ [d]\<rparr>);
          st2 = (case dup_fd st1 of None \<Rightarrow> st1
                 | Some d \<Rightarrow> st1\<lparr>dup_fd := None, closes := closes st1 @ [d]\<rparr>);
          st3 = (case dir_fd st2 of None \<Rightarrow> st2
                 | Some d \<Rightarrow> st2\<lparr>dir_fd := None, closes := closes st2 @ [d]\<rparr>)
      in st3\<lparr>fds := None, link_buf := None, line_buf := None\<rparr>)"

definition allocate_scan_buffers :: "ScanState \<Rightarrow> io \<Rightarrow> int \<times> ScanState \<times> io" where
  "allocate_scan_buffers st s =
     (case size_mul FD_RETAIN_CAP 4 of
        None \<Rightarrow> (-1, set_op OP_MEMORY st, s)
      | Some fds_bytes \<Rightarrow>
          if finding_line_capacity = 0 then (-1, set_op OP_MEMORY st, s)
          else
            (let st0 = st\<lparr>line_cap := finding_line_capacity\<rparr> in
             case c_malloc s of
               (ok1, s1) \<Rightarrow>
                 if \<not> ok1 then (-1, set_op OP_MEMORY st0, s1)
                 else
                   (let st1 = st0\<lparr>fds := Some (replicate FD_RETAIN_CAP 0)\<rparr> in
                    case c_malloc s1 of
                      (ok2, s2) \<Rightarrow>
                        if \<not> ok2 then (-1, set_op OP_MEMORY st1, s2)
                        else
                          (let st2 = st1\<lparr>link_buf := Some []\<rparr> in
                           case c_malloc s2 of
                             (ok3, s3) \<Rightarrow>
                               if \<not> ok3 then (-1, set_op OP_MEMORY st2, s3)
                               else (0, st2\<lparr>line_buf := Some []\<rparr>, s3)))))"

text \<open>The loop of \<open>enumerate_fds\<close> over the entries that \<open>readdir\<close> returns, with \<open>errno\<close> at the end.\<close>

fun enumerate_fds :: "cstr list \<Rightarrow> nat \<Rightarrow> ScanState \<Rightarrow> int \<times> ScanState" where
  "enumerate_fds [] end_errno st =
     (if end_errno \<noteq> 0 then (-1, set_op OP_PROCESS_SCAN st) else (0, st))"
| "enumerate_fds (name # names) end_errno st =
     (if strcmp name ''.'' = 0 \<or> strcmp name ''..'' = 0 then enumerate_fds names end_errno st
      else
        (case parse_fd_name name of
           None \<Rightarrow> (-1, set_op OP_PROCESS_SCAN st)
         | Some fd \<Rightarrow>
             if fd_count st \<ge> FD_RETAIN_CAP then (0, st\<lparr>fd_count_limit := True\<rparr>)
             else
               enumerate_fds names end_errno
                 (st\<lparr>fds := map_option (\<lambda>a. a[fd_count st := fd]) (fds st), fd_count := fd_count st + 1\<rparr>)))"

text \<open>The first \<open>fd_count\<close> elements of the array.\<close>

definition retained :: "ScanState \<Rightarrow> nat list" where
  "retained st = (case fds st of None \<Rightarrow> [] | Some a \<Rightarrow> take (fd_count st) a)"

fun has_adjacent_duplicate :: "nat list \<Rightarrow> bool" where
  "has_adjacent_duplicate (a # b # xs) = (b = a \<or> has_adjacent_duplicate (b # xs))"
| "has_adjacent_duplicate xs = False"

definition sort_and_check_duplicates :: "ScanState \<Rightarrow> int \<times> ScanState" where
  "sort_and_check_duplicates st =
     (let st1 = (if fd_count st > 1
                 then st\<lparr>fds := map_option (\<lambda>a. qsort_by fd_cmp (take (fd_count st) a) @ drop (fd_count st) a) (fds st)\<rparr>
                 else st)
      in if has_adjacent_duplicate (retained st1) then (-1, set_op OP_PROCESS_SCAN st1) else (0, st1))"

fun inspect_all :: "scan_os \<Rightarrow> nat list \<Rightarrow> ScanState \<Rightarrow> io \<Rightarrow> int \<times> ScanState \<times> io" where
  "inspect_all os [] st s = (0, st, s)"
| "inspect_all os (fd # rest) st s =
     (case inspect_one os fd st s of
        (r, st1, s1) \<Rightarrow> if r \<noteq> 0 then (-1, st1, s1) else inspect_all os rest st1 s1)"

text \<open>From the end of the enumeration to the end of \<open>run_scan\<close>.\<close>

definition scan_tail :: "scan_os \<Rightarrow> ScanState \<Rightarrow> io \<Rightarrow> int \<times> ScanState \<times> io" where
  "scan_tail os st s =
     (let closed = (case dir st of None \<Rightarrow> st
                    | Some d \<Rightarrow> st\<lparr>dir := None, closes := closes st @ [d]\<rparr>) in
      if \<not> o_closedir os then (-1, set_op OP_PROCESS_SCAN closed, s)
      else
        (case sort_and_check_duplicates closed of
           (r, st1) \<Rightarrow>
             if r \<noteq> 0 then (-1, st1, s)
             else
               (case (if fd_count_limit st1 then emit_count_advisory st1 s else (st1, s)) of
                  (st2, s1) \<Rightarrow>
                    (case inspect_all os (retained st2) st2 s1 of
                       (r1, st3, s2) \<Rightarrow>
                         if r1 \<noteq> 0 then (-1, st3, s2)
                         else
                           (case c_fflush Stdout s2 of
                              (f, s3) \<Rightarrow>
                                if f \<noteq> 0 \<or> c_ferror Stdout s3 then (-1, set_op OP_STDOUT_WRITE st3, s3)
                                else
                                  (let st4 = (case dir_fd st3 of None \<Rightarrow> st3
                                              | Some d \<Rightarrow> st3\<lparr>dir_fd := None, closes := closes st3 @ [d]\<rparr>) in
                                   if \<not> o_close os then (-1, set_op OP_PROCESS_SCAN st4, s3)
                                   else (0, st4, s3)))))))"

definition process_path :: "nat \<Rightarrow> cstr" where "process_path p = ''/proc/'' @ dec p @ ''/fd''"

definition run_scan :: "scan_os \<Rightarrow> ScanState \<Rightarrow> io \<Rightarrow> int \<times> ScanState \<times> io" where
  "run_scan os st s =
     (if process_path_capacity = 0 \<or> process_path_capacity > 7 + INT_DECIMAL_BOUND + 4
      then (-1, set_op OP_PROCESS_SCAN st, s)
      else if length (process_path (pid st)) \<ge> process_path_capacity
      then (-1, set_op OP_PROCESS_SCAN st, s)
      else
        (case o_open os (process_path (pid st)) of
           Inl saved \<Rightarrow>
             if saved = ENOENT \<or> saved = ENOTDIR then (-1, set_op OP_PROCESS_NOT_FOUND st, s)
             else if saved = EACCES \<or> saved = EPERM then (-1, set_op OP_PROCESS_ACCESS st, s)
             else (-1, set_op OP_PROCESS_SCAN st, s)
         | Inr fd \<Rightarrow>
             (let st1 = st\<lparr>dir_fd := Some fd, dup_fd := o_dup os fd\<rparr> in
              case o_dup os fd of
                None \<Rightarrow> (-1, set_op OP_PROCESS_SCAN st1, s)
              | Some dup \<Rightarrow>
                  (case allocate_scan_buffers st1 s of
                     (r, st2, s1) \<Rightarrow>
                       if r \<noteq> 0 then (-1, st2, s1)
                       else if \<not> o_fdopendir os dup then (-1, set_op OP_PROCESS_SCAN st2, s1)
                       else
                         (case enumerate_fds (fst (o_readdir os)) (snd (o_readdir os))
                                 (st2\<lparr>dir := Some dup, dup_fd := None\<rparr>) of
                            (r1, st3) \<Rightarrow>
                              if r1 \<noteq> 0 then (-1, st3, s1) else scan_tail os st3 s1)))))"

definition finish_status :: "ScanState \<Rightarrow> int" where
  "finish_status st =
     (if op st \<noteq> OP_NONE then 2 else if had_finding st \<or> had_advisory st then 1 else 0)"

section \<open>The command line\<close>

definition emit_text :: "cstr \<Rightarrow> io \<Rightarrow> int \<times> io" where
  "emit_text t s =
     (let failure = (\<lambda>s. (2, ignore_result (c_write Stderr (''openunlink: STDOUT_WRITE'' @ [LF])) s)) in
      case write_stdout_bytes t s of
        (r, s1) \<Rightarrow>
          if r \<noteq> 0 then failure s1
          else (case c_fflush Stdout s1 of
                  (f, s2) \<Rightarrow> if f \<noteq> 0 \<or> c_ferror Stdout s2 then failure s2 else (0, s2)))"

definition handle_help :: "io \<Rightarrow> int \<times> io" where "handle_help s = emit_text HELP_TEXT s"

definition handle_version :: "io \<Rightarrow> int \<times> io" where "handle_version s = emit_text VERSION_TEXT s"

definition initial_state :: "nat \<Rightarrow> ScanState" where
  "initial_state p =
     \<lparr>pid = p, dir_fd = None, dup_fd = None, dir = None, fds = None, link_buf = None, line_buf = None,
      line_cap = 0, fd_count = 0, fd_count_limit = False, had_finding = False, had_advisory = False,
      op = OP_NONE, closes = []\<rparr>"

text \<open>The exit status, the final state of the scan, and the streams.\<close>

definition scan_process :: "scan_os \<Rightarrow> nat \<Rightarrow> io \<Rightarrow> int \<times> ScanState \<times> io" where
  "scan_process os p s =
     (case run_scan os (initial_state p) s of
        (r, st, s1) \<Rightarrow> (finish_status st, cleanup_scan st, emit_operational st s1))"

definition main :: "scan_os \<Rightarrow> cstr list \<Rightarrow> io \<Rightarrow> int \<times> io" where
  "main os argv s =
     (let argc = length argv in
      if argc = 2 \<and> strcmp (argv ! 1) ''--help'' = 0 then handle_help s
      else if argc = 2 \<and> strcmp (argv ! 1) ''--version'' = 0 then handle_version s
      else if argc \<noteq> 2 then (2, emit_usage s)
      else
        (case parse_pid (argv ! 1) of
           None \<Rightarrow> (2, emit_usage s)
         | Some p \<Rightarrow> (case scan_process os p s of (status, st, s1) \<Rightarrow> (status, s1))))"

end
