(* ===== verification/Openunlink_Look.thy ===== *)
theory Openunlink_Look
  imports Openunlink_Code Quoting
begin

text \<open>
  The parts of \<open>src/openunlink.c\<close> below the scan: the numbers it accepts (interface
  \<open>canonical_numeral\<close>), the bound of the line buffer, and the look at one descriptor, which is
  compared with a decision that uses no buffers (\<open>verdict_of\<close>) and shown to leave its texts on the
  two streams (\<open>looks\<close>).
\<close>

section \<open>Canonical numerals\<close>

locale canonical_numeral =
  fixes parse :: "cstr \<Rightarrow> nat option" and low :: nat
  assumes parse: "parse t = Some n \<longleftrightarrow> t = dec n \<and> low \<le> n \<and> n \<le> INT_MAX"
begin

lemma parse_inject: "parse t = Some n \<Longrightarrow> parse u = Some n \<Longrightarrow> t = u"
  by (simp add: parse)

lemma parse_dec: "low \<le> n \<Longrightarrow> n \<le> INT_MAX \<Longrightarrow> parse (dec n) = Some n"
  by (simp add: parse)

lemma parse_None: "parse t = None \<longleftrightarrow> (\<forall>n. low \<le> n \<longrightarrow> n \<le> INT_MAX \<longrightarrow> t \<noteq> dec n)"
  using parse [of t] by (metis not_Some_eq)

end

lemma parse_digits_ok:
  "acc \<le> INT_MAX \<Longrightarrow>
    parse_digits p acc k = Some r \<longleftrightarrow>
      (\<forall>c \<in> set p. is_digit c) \<and> r = foldl (\<lambda>v c. 10 * v + digit_value c) acc p \<and> r \<le> INT_MAX
      \<and> (p = [] \<or> k + length p \<le> INT_DECIMAL_BOUND)"
proof (induction p arbitrary: acc k)
  case Nil
  then show ?case by auto
next
  case (Cons c p)
  let ?acc = "10 * acc + digit_value c"
  have ge: "?acc \<le> foldl (\<lambda>v c. 10 * v + digit_value c) ?acc p" by (rule foldl_digits_ge)
  show ?case
  proof (cases "is_digit c")
    case False
    then show ?thesis by (auto simp: is_digit_def)
  next
    case True
    note d = digit_value_less [OF True]
    have exact: "size_plus (size_times acc 10) (digit_value c) = ?acc"
      using Cons.prems d by (simp add: INT_MAX_def SIZE_MAX_def mult.commute)
    have step: "parse_digits (c # p) acc k =
        (if acc > INT_MAX div 10 then None else if ?acc > INT_MAX then None
         else if k + 1 > INT_DECIMAL_BOUND then None else parse_digits p ?acc (k + 1))"
      using True exact by (simp add: is_digit_def digit_value_def Let_def)
    have big: "acc > INT_MAX div 10 \<Longrightarrow> ?acc > INT_MAX" by (simp add: INT_MAX_def)
    show ?thesis
    proof (cases "?acc > INT_MAX")
      case True
      then show ?thesis unfolding step using ge by auto
    next
      case False
      with big have "\<not> acc > INT_MAX div 10" by blast
      with False Cons.IH [of ?acc "k + 1"] True show ?thesis unfolding step by (auto simp del: parse_digits.simps)
    qed
  qed
qed

lemma length_dec_int: "n \<le> INT_MAX \<Longrightarrow> length (dec n) \<le> 10"
  by (rule length_dec_le) (simp_all add: INT_MAX_def)

lemma parse_canonical_int_ok:
  "parse_canonical_int t zero = Some n \<longleftrightarrow> t = dec n \<and> (if zero then 0 else 1) \<le> n \<and> n \<le> INT_MAX"
proof (cases "t = dec n \<and> n \<le> INT_MAX")
  case True
  then have t: "t = dec n" "n \<le> INT_MAX" by simp_all
  show ?thesis
  proof (cases "n = 0")
    case True
    then have "t = ''0''" using t by (simp add: dec_0)
    with True show ?thesis by (auto simp: parse_canonical_int_def dec_0)
  next
    case False
    have "hd t \<noteq> CHR ''0''" using hd_dec [of n] False t by simp
    moreover have d: "\<forall>c \<in> set t. is_digit c" using dec_digits t by blast
    moreover have "t \<noteq> []" using t by simp
    moreover from this d have "is_digit (hd t)" by simp
    moreover have "parse_digits t 0 0 = Some n"
      using d t length_dec_int [of n] dec_value_dec [of n]
      by (subst parse_digits_ok) (auto simp: dec_value_def INT_DECIMAL_BOUND_def)
    moreover have "\<not> (ubyte (hd t) < ubyte (CHR ''1'') \<or> ubyte (hd t) > ubyte (CHR ''9''))"
    proof -
      have "ubyte (hd t) \<noteq> ubyte (CHR ''0'')" using \<open>hd t \<noteq> CHR ''0''\<close> unfolding ubyte_inject .
      with \<open>is_digit (hd t)\<close> show ?thesis by (simp add: is_digit_def)
    qed
    ultimately have "parse_canonical_int t zero = Some n" using False by (simp add: parse_canonical_int_def)
    with t False show ?thesis by simp
  qed
next
  case False
  have "parse_canonical_int t zero \<noteq> Some n"
  proof
    assume p: "parse_canonical_int t zero = Some n"
    show False
    proof (cases "t \<noteq> [] \<and> hd t \<noteq> CHR ''0''")
      case True
      with p have pd: "parse_digits t 0 0 = Some n" by (auto simp: parse_canonical_int_def split: if_splits option.splits)
      from parse_digits_ok [of 0 t 0 n] pd have "\<forall>c \<in> set t. is_digit c" "n = dec_value t" "n \<le> INT_MAX"
        by (simp_all add: dec_value_def)
      with dec_of_value [of t] True False show False by simp
    next
      case zero: False
      with p have "t = ''0''" "n = 0" by (cases t; auto simp: parse_canonical_int_def split: if_splits)+
      with False show False by (simp add: dec_0)
    qed
  qed
  with False show ?thesis by blast
qed

interpretation pid_numeral: canonical_numeral parse_pid 1
  by unfold_locales (simp add: parse_pid_def parse_canonical_int_ok)

interpretation fd_numeral: canonical_numeral parse_fd_name 0
  by unfold_locales (simp add: parse_fd_name_def parse_canonical_int_ok)

section \<open>The line buffer\<close>

definition unlinked_line :: "nat \<Rightarrow> nat \<Rightarrow> nat \<Rightarrow> char list \<Rightarrow> cstr" where
  "unlinked_line p fd bytes target = line_head p fd bytes @ concat (map esc_quoted target) @ [DQ, LF]"

lemma escape_append_ok:
  "length dst + 4 * length src < cap \<Longrightarrow> escape_append dst cap src = (0, dst @ concat (map esc_quoted src))"
proof (induction dst cap src rule: escape_append.induct)
  case (2 dst cap ch src)
  have p: "printable ch \<longleftrightarrow> ubyte ch \<ge> 0x20 \<and> ubyte ch \<le> 0x7e" by (simp add: printable_def)
  have room: "\<not> length dst > cap" "\<not> 2 > cap - length dst" "\<not> 1 > cap - length dst" "\<not> 4 > cap - length dst"
      "cap - length dst > 4" using "2.prems" by simp_all
  consider (special) "ch = DQ \<or> ch = BSL" | (plain) "\<not> (ch = DQ \<or> ch = BSL)" "printable ch"
    | (hex) "\<not> (ch = DQ \<or> ch = BSL)" "\<not> printable ch" by blast
  then show ?case
  proof cases
    case special
    with "2.IH"(1) [OF refl special] room "2.prems" show ?thesis by (auto simp: esc_quoted_def)
  next
    case plain
    with "2.IH"(2) [OF refl plain(1)] room "2.prems" p show ?thesis by (simp add: esc_quoted_def)
  next
    case hex
    then have q: "\<not> (ubyte ch \<ge> 0x20 \<and> ubyte ch \<le> 0x7e)" using p by blast
    have e: "esc_quoted ch = BSL # CHR ''x'' # hex2_upper ch" using hex by (simp add: esc_quoted_def hex_escape_def)
    have "escape_append dst cap (ch # src) = escape_append (dst @ BSL # CHR ''x'' # hex2_upper ch) cap src"
      unfolding escape_append.simps Let_def if_not_P [OF hex(1)] if_not_P [OF q] using room by simp
    moreover have "length (dst @ BSL # CHR ''x'' # hex2_upper ch) + 4 * length src < cap"
      using "2.prems" by (simp add: hex2_upper_def)
    ultimately show ?thesis using "2.IH"(3) [OF refl hex(1) q _ refl] room e by simp
  qed
qed simp

lemma line_capacity: "finding_line_capacity = 262232" "process_path_capacity = 22"
  by (simp_all add: finding_line_capacity_def process_path_capacity_def size_add_def size_mul_def line_fixed_def
      INT_DECIMAL_BOUND_def UINTMAX_DECIMAL_BOUND_def TARGET_LEN_CAP_def SIZE_MAX_def)

lemma length_line_head:
  assumes "p \<le> INT_MAX" and "fd \<le> INT_MAX" and "bytes < 2 ^ 63"
  shows "length (line_head p fd bytes) \<le> 76"
proof -
  have "length (dec bytes) \<le> 19" using assms(3) by (intro length_dec_le) simp_all
  with length_dec_int [OF assms(1)] length_dec_int [OF assms(2)] show ?thesis by (simp add: line_head_def)
qed

lemma emit_finding_ok:
  assumes "p \<le> INT_MAX" and "fd \<le> INT_MAX" and "bytes < 2 ^ 63" and "length target \<le> TARGET_LEN_CAP"
    and "pid st = p" and "line_buf st \<noteq> None" and "line_cap st = finding_line_capacity"
  shows "emit_finding st fd bytes target s =
    (let line = unlinked_line p fd bytes target in
     case c_write Stdout line s of
       (r, s1) \<Rightarrow>
         if r \<noteq> 0 then (-1, st\<lparr>line_buf := Some line\<rparr>, s1)
         else (0, st\<lparr>line_buf := Some line, had_finding := True\<rparr>, s1))"
proof -
  let ?head = "line_head p fd bytes"
  let ?dst = "?head @ concat (map esc_quoted target)"
  note h = length_line_head [OF assms(1-3)]
  have room: "length ?head + 4 * length target < line_cap st"
    using h assms(4,7) by (simp add: line_capacity TARGET_LEN_CAP_def)
  have dst: "length ?dst + 3 \<le> line_cap st"
    using h assms(4,7) quoted_esc.length_escaped [of target] by (simp add: line_capacity TARGET_LEN_CAP_def)
  have "write_stdout_bytes (?dst @ [DQ, LF]) s = (case c_write Stdout (?dst @ [DQ, LF]) s of (r, s1) \<Rightarrow> if r \<noteq> 0 then (-1, s1) else (0, s1))"
    by (simp add: write_stdout_bytes_def)
  moreover have "\<not> line_cap st - length ?dst < 3" using dst by linarith
  ultimately show ?thesis
    using assms(5-7) room escape_append_ok [OF room]
    by (simp add: emit_finding_def unlinked_line_def Let_def line_capacity split: prod.splits)
qed

section \<open>The decision about one descriptor\<close>

datatype verdict =
    Nothing_to_report
  | Advisory cstr
  | Unlinked nat "char list"

definition lookup_code :: "bool \<Rightarrow> cstr" where
  "lookup_code gone = (if gone then ''FD_UNSTABLE'' else ''FD_UNREADABLE'')"

definition verdict_of :: "scan_os \<Rightarrow> nat \<Rightarrow> verdict" where
  "verdict_of os fd =
     (case o_fstatat os 0 (dec fd) of
        Inl e \<Rightarrow> Advisory (lookup_code (map_fstatat_errno e))
      | Inr first \<Rightarrow>
          if \<not> S_ISREG (st_mode first) then Nothing_to_report
          else
            (case o_readlinkat os (dec fd) of
               Inl e \<Rightarrow> Advisory (lookup_code (map_readlinkat_errno e))
             | Inr target \<Rightarrow>
                 if length target > TARGET_LEN_CAP then Advisory ''TARGET_LENGTH_LIMIT''
                 else
                   (case o_fstatat os 1 (dec fd) of
                      Inl e \<Rightarrow> Advisory (lookup_code (map_fstatat_errno e))
                    | Inr second \<Rightarrow>
                        if st_dev first \<noteq> st_dev second \<or> st_ino first \<noteq> st_ino second \<or> \<not> S_ISREG (st_mode second)
                        then Advisory ''FD_UNSTABLE''
                        else if st_nlink second \<noteq> 0 then Nothing_to_report
                        else if st_size second < 0 \<or> 2 ^ 63 \<le> st_size second then Advisory ''FD_SIZE_RANGE''
                        else Unlinked (nat (st_size second)) target)))"

fun verdict_line :: "nat \<Rightarrow> nat \<Rightarrow> verdict \<Rightarrow> cstr" where
  "verdict_line p fd (Unlinked bytes target) = unlinked_line p fd bytes target"
| "verdict_line p fd v = []"

fun verdict_note :: "nat \<Rightarrow> nat \<Rightarrow> verdict \<Rightarrow> cstr" where
  "verdict_note p fd (Advisory code) = ''openunlink: '' @ code @ '': pid='' @ dec p @ '' fd='' @ dec fd @ [LF]"
| "verdict_note p fd v = []"

definition scan_report :: "scan_os \<Rightarrow> nat \<Rightarrow> nat list \<Rightarrow> cstr" where
  "scan_report os p fs = concat (map (\<lambda>fd. verdict_line p fd (verdict_of os fd)) fs)"

definition advisories :: "scan_os \<Rightarrow> nat \<Rightarrow> nat list \<Rightarrow> cstr" where
  "advisories os p fs = concat (map (\<lambda>fd. verdict_note p fd (verdict_of os fd)) fs)"

lemma convert_size_ok: "convert_size v = (if v < 0 \<or> 2 ^ 63 \<le> v then None else Some (nat v))"
proof (cases "0 \<le> v \<and> v < 2 ^ 63")
  case True
  then have "uint (of_int v :: 64 word) = v" by (simp add: uint_word_of_int take_bit_int_eq_self)
  moreover have "sint (of_int v :: 64 word) = v"
    using True by (simp add: sint_sbintrunc' signed_take_bit_int_eq_self)
  ultimately show ?thesis using True by (simp add: convert_size_def)
next
  case False
  have "v = sint (of_int (uint (of_int v :: 64 word)) :: 64 word) \<Longrightarrow> v < 2 ^ 63"
    using sint_lt [of "of_int (uint (of_int v :: 64 word)) :: 64 word"] by simp
  with False show ?thesis by (auto simp: convert_size_def Let_def)
qed

text \<open>The state a look at a descriptor keeps.\<close>

definition same_scan :: "ScanState \<Rightarrow> ScanState \<Rightarrow> bool" where
  "same_scan st st1 \<longleftrightarrow> pid st1 = pid st \<and> dir_fd st1 = dir_fd st \<and> dup_fd st1 = dup_fd st \<and> dir st1 = dir st
     \<and> fds st1 = fds st \<and> line_cap st1 = line_cap st \<and> fd_count st1 = fd_count st
     \<and> fd_count_limit st1 = fd_count_limit st \<and> closes st1 = closes st"

definition line_ready :: "ScanState \<Rightarrow> bool" where
  "line_ready st \<longleftrightarrow> pid st \<le> INT_MAX \<and> line_buf st \<noteq> None \<and> line_cap st = finding_line_capacity"

lemma same_scan_trans: "same_scan a b \<Longrightarrow> same_scan b c \<Longrightarrow> same_scan a c"
  by (simp add: same_scan_def)

text \<open>The outcome of looking at descriptors: a text for stdout and one for stderr.\<close>

definition looks :: "ScanState \<Rightarrow> io \<Rightarrow> int \<times> ScanState \<times> io \<Rightarrow> cstr \<Rightarrow> cstr \<Rightarrow> bool" where
  "looks st s res lines diags =
     (case res of (r, st1, s1) \<Rightarrow>
        same_scan st st1 \<and> line_ready st1 \<and> out s1 = put_bytes lines (out s)
        \<and> (if fits (out s) lines
           then r = 0 \<and> op st1 = op st \<and> err s1 = put_bytes diags (err s)
             \<and> had_finding st1 = (had_finding st \<or> lines \<noteq> []) \<and> had_advisory st1 = (had_advisory st \<or> diags \<noteq> [])
           else r = -1 \<and> (op st = OP_NONE \<longrightarrow> op st1 = OP_STDOUT_WRITE)))"

lemma put_bytes_put: "put_bytes u (put_bytes t o1) = put_bytes (t @ u) o1"
  by (auto simp: put_bytes_def split: option.split)

lemma write_err: "err (snd (c_write Stdout t s)) = err s" "err (ignore_result (c_write Stderr t) s) = put_bytes t (err s)"
  by (simp_all add: c_write_def ignore_result_def Let_def)

lemma looks_nothing: "line_ready st \<Longrightarrow> looks st s (0, st, s) [] []"
  by (simp add: looks_def same_scan_def)

lemma looks_link: "line_ready st \<Longrightarrow> looks st s (0, st\<lparr>link_buf := b\<rparr>, s) [] []"
  by (simp add: looks_def same_scan_def line_ready_def)

lemma looks_advisory:
  assumes "line_ready st" and "st1 = st \<or> st1 = st\<lparr>link_buf := b\<rparr>"
  shows "looks st s (case emit_fd_advisory code fd st1 s of (st2, s1) \<Rightarrow> (0, st2, s1)) [] (verdict_note (pid st) fd (Advisory code))"
  using assms by (auto simp: looks_def same_scan_def line_ready_def emit_fd_advisory_def write_err)

lemma looks_finding:
  assumes "line_ready st" and "fd \<le> INT_MAX" and "bytes < 2 ^ 63" and "length target \<le> TARGET_LEN_CAP"
  shows "looks st s (case emit_finding (st\<lparr>link_buf := b\<rparr>) fd bytes target s of
      (r, st2, s1) \<Rightarrow> if r \<noteq> 0 then (-1, set_op OP_STDOUT_WRITE st2, s1) else (0, st2, s1))
    (unlinked_line (pid st) fd bytes target) []"
proof -
  let ?line = "unlinked_line (pid st) fd bytes target"
  let ?st = "st\<lparr>link_buf := b\<rparr>"
  obtain w s1 where w: "c_write Stdout ?line s = (w, s1)" by fastforce
  then have o: "out s1 = put_bytes ?line (out s)" "w = (if fits (out s) ?line then 0 else -1)" "err s1 = err s"
    using out_write [of ?line s] write_err(1) [of ?line s] by simp_all
  have "?line \<noteq> []" by (simp add: unlinked_line_def)
  moreover have "pid ?st = pid st" "line_buf ?st \<noteq> None" "line_cap ?st = finding_line_capacity" "pid st \<le> INT_MAX"
    using assms(1) by (simp_all add: line_ready_def)
  note e = emit_finding_ok [OF this(4) assms(2-4) this(1-3), of s]
  ultimately show ?thesis
    using o w assms(1) unfolding e
    by (auto simp: looks_def same_scan_def line_ready_def set_op_def Let_def)
qed

lemma inspect_one_looks:
  assumes ready: "line_ready st" and fd: "fd \<le> INT_MAX"
  shows "looks st s (inspect_one os fd st s) (verdict_line (pid st) fd (verdict_of os fd)) (verdict_note (pid st) fd (verdict_of os fd))"
proof -
  have name: "format_fd_name (INT_DECIMAL_BOUND + 1) fd = Some (dec fd)"
    using length_dec_int [OF fd] by (simp add: format_fd_name_def INT_DECIMAL_BOUND_def)
  have adv: "looks st s (case emit_fd_advisory code fd st1 s of (st2, s1) \<Rightarrow> (0, st2, s1)) [] (verdict_note (pid st) fd (Advisory code))"
    if "st1 = st \<or> (\<exists>b. st1 = st\<lparr>link_buf := b\<rparr>)" for st1 code
    using looks_advisory [OF ready] that by blast
  note step = inspect_one_def [of os fd st s, unfolded Let_def name option.case, folded lookup_code_def]
  show ?thesis
  proof (cases "o_fstatat os 0 (dec fd)")
    case (Inl e)
    then show ?thesis unfolding step verdict_of_def verdict_line.simps Inl sum.case by (intro adv) simp
  next
    case first: (Inr st1)
    show ?thesis
    proof (cases "S_ISREG (st_mode st1)")
      case False
      with first show ?thesis using looks_nothing [OF ready] unfolding step verdict_of_def by simp
    next
      case reg: True
      show ?thesis
      proof (cases "o_readlinkat os (dec fd)")
        case (Inl e)
        with first reg show ?thesis using adv [of st] unfolding step verdict_of_def by (simp del: verdict_note.simps(1))
      next
        case link: (Inr target)
        show ?thesis
        proof (cases "length target > TARGET_LEN_CAP")
          case True
          then have "length (take TARGET_BUF_SIZE target) = TARGET_BUF_SIZE" by (simp add: TARGET_BUF_SIZE_def TARGET_LEN_CAP_def)
          with first reg link True show ?thesis
            using adv [of "st\<lparr>link_buf := Some (take TARGET_BUF_SIZE target)\<rparr>"] unfolding step verdict_of_def
            by (simp del: verdict_note.simps(1)) blast
        next
          case False
          then have len: "take TARGET_BUF_SIZE target = target" "length target \<noteq> TARGET_BUF_SIZE" "\<not> length target > TARGET_LEN_CAP"
            "length target \<le> TARGET_LEN_CAP"
            by (simp_all add: TARGET_BUF_SIZE_def TARGET_LEN_CAP_def)
          let ?st = "st\<lparr>link_buf := Some target\<rparr>"
          have pre: "inspect_one os fd st s =
              (case o_fstatat os 1 (dec fd) of
                 Inl e \<Rightarrow> (case emit_fd_advisory (lookup_code (map_fstatat_errno e)) fd ?st s of (st2, s1) \<Rightarrow> (0, st2, s1))
               | Inr second \<Rightarrow>
                   if st_dev st1 \<noteq> st_dev second \<or> st_ino st1 \<noteq> st_ino second \<or> \<not> S_ISREG (st_mode second)
                   then (case emit_fd_advisory ''FD_UNSTABLE'' fd ?st s of (st2, s1) \<Rightarrow> (0, st2, s1))
                   else if st_nlink second \<noteq> 0 then (0, ?st, s)
                   else
                     (case convert_size (st_size second) of
                        None \<Rightarrow> (case emit_fd_advisory ''FD_SIZE_RANGE'' fd ?st s of (st2, s1) \<Rightarrow> (0, st2, s1))
                      | Some bytes \<Rightarrow>
                          (case emit_finding ?st fd bytes target s of
                             (r, st2, s1) \<Rightarrow> if r \<noteq> 0 then (-1, set_op OP_STDOUT_WRITE st2, s1) else (0, st2, s1))))"
            unfolding step first sum.case link len(1) using reg len(2,3) by simp
          have v: "verdict_of os fd =
              (case o_fstatat os 1 (dec fd) of
                 Inl e \<Rightarrow> Advisory (lookup_code (map_fstatat_errno e))
               | Inr second \<Rightarrow>
                   if st_dev st1 \<noteq> st_dev second \<or> st_ino st1 \<noteq> st_ino second \<or> \<not> S_ISREG (st_mode second)
                   then Advisory ''FD_UNSTABLE''
                   else if st_nlink second \<noteq> 0 then Nothing_to_report
                   else if st_size second < 0 \<or> 2 ^ 63 \<le> st_size second then Advisory ''FD_SIZE_RANGE''
                   else Unlinked (nat (st_size second)) target)"
            using first reg link len(3) by (simp add: verdict_of_def)
          have adv1: "looks st s (case emit_fd_advisory code fd ?st s of (st2, s1) \<Rightarrow> (0, st2, s1)) [] (verdict_note (pid st) fd (Advisory code))"
            for code using adv [of ?st code] by blast
          show ?thesis
          proof (cases "o_fstatat os 1 (dec fd)")
            case (Inl e)
            then show ?thesis using adv1 unfolding pre v by (simp del: verdict_note.simps(1))
          next
            case (Inr second)
            have "nat (st_size second) < 2 ^ 63" if "\<not> (st_size second < 0 \<or> 2 ^ 63 \<le> st_size second)"
              using that by (simp add: nat_less_iff)
            then show ?thesis
              unfolding pre v Inr sum.case convert_size_ok
              using adv1 looks_link [OF ready] looks_finding [OF ready fd _ len(4)]
              by (simp split: if_split del: verdict_note.simps(1))
          qed
        qed
      qed
    qed
  qed
qed

lemma looks_then:
  assumes a: "looks st s (r, st1, s1) l d" and f: "fits (out s) l" and b: "looks st1 s1 res l1 d1" and op: "op st = OP_NONE"
  shows "looks st s res (l @ l1) (d @ d1)"
proof -
  obtain r2 st2 s2 where res: "res = (r2, st2, s2)" by (cases res)
  from a f have a1: "same_scan st st1" "out s1 = put_bytes l (out s)" "op st1 = OP_NONE" "err s1 = put_bytes d (err s)"
      "had_finding st1 = (had_finding st \<or> l \<noteq> [])" "had_advisory st1 = (had_advisory st \<or> d \<noteq> [])"
    using op by (simp_all add: looks_def)
  from b res have b1: "same_scan st1 st2" "line_ready st2" "out s2 = put_bytes l1 (out s1)"
      "if fits (out s1) l1
       then r2 = 0 \<and> op st2 = op st1 \<and> err s2 = put_bytes d1 (err s1)
         \<and> had_finding st2 = (had_finding st1 \<or> l1 \<noteq> []) \<and> had_advisory st2 = (had_advisory st1 \<or> d1 \<noteq> [])
       else r2 = -1 \<and> (op st1 = OP_NONE \<longrightarrow> op st2 = OP_STDOUT_WRITE)"
    by (simp_all add: looks_def)
  have g: "fits (out s) (l @ l1) \<longleftrightarrow> fits (out s1) l1" using f a1(2) by (simp add: fits_append)
  have o: "out s2 = put_bytes (l @ l1) (out s)" using a1(2) b1(3) by (simp add: put_bytes_put)
  show ?thesis
    using same_scan_trans [OF a1(1) b1(1)] b1(2,4) a1 op o g
    by (cases "fits (out s1) l1") (simp_all add: looks_def res put_bytes_put)
qed

lemma looks_stop:
  assumes "looks st s (r, st1, s1) l d" and "\<not> fits (out s) l"
  shows "looks st s (-1, st1, s1) (l @ l1) (d @ d1)"
  using assms by (simp add: looks_def fits_append put_bytes_append)

lemma inspect_all_looks:
  assumes "line_ready st" and "\<forall>fd \<in> set fs. fd \<le> INT_MAX" and "op st = OP_NONE"
  shows "looks st s (inspect_all os fs st s) (scan_report os (pid st) fs) (advisories os (pid st) fs)"
  using assms
proof (induction fs arbitrary: st s)
  case Nil
  then show ?case by (simp add: scan_report_def advisories_def looks_nothing)
next
  case (Cons fd fs)
  let ?l = "verdict_line (pid st) fd (verdict_of os fd)" and ?d = "verdict_note (pid st) fd (verdict_of os fd)"
  obtain r st1 s1 where i: "inspect_one os fd st s = (r, st1, s1)" by (cases "inspect_one os fd st s")
  with inspect_one_looks [OF Cons.prems(1), of fd s os] Cons.prems(2) have l: "looks st s (r, st1, s1) ?l ?d" by simp
  have rep: "scan_report os p (fd # fs) = verdict_line p fd (verdict_of os fd) @ scan_report os p fs"
    "advisories os p (fd # fs) = verdict_note p fd (verdict_of os fd) @ advisories os p fs" for p
    by (simp_all add: scan_report_def advisories_def)
  show ?case
  proof (cases "fits (out s) ?l")
    case False
    with l have "r = -1" by (simp add: looks_def)
    with looks_stop [OF l False] i show ?thesis unfolding rep by simp
  next
    case True
    with l have st1: "r = 0" "line_ready st1" "op st1 = OP_NONE" "pid st1 = pid st"
      using Cons.prems(3) by (simp_all add: looks_def same_scan_def)
    have "looks st1 s1 (inspect_all os fs st1 s1) (scan_report os (pid st) fs) (advisories os (pid st) fs)"
      using Cons.IH [OF st1(2) _ st1(3), of s1] Cons.prems(2) st1(4) by simp
    from looks_then [OF l True this Cons.prems(3)] i st1(1) show ?thesis unfolding rep by simp
  qed
qed

end
