(* ===== verification/Openunlink.thy ===== *)
theory Openunlink
  imports Openunlink_Look
begin

text \<open>
  The scan of \<open>src/openunlink.c\<close> and its properties: the report under every fault, and that every
  descriptor is closed exactly once.  The directory listing the scan should work on is \<open>listed\<close>.
\<close>

section \<open>The listing\<close>

text \<open>
  Of the parsed names with room for \<open>k\<close> descriptors: the descriptors and whether there were more,
  or \<open>None\<close> when a name that is reached is no descriptor number or the end was an error.
\<close>

definition enumerated :: "nat \<Rightarrow> nat option list \<Rightarrow> nat \<Rightarrow> (nat list \<times> bool) option" where
  "enumerated k ps e =
     (if None \<in> set (take (k + 1) ps) then None
      else if length ps > k then Some (map the (take k ps), True)
      else if e \<noteq> 0 then None else Some (map the ps, False))"

definition is_entry :: "cstr \<Rightarrow> bool" where "is_entry n \<longleftrightarrow> n \<noteq> ''.'' \<and> n \<noteq> ''..''"

definition listed :: "scan_os \<Rightarrow> (nat list \<times> bool) option" where
  "listed os = enumerated FD_RETAIN_CAP (map parse_fd_name (filter is_entry (fst (o_readdir os)))) (snd (o_readdir os))"

lemma enumerated_Cons:
  "enumerated k (Some fd # ps) e =
     (if k = 0 then Some ([], True) else map_option (\<lambda>(l, m). (fd # l, m)) (enumerated (k - 1) ps e))"
  by (cases k) (auto simp: enumerated_def)

lemma enumerated_None: "enumerated k (None # ps) e = None"
  by (simp add: enumerated_def)

lemma enumerate_fds_ok:
  assumes "fds st = Some a" and "length a = FD_RETAIN_CAP" and "fd_count st \<le> FD_RETAIN_CAP"
  shows "\<exists>r a1 n m. enumerate_fds names e st
      = (r, (if r = 0 then id else set_op OP_PROCESS_SCAN) (st\<lparr>fds := Some a1, fd_count := n, fd_count_limit := m\<rparr>))
    \<and> length a1 = FD_RETAIN_CAP \<and> n \<le> FD_RETAIN_CAP
    \<and> (case enumerated (FD_RETAIN_CAP - fd_count st) (map parse_fd_name (filter is_entry names)) e of
         None \<Rightarrow> r = -1
       | Some (l, rest) \<Rightarrow> r = 0 \<and> m = (fd_count_limit st \<or> rest) \<and> take n a1 = take (fd_count st) a @ l)"
  using assms
proof (induction names e st arbitrary: a rule: enumerate_fds.induct)
  case (1 e st)
  have same: "st\<lparr>fds := Some a, fd_count := fd_count st, fd_count_limit := fd_count_limit st\<rparr> = st"
    using 1 by (cases st) simp
  show ?case using 1
    by (intro exI [of _ "if e \<noteq> 0 then -1 else 0"] exI [of _ a] exI [of _ "fd_count st"] exI [of _ "fd_count_limit st"],
        unfold same) (simp add: enumerated_def)
next
  case (2 name names e st)
  have same: "st\<lparr>fds := Some a, fd_count := fd_count st, fd_count_limit := fd_count_limit st\<rparr> = st"
      "st\<lparr>fds := Some a, fd_count := fd_count st, fd_count_limit := True\<rparr> = st\<lparr>fd_count_limit := True\<rparr>"
    using "2.prems" by (cases st; simp)+
  show ?case
  proof (cases "is_entry name")
    case False
    with "2.IH"(1) "2.prems" show ?thesis by (auto simp: is_entry_def)
  next
    case entry: True
    show ?thesis
    proof (cases "parse_fd_name name")
      case None
      with entry "2.prems" show ?thesis
        by (intro exI [of _ "-1"] exI [of _ a] exI [of _ "fd_count st"] exI [of _ "fd_count_limit st"], unfold same)
          (simp add: is_entry_def enumerated_None)
    next
      case (Some fd)
      let ?st = "st\<lparr>fds := map_option (\<lambda>a. a[fd_count st := fd]) (fds st), fd_count := fd_count st + 1\<rparr>"
      show ?thesis
      proof (cases "fd_count st \<ge> FD_RETAIN_CAP")
        case True
        with Some entry "2.prems" show ?thesis
          by (intro exI [of _ 0] exI [of _ a] exI [of _ "fd_count st"] exI [of _ True], unfold same)
            (simp add: is_entry_def enumerated_Cons)
      next
        case False
        have st: "fds ?st = Some (a[fd_count st := fd])" "length (a[fd_count st := fd]) = FD_RETAIN_CAP"
          "fd_count ?st \<le> FD_RETAIN_CAP" using "2.prems" False by simp_all
        have step: "enumerate_fds (name # names) e st = enumerate_fds names e ?st"
          using entry Some False by (simp add: is_entry_def)
        have tk: "take (fd_count st + 1) (a[fd_count st := fd]) = take (fd_count st) a @ [fd]"
          using "2.prems" False by (simp add: take_Suc_conv_app_nth)
        have named: "\<not> (strcmp name ''.'' = 0 \<or> strcmp name ''..'' = 0)" using entry by (simp add: is_entry_def)
        from "2.IH"(2) [OF named Some False st] obtain r a1 n m where ih:
          "enumerate_fds names e ?st
            = (r, (if r = 0 then id else set_op OP_PROCESS_SCAN) (?st\<lparr>fds := Some a1, fd_count := n, fd_count_limit := m\<rparr>))"
          "length a1 = FD_RETAIN_CAP" "n \<le> FD_RETAIN_CAP"
          "case enumerated (FD_RETAIN_CAP - fd_count ?st) (map parse_fd_name (filter is_entry names)) e of
             None \<Rightarrow> r = -1
           | Some (l, rest) \<Rightarrow> r = 0 \<and> m = (fd_count_limit ?st \<or> rest) \<and> take n a1 = take (fd_count ?st) (a[fd_count st := fd]) @ l"
          by blast
        show ?thesis unfolding step ih(1)
          using ih(2-4) entry Some False tk
          by (intro exI [of _ r] exI [of _ a1] exI [of _ n] exI [of _ m])
            (auto simp: enumerated_Cons split: option.splits)
      qed
    qed
  qed
qed

lemma has_adjacent_duplicate_sorted: "sorted xs \<Longrightarrow> has_adjacent_duplicate xs \<longleftrightarrow> \<not> distinct xs"
  by (induction xs rule: has_adjacent_duplicate.induct) (auto simp: order_le_less)

lemma sort_and_check_ok:
  assumes "fds st = Some a" and "fd_count st \<le> length a"
  shows "\<exists>a1. sort_and_check_duplicates st =
      (if distinct (retained st) then (0, st\<lparr>fds := Some a1\<rparr>) else (-1, set_op OP_PROCESS_SCAN (st\<lparr>fds := Some a1\<rparr>)))
    \<and> retained (st\<lparr>fds := Some a1\<rparr>) = sort (retained st)"
proof -
  have cmp: "qsort_by fd_cmp xs = sort xs" for xs
    using qsort_by_key [of fd_cmp "\<lambda>x. x" xs] by (simp add: fd_cmp_def)
  let ?a = "sort (take (fd_count st) a) @ drop (fd_count st) a"
  define a1 where "a1 = (if fd_count st > 1 then ?a else a)"
  have r: "retained (st\<lparr>fds := Some a1\<rparr>) = sort (retained st)"
  proof (cases "fd_count st > 1")
    case True
    with assms show ?thesis by (simp add: retained_def a1_def)
  next
    case False
    then have "length (take (fd_count st) a) \<le> 1" by simp
    then have "sort (take (fd_count st) a) = take (fd_count st) a" by (cases "take (fd_count st) a") (auto split: list.splits)
    with False assms show ?thesis by (simp add: retained_def a1_def)
  qed
  have "(if fd_count st > 1 then st\<lparr>fds := map_option (\<lambda>a. qsort_by fd_cmp (take (fd_count st) a) @ drop (fd_count st) a) (fds st)\<rparr> else st)
      = st\<lparr>fds := Some a1\<rparr>" using assms by (simp add: a1_def cmp)
  then have "sort_and_check_duplicates st =
      (if has_adjacent_duplicate (sort (retained st)) then (-1, set_op OP_PROCESS_SCAN (st\<lparr>fds := Some a1\<rparr>)) else (0, st\<lparr>fds := Some a1\<rparr>))"
    using r by (simp add: sort_and_check_duplicates_def Let_def)
  then show ?thesis using r has_adjacent_duplicate_sorted [of "sort (retained st)"] by auto
qed

section \<open>Ownership of descriptors\<close>

definition opt_list :: "'a option \<Rightarrow> 'a list" where
  "opt_list x = (case x of None \<Rightarrow> [] | Some a \<Rightarrow> [a])"

lemma opt_list_simps [simp]: "opt_list None = []" "opt_list (Some a) = [a]"
  by (simp_all add: opt_list_def)

definition held :: "ScanState \<Rightarrow> nat list" where
  "held st = opt_list (dir_fd st) @ opt_list (dup_fd st) @ opt_list (dir st)"

text \<open>The descriptors that were opened: those that are closed and those that are still held.\<close>

definition owns :: "ScanState \<Rightarrow> nat multiset" where
  "owns st = mset (closes st) + mset (held st)"

definition opened :: "scan_os \<Rightarrow> nat \<Rightarrow> nat list" where
  "opened os p = (case o_open os (process_path p) of Inl e \<Rightarrow> [] | Inr d \<Rightarrow> d # opt_list (o_dup os d))"

lemma set_op_simps [simp]:
  "pid (set_op c st) = pid st" "dir_fd (set_op c st) = dir_fd st" "dup_fd (set_op c st) = dup_fd st"
  "dir (set_op c st) = dir st" "closes (set_op c st) = closes st" "fds (set_op c st) = fds st"
  "op (set_op c st) = (if op st = OP_NONE then c else op st)"
  by (simp_all add: set_op_def)

lemma owns_cong: "dir_fd a = dir_fd b \<Longrightarrow> dup_fd a = dup_fd b \<Longrightarrow> dir a = dir b \<Longrightarrow> closes a = closes b \<Longrightarrow> owns a = owns b"
  by (simp add: owns_def held_def)

lemma owns_set_op [simp]: "owns (set_op c st) = owns st"
  by (rule owns_cong) simp_all

lemma owns_same_scan: "same_scan st st1 \<Longrightarrow> owns st1 = owns st"
  by (rule owns_cong) (simp_all add: same_scan_def)

lemma cleanup_closes:
  "mset (closes (cleanup_scan st)) = owns st" "held (cleanup_scan st) = []"
  "fds (cleanup_scan st) = None" "link_buf (cleanup_scan st) = None" "line_buf (cleanup_scan st) = None"
  if "dir st = None \<or> dup_fd st = None"
  using that by (auto simp: cleanup_scan_def owns_def held_def Let_def split: option.splits)

section \<open>The end of the scan\<close>

definition stdout_takes :: "cstr \<Rightarrow> io \<Rightarrow> bool" where
  "stdout_takes t s \<longleftrightarrow> fits (out s) t \<and> \<not> ferr (out s) \<and> flush_errno (out s) = None"

definition limit_note :: "nat \<Rightarrow> bool \<Rightarrow> cstr" where
  "limit_note p limit = (if limit then ''openunlink: FD_COUNT_LIMIT: pid='' @ dec p @ [LF] else [])"

lemma flush_takes:
  assumes "out s2 = put_bytes t (out s)" and "fits (out s) t"
  shows "(case c_fflush Stdout s2 of (f, s3) \<Rightarrow> f \<noteq> 0 \<or> c_ferror Stdout s3) \<longleftrightarrow> \<not> stdout_takes t s"
    and "stdout_takes t s \<Longrightarrow> c_fflush Stdout s2 = (0, s2)"
  using assms put_bytes_sent(2,3) [of t "out s"]
  by (auto simp: stdout_takes_def c_fflush_def c_ferror_def split: option.split)

lemma scan_tail_ok:
  assumes st: "op st = OP_NONE" "\<not> had_finding st" "\<not> had_advisory st" "line_ready st" "dir st = Some d" "dir_fd st = Some d0"
      "fds st = Some a" "length a = FD_RETAIN_CAP" "fd_count st \<le> FD_RETAIN_CAP" "\<forall>fd \<in> set (retained st). fd \<le> INT_MAX"
    and run: "scan_tail os st s = (r, st1, s1)"
  shows "owns st1 = owns st \<and> (dir st1 = None)
    \<and> (if o_closedir os \<and> distinct (retained st) \<and> stdout_takes (scan_report os (pid st) (sort (retained st))) s \<and> o_close os
       then op st1 = OP_NONE
         \<and> (had_finding st1 \<or> had_advisory st1 \<longleftrightarrow> fd_count_limit st
              \<or> scan_report os (pid st) (sort (retained st)) \<noteq> [] \<or> advisories os (pid st) (sort (retained st)) \<noteq> [])
         \<and> out s1 = put_bytes (scan_report os (pid st) (sort (retained st))) (out s)
         \<and> err s1 = put_bytes (limit_note (pid st) (fd_count_limit st) @ advisories os (pid st) (sort (retained st))) (err s)
       else op st1 \<noteq> OP_NONE)"
proof -
  let ?closed = "st\<lparr>dir := None, closes := closes st @ [d]\<rparr>"
  have ow: "owns ?closed = owns st" using st(5) by (simp add: owns_def held_def)
  have ret: "retained ?closed = retained st" using st(7) by (simp add: retained_def)
  from sort_and_check_ok [of ?closed a] st(7-9) obtain a1 where srt:
    "sort_and_check_duplicates ?closed =
      (if distinct (retained st) then (0, ?closed\<lparr>fds := Some a1\<rparr>) else (-1, set_op OP_PROCESS_SCAN (?closed\<lparr>fds := Some a1\<rparr>)))"
    "retained (?closed\<lparr>fds := Some a1\<rparr>) = sort (retained st)" unfolding ret by auto
  let ?st1 = "?closed\<lparr>fds := Some a1\<rparr>"
  have ow1: "owns ?st1 = owns st" unfolding ow [symmetric] by (rule owns_cong) simp_all
  show ?thesis
  proof (cases "o_closedir os \<and> distinct (retained st)")
    case False
    then consider "\<not> o_closedir os" | "o_closedir os" "\<not> distinct (retained st)" by blast
    then show ?thesis
    proof cases
      case 1
      with run st(1,5) have "st1 = set_op OP_PROCESS_SCAN ?closed" by (simp add: scan_tail_def)
      with 1 ow st(1) show ?thesis by simp
    next
      case 2
      with run st(1,5) srt(1) have "st1 = set_op OP_PROCESS_SCAN ?st1" by (simp add: scan_tail_def)
      with 2 ow1 st(1) show ?thesis by simp
    qed
  next
    case True
    define st2 where "st2 = (if fd_count_limit st then ?st1\<lparr>had_advisory := True\<rparr> else ?st1)"
    define s2 where "s2 = (if fd_count_limit st then ignore_result (c_write Stderr (limit_note (pid st) True)) s else s)"
    have count: "(if fd_count_limit ?st1 then emit_count_advisory ?st1 s else (?st1, s)) = (st2, s2)"
      by (simp add: emit_count_advisory_def st2_def s2_def limit_note_def)
    have s2: "out s2 = out s" "err s2 = put_bytes (limit_note (pid st) (fd_count_limit st)) (err s)"
      by (simp_all add: s2_def limit_note_def write_err)
    have st2: "line_ready st2" "op st2 = OP_NONE" "\<not> had_finding st2" "had_advisory st2 = fd_count_limit st" "pid st2 = pid st"
        "retained st2 = sort (retained st)" "dir st2 = None" "dir_fd st2 = Some d0"
      using st srt(2) by (simp_all add: st2_def line_ready_def retained_def)
    have ow2: "owns st2 = owns st" unfolding ow1 [symmetric] by (rule owns_cong) (simp_all add: st2_def)
    obtain q st3 s3 where i: "inspect_all os (sort (retained st)) st2 s2 = (q, st3, s3)"
      by (cases "inspect_all os (sort (retained st)) st2 s2")
    let ?rep = "scan_report os (pid st) (sort (retained st))" and ?adv = "advisories os (pid st) (sort (retained st))"
    from inspect_all_looks [OF st2(1) _ st2(2), of "sort (retained st)" s2 os] i st(10) st2(5)
    have l: "looks st2 s2 (q, st3, s3) ?rep ?adv" by simp
    have ow3: "owns st3 = owns st" using l owns_same_scan [of st2 st3] ow2 by (simp add: looks_def)
    have d3: "dir st3 = None" "dir_fd st3 = Some d0" using l st2(7,8) by (simp_all add: looks_def same_scan_def)
    have step: "scan_tail os st s =
        (if q \<noteq> 0 then (-1, st3, s3)
         else (case c_fflush Stdout s3 of
                 (f, s4) \<Rightarrow>
                   if f \<noteq> 0 \<or> c_ferror Stdout s4 then (-1, set_op OP_STDOUT_WRITE st3, s4)
                   else (let st4 = st3\<lparr>dir_fd := None, closes := closes st3 @ [d0]\<rparr> in
                     if \<not> o_close os then (-1, set_op OP_PROCESS_SCAN st4, s4) else (0, st4, s4))))"
      using True st(5) srt(1) count st2(6) i d3(2) by (simp add: scan_tail_def Let_def split: prod.split)
    show ?thesis
    proof (cases "fits (out s) ?rep")
      case False
      with l s2(1) st2(2) have "q = -1" "op st3 = OP_STDOUT_WRITE" by (simp_all add: looks_def)
      with step run False ow3 d3 show ?thesis by (auto simp: stdout_takes_def)
    next
      case fit: True
      with l s2 st2 have q: "q = 0" "op st3 = OP_NONE" "had_finding st3 = (?rep \<noteq> [])"
        "had_advisory st3 = (fd_count_limit st \<or> ?adv \<noteq> [])" "out s3 = put_bytes ?rep (out s)"
        "err s3 = put_bytes (limit_note (pid st) (fd_count_limit st) @ ?adv) (err s)"
        by (simp_all add: looks_def put_bytes_put)
      obtain f s4 where f: "c_fflush Stdout s3 = (f, s4)" by fastforce
      note fl = flush_takes [OF q(5) fit]
      show ?thesis
      proof (cases "stdout_takes ?rep s")
        case False
        with fl(1) f have "f \<noteq> 0 \<or> c_ferror Stdout s4" by simp
        with step run f q(1) have "st1 = set_op OP_STDOUT_WRITE st3" by (auto split: if_splits)
        with False ow3 d3 q(2) show ?thesis by simp
      next
        case takes: True
        have fs: "f = 0" "s4 = s3" "\<not> c_ferror Stdout s3" using fl takes f by auto
        let ?st4 = "st3\<lparr>dir_fd := None, closes := closes st3 @ [d0]\<rparr>"
        have ow4: "owns ?st4 = owns st" unfolding ow3 [symmetric] using d3 by (simp add: owns_def held_def)
        from step run f fs q(1) have "(st1, s1) = (if \<not> o_close os then (set_op OP_PROCESS_SCAN ?st4, s3) else (?st4, s3))"
          by (auto simp: Let_def split: if_splits)
        with ow4 d3 q takes True show ?thesis by (cases "o_close os") auto
      qed
    qed
  qed
qed

section \<open>The whole scan\<close>

definition granted :: "nat \<Rightarrow> io \<Rightarrow> bool" where
  "granted k s = (case mem s of None \<Rightarrow> True | Some n \<Rightarrow> k \<le> n)"

lemma c_malloc_granted:
  "c_malloc s = (b, s1) \<Longrightarrow> b = granted 1 s \<and> (b \<longrightarrow> granted k s1 = granted (Suc k) s) \<and> out s1 = out s \<and> err s1 = err s"
  by (auto simp: c_malloc_def granted_def split: option.splits nat.splits)

lemma granted_mono: "granted k s \<Longrightarrow> j \<le> k \<Longrightarrow> granted j s"
  by (auto simp: granted_def split: option.splits)

lemma allocate_ok:
  assumes "allocate_scan_buffers st s = (r, st1, s1)" and "op st = OP_NONE"
  shows "out s1 = out s \<and> err s1 = err s \<and> owns st1 = owns st \<and> dir st1 = dir st \<and> dup_fd st1 = dup_fd st
    \<and> (if granted 3 s
       then r = 0 \<and> st1 = st\<lparr>line_cap := finding_line_capacity, fds := Some (replicate FD_RETAIN_CAP 0),
              link_buf := Some [], line_buf := Some []\<rparr>
       else r = -1 \<and> op st1 \<noteq> OP_NONE)"
proof -
  obtain b1 t1 where m1: "c_malloc s = (b1, t1)" by fastforce
  obtain b2 t2 where m2: "c_malloc t1 = (b2, t2)" by fastforce
  obtain b3 t3 where m3: "c_malloc t2 = (b3, t3)" by fastforce
  note g = c_malloc_granted [OF m1, of 1] c_malloc_granted [OF m1, of 2] c_malloc_granted [OF m2, of 1] c_malloc_granted [OF m3, of 1]
  have three: "granted 3 s \<longleftrightarrow> b1 \<and> b2 \<and> b3"
    using g granted_mono [of 3 s 1] granted_mono [of 3 s 2] by (auto simp: numeral_2_eq_2 numeral_3_eq_3)
  have mul: "size_mul FD_RETAIN_CAP 4 = Some 262144" by (simp add: size_mul_def FD_RETAIN_CAP_def SIZE_MAX_def)
  have run: "allocate_scan_buffers st s =
      (let st0 = st\<lparr>line_cap := finding_line_capacity\<rparr>; st1 = st0\<lparr>fds := Some (replicate FD_RETAIN_CAP 0)\<rparr>;
           st2 = st1\<lparr>link_buf := Some []\<rparr> in
       if \<not> b1 then (-1, set_op OP_MEMORY st0, t1) else if \<not> b2 then (-1, set_op OP_MEMORY st1, t2)
       else if \<not> b3 then (-1, set_op OP_MEMORY st2, t3) else (0, st2\<lparr>line_buf := Some []\<rparr>, t3))"
    unfolding allocate_scan_buffers_def mul by (simp add: line_capacity Let_def m1 m2 m3)
  show ?thesis
    using assms g three unfolding run Let_def
    by (cases b1; cases b2; cases b3) (auto simp: owns_def held_def)
qed

text \<open>What has to hold for a scan without an operational error.\<close>

definition scan_opens :: "scan_os \<Rightarrow> nat \<Rightarrow> bool" where
  "scan_opens os p =
     (case o_open os (process_path p) of
        Inl e \<Rightarrow> False
      | Inr d \<Rightarrow> (case o_dup os d of None \<Rightarrow> False | Some e \<Rightarrow> o_fdopendir os e))"

definition scan_good :: "scan_os \<Rightarrow> nat \<Rightarrow> io \<Rightarrow> nat list \<Rightarrow> bool \<Rightarrow> bool" where
  "scan_good os p s fs limit \<longleftrightarrow> scan_opens os p \<and> granted 3 s \<and> listed os = Some (fs, limit) \<and> distinct fs
     \<and> o_closedir os \<and> o_close os \<and> stdout_takes (scan_report os p (sort fs)) s"

definition scan_notes :: "scan_os \<Rightarrow> nat \<Rightarrow> nat list \<Rightarrow> bool \<Rightarrow> cstr" where
  "scan_notes os p fs limit = limit_note p limit @ advisories os p (sort fs)"

lemma listed_ints:
  assumes "listed os = Some (fs, limit)"
  shows "\<forall>fd \<in> set fs. fd \<le> INT_MAX"
proof -
  let ?ps = "map parse_fd_name (filter is_entry (fst (o_readdir os)))"
  have "x \<le> INT_MAX" if "Some x \<in> set ?ps" for x using that fd_numeral.parse by (auto simp: image_iff) metis
  moreover have "Some fd \<in> set ?ps" if fd: "fd \<in> set fs" for fd
  proof -
    have n: "None \<notin> set (take (FD_RETAIN_CAP + 1) ?ps)" and
      f: "fs = map the (take FD_RETAIN_CAP ?ps) \<or> fs = map the ?ps \<and> length ?ps \<le> FD_RETAIN_CAP"
      using assms by (auto simp: listed_def enumerated_def split: if_splits)
    then have "fs = map the (take FD_RETAIN_CAP ?ps)" by auto
    then obtain q where "q \<in> set (take FD_RETAIN_CAP ?ps)" "fd = the q" using fd by auto
    moreover from this(1) have "q \<in> set (take (FD_RETAIN_CAP + 1) ?ps)"
      using set_take_subset_set_take [of FD_RETAIN_CAP "FD_RETAIN_CAP + 1" ?ps] by auto
    ultimately show ?thesis using n in_set_takeD by (metis option.exhaust_sel)
  qed
  ultimately show ?thesis by blast
qed

lemma process_path_fits: "p \<le> INT_MAX \<Longrightarrow> length (process_path p) < process_path_capacity"
  using length_dec_int [of p] by (simp add: process_path_def line_capacity)

lemma run_scan_ok:
  assumes p: "p \<le> INT_MAX" and run: "run_scan os (initial_state p) s = (r, st, s1)"
  shows "owns st = mset (opened os p) \<and> (dir st = None \<or> dup_fd st = None)
    \<and> (if \<exists>fs limit. scan_good os p s fs limit
       then \<exists>fs limit. scan_good os p s fs limit \<and> op st = OP_NONE
         \<and> (had_finding st \<or> had_advisory st \<longleftrightarrow> limit \<or> scan_report os p (sort fs) \<noteq> [] \<or> advisories os p (sort fs) \<noteq> [])
         \<and> out s1 = put_bytes (scan_report os p (sort fs)) (out s) \<and> err s1 = put_bytes (scan_notes os p fs limit) (err s)
       else op st \<noteq> OP_NONE)"
proof -
  let ?st0 = "initial_state p"
  have cap: "\<not> (process_path_capacity = 0 \<or> process_path_capacity > 7 + INT_DECIMAL_BOUND + 4)"
    "\<not> length (process_path (pid ?st0)) \<ge> process_path_capacity"
    using process_path_fits [OF p] by (simp_all add: line_capacity INT_DECIMAL_BOUND_def initial_state_def)
  note start = run_scan_def [of os ?st0 s, unfolded if_not_P [OF cap(1)] if_not_P [OF cap(2)]]
  have init: "op ?st0 = OP_NONE" "pid ?st0 = p" "owns ?st0 = {#}" by (simp_all add: initial_state_def owns_def held_def)
  show ?thesis
  proof (cases "o_open os (process_path p)")
    case (Inl e)
    then have "st \<in> {set_op OP_PROCESS_NOT_FOUND ?st0, set_op OP_PROCESS_ACCESS ?st0, set_op OP_PROCESS_SCAN ?st0}"
      using run unfolding start init(2) by (auto split: if_splits)
    then have "owns st = {#} \<and> op st \<noteq> OP_NONE \<and> dir st = None" using init by (auto simp: initial_state_def)
    with Inl show ?thesis by (simp add: scan_good_def scan_opens_def opened_def)
  next
    case fd: (Inr d)
    let ?st1 = "?st0\<lparr>dir_fd := Some d, dup_fd := o_dup os d\<rparr>"
    show ?thesis
    proof (cases "o_dup os d")
      case None
      with run fd have "st = set_op OP_PROCESS_SCAN ?st1" unfolding start init(2) by (simp add: Let_def)
      with None fd show ?thesis by (simp add: scan_good_def scan_opens_def opened_def initial_state_def owns_def held_def)
    next
      case dup: (Some e)
      have ow1: "owns ?st1 = mset (opened os p)" using fd dup by (simp add: owns_def held_def opened_def initial_state_def)
      obtain q st2 s2 where al: "allocate_scan_buffers ?st1 s = (q, st2, s2)" by (cases "allocate_scan_buffers ?st1 s")
      have "op ?st1 = OP_NONE" by (simp add: initial_state_def)
      note a = allocate_ok [OF al this]
      have dirs: "dir ?st1 = None" by (simp add: initial_state_def)
      let ?st3 = "st2\<lparr>dir := Some e, dup_fd := None\<rparr>"
      have step: "run_scan os ?st0 s =
          (if q \<noteq> 0 then (-1, st2, s2) else if \<not> o_fdopendir os e then (-1, set_op OP_PROCESS_SCAN st2, s2)
           else (case enumerate_fds (fst (o_readdir os)) (snd (o_readdir os)) ?st3 of
                   (r1, st4) \<Rightarrow> if r1 \<noteq> 0 then (-1, st4, s2) else scan_tail os st4 s2))"
        unfolding start init(2) fd sum.case Let_def using dup al by simp
      show ?thesis
      proof (cases "granted 3 s \<and> o_fdopendir os e")
        case False
        have "owns st = owns ?st1 \<and> op st \<noteq> OP_NONE \<and> dir st = None"
        proof (cases "granted 3 s")
          case True
          with a step run False dirs show ?thesis by auto
        next
          case ng: False
          with a step run dirs show ?thesis by auto
        qed
        with ow1 False fd dup show ?thesis by (auto simp: scan_good_def scan_opens_def)
      next
        case True
        with a have q: "q = 0" and st2: "st2 = ?st1\<lparr>line_cap := finding_line_capacity, fds := Some (replicate FD_RETAIN_CAP 0),
            link_buf := Some [], line_buf := Some []\<rparr>" by simp_all
        have st3: "fds ?st3 = Some (replicate FD_RETAIN_CAP 0)" "length (replicate FD_RETAIN_CAP (0::nat)) = FD_RETAIN_CAP"
            "fd_count ?st3 \<le> FD_RETAIN_CAP" "fd_count ?st3 = 0" "fd_count_limit ?st3 = False"
          unfolding st2 by (simp_all add: initial_state_def)
        have ow3: "owns ?st3 = mset (opened os p)"
          unfolding ow1 [symmetric] st2 using dup by (simp add: owns_def held_def initial_state_def)
        from enumerate_fds_ok [OF st3(1-3), of "fst (o_readdir os)" "snd (o_readdir os)"] obtain k a1 n m where en:
          "enumerate_fds (fst (o_readdir os)) (snd (o_readdir os)) ?st3
            = (k, (if k = 0 then id else set_op OP_PROCESS_SCAN) (?st3\<lparr>fds := Some a1, fd_count := n, fd_count_limit := m\<rparr>))"
          "length a1 = FD_RETAIN_CAP" "n \<le> FD_RETAIN_CAP"
          "case listed os of None \<Rightarrow> k = -1 | Some (l, rest) \<Rightarrow> k = 0 \<and> m = rest \<and> take n a1 = l"
          unfolding st3(4,5) by (simp only: diff_zero take_0 append_Nil simp_thms flip: listed_def) (elim exE conjE, rule that)
        let ?st4 = "?st3\<lparr>fds := Some a1, fd_count := n, fd_count_limit := m\<rparr>"
        have ow4: "owns ?st4 = mset (opened os p)" unfolding ow3 [symmetric] by (rule owns_cong) simp_all
        show ?thesis
        proof (cases "listed os")
          case None
          with en(1,4) step run q True have "st = set_op OP_PROCESS_SCAN ?st4" by simp
          moreover have "op ?st4 = OP_NONE" unfolding st2 by (simp add: initial_state_def)
          ultimately show ?thesis using None ow4 by (simp add: scan_good_def)
        next
          case (Some fl)
          obtain fs limit where fl: "fl = (fs, limit)" by (cases fl)
          with Some en(4) have k: "k = 0" "m = limit" "take n a1 = fs" by simp_all
          have tail: "scan_tail os ?st4 s2 = (r, st, s1)" using step run q True en(1) k(1) by simp
          have st4: "op ?st4 = OP_NONE" "\<not> had_finding ?st4" "\<not> had_advisory ?st4" "line_ready ?st4" "dir ?st4 = Some e"
              "dir_fd ?st4 = Some d" "fds ?st4 = Some a1" "fd_count ?st4 \<le> FD_RETAIN_CAP" "retained ?st4 = fs"
              "pid ?st4 = p" "fd_count_limit ?st4 = limit"
            unfolding st2 using k en(3) p by (simp_all add: initial_state_def line_ready_def retained_def)
          have ints: "\<forall>fd \<in> set (retained ?st4). fd \<le> INT_MAX" using listed_ints Some fl st4(9) by simp
          note t = scan_tail_ok [OF st4(1-7) en(2) st4(8) ints tail, unfolded st4(9-11)]
          have s2: "out s2 = out s" "err s2 = err s" using a by simp_all
          have tk: "stdout_takes u s2 = stdout_takes u s" for u using s2 by (simp add: stdout_takes_def)
          have good: "scan_good os p s gs lim \<longleftrightarrow> gs = fs \<and> lim = limit \<and> o_closedir os \<and> distinct fs
              \<and> stdout_takes (scan_report os p (sort fs)) s \<and> o_close os" for gs lim
            using Some fl fd dup True by (auto simp: scan_good_def scan_opens_def)
          show ?thesis
            using t ow4 unfolding good tk s2 by (auto simp: scan_notes_def split: if_splits)
        qed
      qed
    qed
  qed
qed

lemma report_silent:
  "scan_report os p fs = [] \<and> advisories os p fs = [] \<longleftrightarrow> (\<forall>fd \<in> set fs. verdict_of os fd = Nothing_to_report)"
proof -
  have "verdict_line p fd v = [] \<and> verdict_note p fd v = [] \<longleftrightarrow> v = Nothing_to_report" for fd v
    by (cases v) (simp_all add: unlinked_line_def)
  then show ?thesis by (auto simp: scan_report_def advisories_def)
qed

lemma main_scans:
  assumes "1 \<le> p" and "p \<le> INT_MAX"
  shows "main os [a0, dec p] s = (case scan_process os p s of (status, st, s1) \<Rightarrow> (status, s1))"
proof -
  have "dec p \<noteq> CHR ''-'' # t" for t using dec_digits [of "CHR ''-''" p] by (auto simp: is_digit_def)
  then show ?thesis using pid_numeral.parse_dec [OF assms] by (simp add: main_def)
qed

lemma scan_good_unique: "scan_good os p s fs l \<Longrightarrow> scan_good os p s gs m \<Longrightarrow> gs = fs \<and> m = l"
  by (simp add: scan_good_def)

lemma scan_process_bad:
  assumes "p \<le> INT_MAX" and "scan_process os p s = (status, st, s1)" and "\<nexists>fs limit. scan_good os p s fs limit"
  shows "status = 2"
proof -
  obtain r st0 s0 where rs: "run_scan os (initial_state p) s = (r, st0, s0)" by (cases "run_scan os (initial_state p) s")
  with assms(2) have "status = finish_status st0" by (simp add: scan_process_def)
  with run_scan_ok [OF assms(1) rs] assms(3) show ?thesis by (simp add: finish_status_def)
qed

lemma scan_process_good:
  assumes p: "p \<le> INT_MAX" and run: "scan_process os p s = (status, st, s1)" and good: "scan_good os p s fs limit"
  shows "status = (if limit \<or> (\<exists>fd \<in> set fs. verdict_of os fd \<noteq> Nothing_to_report) then 1 else 0)"
    and "out s1 = put_bytes (scan_report os p (sort fs)) (out s)" and "err s1 = put_bytes (scan_notes os p fs limit) (err s)"
proof -
  obtain r st0 s0 where rs: "run_scan os (initial_state p) s = (r, st0, s0)" by (cases "run_scan os (initial_state p) s")
  with run have e: "status = finish_status st0" "s1 = emit_operational st0 s0" by (simp_all add: scan_process_def)
  from run_scan_ok [OF p rs] good obtain gs m where g0: "scan_good os p s gs m" and g: "op st0 = OP_NONE"
      "had_finding st0 \<or> had_advisory st0 \<longleftrightarrow> m \<or> scan_report os p (sort gs) \<noteq> [] \<or> advisories os p (sort gs) \<noteq> []"
      "out s0 = put_bytes (scan_report os p (sort gs)) (out s)" "err s0 = put_bytes (scan_notes os p gs m) (err s)"
    by (auto split: if_splits)
  from scan_good_unique [OF good g0] have same: "gs = fs" "m = limit" by simp_all
  have "s1 = s0" using e(2) g(1) by (simp add: emit_operational_def)
  with g show "out s1 = put_bytes (scan_report os p (sort fs)) (out s)" "err s1 = put_bytes (scan_notes os p fs limit) (err s)"
    unfolding same by simp_all
  show "status = (if limit \<or> (\<exists>fd \<in> set fs. verdict_of os fd \<noteq> Nothing_to_report) then 1 else 0)"
    using e(1) g(1,2) report_silent [of os p "sort fs"] unfolding same by (simp add: finish_status_def) blast
qed

section \<open>Properties\<close>

text \<open>
  C29. The report can be trusted under every fault of writes, allocations and system calls: a
  status other than 2 means that the operand is the canonical numeral of a process, that every
  directory entry up to the limit is a descriptor number, all of them different, and that stdout
  has taken and flushed one line for every descriptor whose two looks agree on a regular file
  without a name, in ascending order; the status is 1 exactly when there is a line, an advisory or
  a limit that was reached.
\<close>

theorem openunlink_sound:
  assumes "main os [a0, t] s = (status, s1)" and "t \<noteq> ''--help''" and "t \<noteq> ''--version''" and "status \<noteq> 2"
  shows "\<exists>p fs limit. t = dec p \<and> 1 \<le> p \<and> p \<le> INT_MAX \<and> listed os = Some (fs, limit) \<and> distinct fs
    \<and> text_of Stdout s1 = text_of Stdout s @ scan_report os p (sort fs)
    \<and> status = (if limit \<or> (\<exists>fd \<in> set fs. verdict_of os fd \<noteq> Nothing_to_report) then 1 else 0)
    \<and> \<not> ferr (out s1) \<and> flush_errno (out s1) = None"
proof (cases "parse_pid t")
  case None
  with assms show ?thesis by (simp add: main_def)
next
  case (Some p)
  then have p: "t = dec p" "1 \<le> p" "p \<le> INT_MAX" using pid_numeral.parse by auto
  obtain st where r: "scan_process os p s = (status, st, s1)"
    using main_scans [OF p(2,3), of os a0 s] assms(1) p(1) by (auto split: prod.splits)
  from scan_process_bad [OF p(3) r] assms(4) obtain fs limit where good: "scan_good os p s fs limit" by blast
  note g = good scan_process_good [OF p(3) r good]
  then have fit: "fits (out s) (scan_report os p (sort fs))" and "\<not> ferr (out s)" "flush_errno (out s) = None"
    by (simp_all add: scan_good_def stdout_takes_def)
  with g p put_bytes_sent(1) [OF fit] put_bytes_sent(2,3) [of "scan_report os p (sort fs)" "out s"]
  have "text_of Stdout s1 = text_of Stdout s @ scan_report os p (sort fs) \<and> \<not> ferr (out s1) \<and> flush_errno (out s1) = None"
    by (simp add: text_of_def)
  with g(1,2) p show ?thesis
    by (intro exI [of _ p] exI [of _ fs] exI [of _ limit]) (simp add: scan_good_def)
qed

text \<open>
  C30. A scan fails exactly when the directory cannot be opened, duplicated, read or closed, one of
  the three allocations is refused, a name is no descriptor number or a number occurs twice, or
  stdout does not take the report; and otherwise stderr gets exactly the advisories, the one
  about the limit first.
\<close>

theorem openunlink_exact:
  assumes "1 \<le> p" and "p \<le> INT_MAX" and "main os [a0, dec p] s = (status, s1)"
  shows "(status = 2 \<longleftrightarrow> (\<nexists>fs limit. scan_good os p s fs limit))
    \<and> (\<forall>fs limit. scan_good os p s fs limit \<longrightarrow> err s1 = put_bytes (scan_notes os p fs limit) (err s))"
proof -
  obtain st where r: "scan_process os p s = (status, st, s1)"
    using main_scans [OF assms(1,2), of os a0 s] assms(3) by (auto split: prod.splits)
  show ?thesis
  proof (cases "\<exists>fs limit. scan_good os p s fs limit")
    case True
    then obtain fs limit where good: "scan_good os p s fs limit" by blast
    from scan_process_good(1) [OF assms(2) r good] have "status \<noteq> 2" by (simp split: if_splits)
    moreover have "\<forall>gs m. scan_good os p s gs m \<longrightarrow> err s1 = put_bytes (scan_notes os p gs m) (err s)"
      using scan_process_good(3) [OF assms(2) r] by blast
    ultimately show ?thesis using True by blast
  next
    case False
    with scan_process_bad [OF assms(2) r False] show ?thesis by blast
  qed
qed

text \<open>
  C31. Whatever fails, at the end of a run every descriptor that was opened has been closed exactly
  once, by its owner at that time, nothing is held, and the three buffers are released.
\<close>

theorem scan_releases:
  assumes "p \<le> INT_MAX" and "scan_process os p s = (status, st, s1)"
  shows "mset (closes st) = mset (opened os p) \<and> held st = []
    \<and> fds st = None \<and> link_buf st = None \<and> line_buf st = None"
proof -
  obtain r st0 s0 where rs: "run_scan os (initial_state p) s = (r, st0, s0)" by (cases "run_scan os (initial_state p) s")
  with assms(2) have "st = cleanup_scan st0" by (simp add: scan_process_def)
  with run_scan_ok [OF assms(1) rs] cleanup_closes [of st0] show ?thesis by simp
qed

text \<open>
  C32. The line of a finding always fits the buffer whose capacity the code computes, so no byte is
  lost and \<open>snprintf\<close> never cuts an escape; what is written is the head and the quoted target,
  from which the target can be read back.
\<close>

theorem finding_line_fits:
  assumes "pid st \<le> INT_MAX" and "fd \<le> INT_MAX" and "bytes < 2 ^ 63" and "length target \<le> TARGET_LEN_CAP"
    and "line_buf st \<noteq> None" and "line_cap st = finding_line_capacity"
  shows "length (unlinked_line (pid st) fd bytes target) < finding_line_capacity
    \<and> unescape (butlast (butlast (drop (length (line_head (pid st) fd bytes)) (unlinked_line (pid st) fd bytes target)))) = Some target
    \<and> emit_finding st fd bytes target s =
        (let line = unlinked_line (pid st) fd bytes target in
         case c_write Stdout line s of
           (r, s1) \<Rightarrow>
             if r \<noteq> 0 then (-1, st\<lparr>line_buf := Some line\<rparr>, s1)
             else (0, st\<lparr>line_buf := Some line, had_finding := True\<rparr>, s1))"
proof (intro conjI)
  show "length (unlinked_line (pid st) fd bytes target) < finding_line_capacity"
    using length_line_head [OF assms(1-3)] quoted_esc.length_escaped [of target] assms(4)
    by (simp add: unlinked_line_def line_capacity TARGET_LEN_CAP_def)
  show "unescape (butlast (butlast (drop (length (line_head (pid st) fd bytes)) (unlinked_line (pid st) fd bytes target)))) = Some target"
    by (simp add: unlinked_line_def butlast_append quoted_esc.unescape_esc)
qed (rule emit_finding_ok [OF assms(1-4) refl assms(5,6)])

text \<open>
  C33. Exactly the numerals that \<open>%d\<close> prints are accepted: as a process number from 1 to \<open>INT_MAX\<close>,
  as a descriptor from 0; no sign, blank, leading zero or larger number is.
\<close>

theorem canonical_numerals:
  "(parse_pid t = Some n \<longleftrightarrow> t = dec n \<and> 1 \<le> n \<and> n \<le> INT_MAX)
   \<and> (parse_fd_name t = Some n \<longleftrightarrow> t = dec n \<and> n \<le> INT_MAX)"
  using pid_numeral.parse [of t n] fd_numeral.parse [of t n] by simp

section \<open>Closed examples\<close>

text \<open>A process with descriptors 0 and 1, of which 1 is a regular file without a name.\<close>

definition sample_fd :: "nat \<Rightarrow> fdstat" where
  "sample_fd links = \<lparr>st_mode = 32768, st_dev = 0, st_ino = 0, st_uid = 0, st_nlink = links, st_size = 5\<rparr>"

definition sample_scan :: scan_os where
  "sample_scan = \<lparr>o_open = (\<lambda>path. Inr 3), o_dup = (\<lambda>d. Some 4), o_fdopendir = (\<lambda>d. True),
     o_readdir = ([''.'', ''1'', ''..'', ''0''], 0), o_closedir = True,
     o_fstatat = (\<lambda>i name. Inr (sample_fd (if name = ''1'' then 0 else 1))),
     o_readlinkat = (\<lambda>name. Inr ''/x''), o_close = True\<rparr>"

lemma sample_decs: "dec 0 = ''0''" "dec 1 = ''1''" "dec 5 = ''5''"
  by (simp_all add: dec.simps dec_digit_def char_of_eq_iff)

lemma sample_verdicts: "verdict_of sample_scan 0 = Nothing_to_report" "verdict_of sample_scan 1 = Unlinked 5 ''/x''"
  using sample_decs by (simp_all add: verdict_of_def sample_scan_def sample_fd_def TARGET_LEN_CAP_def)

lemma sample_listed: "listed sample_scan = Some ([1, 0], False)"
proof -
  have "parse_fd_name ''0'' = Some 0" "parse_fd_name ''1'' = Some 1"
    using fd_numeral.parse_dec [of 0] fd_numeral.parse_dec [of 1] unfolding sample_decs by (simp_all add: INT_MAX_def)
  then show ?thesis by (simp add: listed_def enumerated_def sample_scan_def is_entry_def FD_RETAIN_CAP_def)
qed

lemma sample_good: "scan_good sample_scan 7 clear_io [1, 0] False"
  using sample_listed
  by (simp add: scan_good_def scan_opens_def sample_scan_def granted_def stdout_takes_def fits_def clear_io_def clear_stream_def)

lemma sample_runs:
  obtains s1 where "main sample_scan [''openunlink'', dec 7] clear_io = (1, s1)"
proof -
  have p: "7 \<le> INT_MAX" "1 \<le> (7::nat)" by (simp_all add: INT_MAX_def)
  obtain status st s1 where r: "scan_process sample_scan 7 clear_io = (status, st, s1)"
    by (cases "scan_process sample_scan 7 clear_io")
  from scan_process_good(1) [OF p(1) r sample_good] sample_verdicts have "status = 1" by simp
  with r main_scans [OF p(2,1), of sample_scan "''openunlink''" clear_io] that show ?thesis by simp
qed

theorem openunlink_sound_witness:
  "\<exists>s1 fs. main sample_scan [''openunlink'', dec 7] clear_io = (1, s1) \<and> listed sample_scan = Some (fs, False)
     \<and> text_of Stdout s1 = scan_report sample_scan 7 (sort fs)"
proof -
  obtain s1 where r: "main sample_scan [''openunlink'', dec 7] clear_io = (1, s1)" by (rule sample_runs)
  have "dec 7 \<noteq> ''--help''" "dec 7 \<noteq> ''--version''" by (simp_all add: dec.simps dec_digit_def char_of_eq_iff)
  from openunlink_sound [OF r this] obtain p fs limit where o: "dec 7 = dec p" "listed sample_scan = Some (fs, limit)"
    "text_of Stdout s1 = text_of Stdout clear_io @ scan_report sample_scan p (sort fs)" by auto
  have "p = 7" using o(1) unfolding dec_inject by simp
  have "limit = False" using o(2) sample_listed by simp
  have "text_of Stdout clear_io = []" by (simp add: text_of_def clear_io_def clear_stream_def)
  with o(3) \<open>p = 7\<close> have "text_of Stdout s1 = scan_report sample_scan 7 (sort fs)" by simp
  with r o(2) \<open>limit = False\<close> show ?thesis by blast
qed

theorem openunlink_exact_witness:
  "\<exists>s1. main sample_scan [''openunlink'', dec 7] clear_io = (1, s1) \<and> err s1 = put_bytes (scan_notes sample_scan 7 [1, 0] False) (err clear_io)"
proof -
  obtain s1 where r: "main sample_scan [''openunlink'', dec 7] clear_io = (1, s1)" by (rule sample_runs)
  have "1 \<le> (7::nat)" "7 \<le> INT_MAX" by (simp_all add: INT_MAX_def)
  from openunlink_exact [OF this r] sample_good r show ?thesis by blast
qed

theorem scan_releases_witness:
  "\<exists>status st s1. scan_process sample_scan 7 clear_io = (status, st, s1) \<and> mset (closes st) = {#3, 4#}"
proof -
  obtain status st s1 where r: "scan_process sample_scan 7 clear_io = (status, st, s1)"
    by (cases "scan_process sample_scan 7 clear_io")
  have "opened sample_scan 7 = [3, 4]" by (simp add: opened_def sample_scan_def)
  moreover have "7 \<le> INT_MAX" by (simp add: INT_MAX_def)
  ultimately show ?thesis using scan_releases [OF _ r] r by auto
qed

theorem finding_line_fits_witness:
  "\<exists>r s1. emit_finding ((initial_state 7)\<lparr>line_buf := Some [], line_cap := finding_line_capacity\<rparr>) 1 5 ''/x'' clear_io = r
     \<and> fst r = 0 \<and> length (unlinked_line 7 1 5 ''/x'') < finding_line_capacity"
proof -
  let ?st = "(initial_state 7)\<lparr>line_buf := Some [], line_cap := finding_line_capacity\<rparr>"
  have h: "pid ?st \<le> INT_MAX" "(1::nat) \<le> INT_MAX" "(5::nat) < 2 ^ 63" "length ''/x'' \<le> TARGET_LEN_CAP"
    "line_buf ?st \<noteq> None" "line_cap ?st = finding_line_capacity"
    by (simp_all add: initial_state_def INT_MAX_def TARGET_LEN_CAP_def)
  have "quiet Stdout clear_io" using faultlessD(1) [OF faultless_clear_io] .
  then show ?thesis using finding_line_fits [OF h, of clear_io]
    by (simp add: c_write_quiet Let_def) (simp add: initial_state_def)
qed

end
