(* ===== verification/Agentwatch_Parse.thy ===== *)
theory Agentwatch_Parse
  imports Escaping Numbers Posix
begin

text \<open>
  The parsers and diagnostics of \<open>src/agentwatch.c\<close>: durations, the command line, clock arithmetic
  in 64 bits, and the record \<open>/proc/PID/stat\<close> with the two \<open>strtol\<close> functions it is read with.
  Characters are classified as in the C locale, which the program never changes.
\<close>

section \<open>The C library\<close>

definition is_space :: "char \<Rightarrow> bool" where
  "is_space c \<longleftrightarrow> c = SP \<or> 9 \<le> ubyte c \<and> ubyte c \<le> 13"

text \<open>An optional sign, and whether it is a minus.\<close>

definition strto_sign :: "cstr \<Rightarrow> bool \<times> cstr" where
  "strto_sign t =
     (case t of
        [] \<Rightarrow> (False, t)
      | c # u \<Rightarrow> if c = CHR ''-'' then (True, u) else if c = CHR ''+'' then (False, u) else (False, t))"

text \<open>
  The digits \<open>strtol\<close> and \<open>strtoull\<close> convert in base 10: sign, value of the digits and what is
  left at \<open>end\<close>, or \<open>None\<close> when nothing is converted (\<open>end == text\<close>).
\<close>

definition strto_digits :: "cstr \<Rightarrow> (bool \<times> nat \<times> cstr) option" where
  "strto_digits t =
     (case strto_sign (dropWhile is_space t) of
        (neg, u) \<Rightarrow>
          if takeWhile is_digit u = [] then None
          else Some (neg, dec_value (takeWhile is_digit u), dropWhile is_digit u))"

definition LONG_MAX :: int where "LONG_MAX = 9223372036854775807"
definition ULLONG_MAX :: nat where "ULLONG_MAX = 18446744073709551615"

text \<open>Value, \<open>end\<close>, and whether \<open>errno\<close> becomes \<open>ERANGE\<close>.\<close>

definition strtol10 :: "cstr \<Rightarrow> (int \<times> cstr \<times> bool) option" where
  "strtol10 t =
     (case strto_digits t of
        None \<Rightarrow> None
      | Some (neg, v, rest) \<Rightarrow>
          (let x = (if neg then - int v else int v) in
           if x > LONG_MAX then Some (LONG_MAX, rest, True)
           else if x < - LONG_MAX - 1 then Some (- LONG_MAX - 1, rest, True)
           else Some (x, rest, False)))"

definition strtoull10 :: "cstr \<Rightarrow> (nat \<times> cstr \<times> bool) option" where
  "strtoull10 t =
     (case strto_digits t of
        None \<Rightarrow> None
      | Some (neg, v, rest) \<Rightarrow>
          if v > ULLONG_MAX then Some (ULLONG_MAX, rest, True)
          else Some (if neg then (ULLONG_MAX + 1 - v) mod (ULLONG_MAX + 1) else v, rest, False))"

definition ERANGE :: nat where "ERANGE = 34"
definition INT_MAX :: int where "INT_MAX = 2147483647"
definition UINT64_MAX :: nat where "UINT64_MAX = 18446744073709551615"

section \<open>Constants and records\<close>

definition IDENTITY_LIMIT :: nat where "IDENTITY_LIMIT = 4096"
definition PROC_ENTRY_LIMIT :: nat where "PROC_ENTRY_LIMIT = 65536"
definition PROC_RECORD_LIMIT :: nat where "PROC_RECORD_LIMIT = 4096"
definition FINAL_REAP_MS :: nat where "FINAL_REAP_MS = 2000"

record options =
  timeout_ms :: nat
  grace_ms :: nat
  has_timeout :: bool
  command :: "cstr list"

record identity =
  ident_pid :: nat
  ppid :: nat
  starttime :: nat
  connected :: bool

section \<open>Diagnostics\<close>

definition diagnostic :: "cstr \<Rightarrow> cstr option \<Rightarrow> io \<Rightarrow> io" where
  "diagnostic name detail s =
     (let s1 = ignore_result (c_write Stderr (''agentwatch: '' @ name)) s;
          s2 = (case detail of None \<Rightarrow> s1 | Some d \<Rightarrow> ignore_result (c_write Stderr ('': '' @ d)) s1)
      in ignore_result (c_write Stderr [LF]) s2)"

primrec put_command_bytes :: "cstr \<Rightarrow> io \<Rightarrow> io" where
  "put_command_bytes [] s = s"
| "put_command_bytes (p # name) s =
     put_command_bytes name
       (if ubyte p \<ge> 0x20 \<and> ubyte p \<le> 0x7e \<and> p \<noteq> BSL \<and> p \<noteq> DQ then ignore_result (c_write Stderr [p]) s
        else if p = BSL then ignore_result (c_write Stderr [BSL, BSL]) s
        else if p = DQ then ignore_result (c_write Stderr [BSL, DQ]) s
        else ignore_result (c_write Stderr (BSL # CHR ''x'' # hex2_upper p)) s)"

definition escaped_command :: "cstr \<Rightarrow> io \<Rightarrow> io" where
  "escaped_command name s =
     ignore_result (c_write Stderr [LF])
       (put_command_bytes name
         (ignore_result (c_write Stderr ''agentwatch: COMMAND_START_FAILURE: execvp '') s))"

section \<open>Durations\<close>

text \<open>The loop over the whole seconds: the value and what follows, or a rejection.\<close>

fun whole_loop :: "cstr \<Rightarrow> nat \<Rightarrow> (nat \<times> cstr) option" where
  "whole_loop [] whole = Some (whole, [])"
| "whole_loop (c # p) whole =
     (if \<not> is_digit c then Some (whole, c # p)
      else if whole > 86400 \<or> whole = 86400 \<and> c \<noteq> CHR ''0'' then None
      else whole_loop p (size_plus (size_times whole 10) (ubyte c - ubyte (CHR ''0''))))"

text \<open>The loop over at most three digits of the fraction.\<close>

fun fraction_loop :: "cstr \<Rightarrow> nat \<Rightarrow> nat \<Rightarrow> (nat \<times> nat \<times> cstr) option" where
  "fraction_loop [] fraction digits = Some (fraction, digits, [])"
| "fraction_loop (c # p) fraction digits =
     (if \<not> is_digit c then Some (fraction, digits, c # p)
      else if digits \<ge> 3 then None
      else fraction_loop p (size_plus (size_times fraction 10) (ubyte c - ubyte (CHR ''0''))) (digits + 1))"

function scale_loop :: "nat \<Rightarrow> nat \<Rightarrow> nat" where
  "scale_loop fraction digits =
     (if digits < 3 then scale_loop (size_times fraction 10) (digits + 1) else fraction)"
  by pat_completeness auto
termination
  by (relation "measure (\<lambda>(fraction, digits). 3 - digits)") auto

declare scale_loop.simps [simp del]

definition parse_seconds :: "cstr \<Rightarrow> nat option" where
  "parse_seconds t =
     (if t = [] \<or> \<not> is_digit (hd t) then None
      else
        (case whole_loop t 0 of
           None \<Rightarrow> None
         | Some (whole, p) \<Rightarrow>
             (case (if p \<noteq> [] \<and> hd p = CHR ''.'' then
                      (if tl p = [] \<or> \<not> is_digit (hd (tl p)) then None else fraction_loop (tl p) 0 0)
                    else Some (0, 0, p)) of
                None \<Rightarrow> None
              | Some (fraction, digits, p) \<Rightarrow>
                  if p \<noteq> [] \<or> whole > 86400 then None
                  else
                    (let fraction = scale_loop fraction digits in
                     if whole = 86400 \<and> fraction \<noteq> 0 then None
                     else
                       (let result = size_plus (size_times whole 1000) fraction in
                        if result \<ge> 1 then Some result else None)))))"

section \<open>The command line\<close>

text \<open>
  The loop over the options from \<open>args\<close> on, and the check after it; \<open>Inl 1\<close> and \<open>Inl (-1)\<close> are
  the return values other than 0.
\<close>

fun option_loop :: "cstr list \<Rightarrow> bool \<Rightarrow> bool \<Rightarrow> options \<Rightarrow> int + options" where
  "option_loop args timeout_seen grace_seen opts =
     (case args of
        [] \<Rightarrow> Inl (-1)
      | a # rest \<Rightarrow>
          if strcmp a ''--'' = 0 then (if rest = [] then Inl (-1) else Inr (opts\<lparr>command := rest\<rparr>))
          else
            (let is_timeout = (strcmp a ''--timeout'' = 0); is_grace = (strcmp a ''--grace'' = 0) in
             if \<not> is_timeout \<and> \<not> is_grace then Inl (-1)
             else
               (case rest of
                  [] \<Rightarrow> Inl (-1)
                | v # more_args \<Rightarrow>
                    if is_timeout \<and> timeout_seen \<or> is_grace \<and> grace_seen then Inl (-1)
                    else
                      (case parse_seconds v of
                         None \<Rightarrow> Inl (-1)
                       | Some ms \<Rightarrow>
                           if is_timeout
                           then option_loop more_args True grace_seen (opts\<lparr>timeout_ms := ms, has_timeout := True\<rparr>)
                           else option_loop more_args timeout_seen True (opts\<lparr>grace_ms := ms\<rparr>)))))"

declare option_loop.simps [simp del]

definition default_options :: options where
  "default_options = \<lparr>timeout_ms = 0, grace_ms = 5000, has_timeout = False, command = []\<rparr>"

definition parse_options :: "cstr list \<Rightarrow> io \<Rightarrow> (int + options) \<times> io" where
  "parse_options argv s =
     (let argc = length argv in
      if argc = 2 \<and> strcmp (argv ! 1) ''--help'' = 0 then
        (Inl 1, ignore_result (c_write Stdout
          (''usage: agentwatch [--timeout SECONDS] [--grace SECONDS] -- COMMAND [ARG...]'' @ [LF])) s)
      else if argc = 2 \<and> strcmp (argv ! 1) ''--version'' = 0 then
        (Inl 1, ignore_result (c_write Stdout (''agentwatch 0.1.0'' @ [LF])) s)
      else (option_loop (drop 1 argv) False False default_options, s))"

section \<open>The clock\<close>

text \<open>\<open>clock_gettime\<close>: seconds and nanoseconds, or failure.\<close>

definition monotonic_ms :: "(int \<times> nat) option \<Rightarrow> nat option" where
  "monotonic_ms answer =
     (case answer of
        None \<Rightarrow> None
      | Some (tv_sec, tv_nsec) \<Rightarrow>
          if tv_sec < 0 then None
          else if nat tv_sec > (UINT64_MAX - tv_nsec div 1000000) div 1000 then None
          else Some (nat tv_sec * 1000 + tv_nsec div 1000000))"

definition add_ms :: "nat \<Rightarrow> nat \<Rightarrow> nat option" where
  "add_ms base increment = (if base > UINT64_MAX - increment then None else Some (base + increment))"

section \<open>Process records\<close>

text \<open>
  The loop over the fields 5 to 22: \<open>n\<close> fields are left, the last one is the start time.  The
  second component is \<open>errno\<close> where the loop stops.
\<close>

fun stat_fields :: "nat \<Rightarrow> cstr \<Rightarrow> nat \<Rightarrow> nat \<Rightarrow> nat option \<times> nat" where
  "stat_fields 0 p start e = (Some start, e)"
| "stat_fields (Suc n) p start e =
     (if p = [] \<or> hd p \<noteq> SP then (None, e)
      else
        (case strtoull10 (tl p) of
           None \<Rightarrow> (None, 0)
         | Some (parsed, rest, overflow) \<Rightarrow>
             if overflow then (None, ERANGE) else stat_fields n rest (if n = 0 then parsed else start) 0))"

text \<open>\<open>e\<close> is \<open>errno\<close> at the call.\<close>

definition parse_stat_record :: "cstr \<Rightarrow> nat \<Rightarrow> nat \<Rightarrow> identity option \<times> nat" where
  "parse_stat_record record_text expected e =
     (case strrchr record_text CHR '')'' of
        None \<Rightarrow> (None, e)
      | Some right \<Rightarrow>
          (let r = drop right record_text @ [NUL] in
           if r ! 1 \<noteq> SP \<or> r ! 2 = NUL \<or> r ! 3 \<noteq> SP then (None, e)
           else
             (case strtol10 (drop (right + 4) record_text) of
                None \<Rightarrow> (None, 0)
              | Some (pp, p, overflow) \<Rightarrow>
                  if overflow then (None, ERANGE)
                  else if pp < 0 \<or> pp > INT_MAX then (None, 0)
                  else
                    (case stat_fields 18 p 0 0 of
                       (None, e1) \<Rightarrow> (None, e1)
                     | (Some start, e1) \<Rightarrow>
                         (Some \<lparr>ident_pid = expected, ppid = nat pp, starttime = start, connected = False\<rparr>, e1)))))"

end
