(* ===== verification/Agentwatch_Args.thy ===== *)
theory Agentwatch_Args
  imports Agentwatch_Parse
begin

text \<open>
  What the parsers of \<open>src/agentwatch.c\<close> accept: durations are the decimal numerals with at most
  three digits after the point and a value from 0.001 to 86400, command lines are options in any
  order before \<open>--\<close> and a command, and a process record is read correctly whatever the name of the
  process is.
\<close>

section \<open>Durations\<close>

abbreviation digits_value :: "nat \<Rightarrow> cstr \<Rightarrow> nat" where
  "digits_value acc t \<equiv> foldl (\<lambda>v c. 10 * v + digit_value c) acc t"

lemma digit_step:
  assumes "is_digit c" and "v \<le> 86400"
  shows "size_plus (size_times v 10) (ubyte c - 48) = 10 * v + digit_value c"
  using assms digit_value_less [OF assms(1)] by (simp add: digit_value_def SIZE_MAX_def mult.commute)

lemma whole_loop_value:
  "whole_loop t w = Some (v, p) \<Longrightarrow> v = digits_value w (takeWhile is_digit t) \<and> p = dropWhile is_digit t"
proof (induction t w rule: whole_loop.induct)
  case (2 c t w)
  show ?case
  proof (cases "is_digit c")
    case True
    with "2.prems" have ok: "\<not> (w > 86400 \<or> w = 86400 \<and> c \<noteq> CHR ''0'')" by (auto split: if_splits)
    then have "w \<le> 86400" by auto
    note s = digit_step [OF True this]
    have "\<not> \<not> is_digit c" using True by simp
    from "2.IH" [OF this ok] "2.prems" True ok show ?thesis by (simp add: s)
  qed (use 2 in auto)
qed simp

lemma whole_loop_small:
  "digits_value w (takeWhile is_digit t) \<le> 86400 \<Longrightarrow>
    whole_loop t w = Some (digits_value w (takeWhile is_digit t), dropWhile is_digit t)"
proof (induction t w rule: whole_loop.induct)
  case (2 c t w)
  show ?case
  proof (cases "is_digit c")
    case True
    have "10 * w + digit_value c \<le> digits_value (10 * w + digit_value c) (takeWhile is_digit t)"
      by (rule foldl_digits_ge)
    then have w: "w \<le> 8640" using "2.prems" True by simp
    then have ok: "\<not> (w > 86400 \<or> w = 86400 \<and> c \<noteq> CHR ''0'')" by simp
    have "w \<le> 86400" using w by simp
    note s = digit_step [OF True this]
    have "\<not> \<not> is_digit c" using True by simp
    from "2.IH" [OF this ok] "2.prems" True ok show ?thesis by (simp add: s)
  qed (use 2 in auto)
qed simp

lemma fraction_loop_value:
  assumes "f < 10 ^ k" and "k \<le> 3"
  shows "fraction_loop t f k =
    (if k + length (takeWhile is_digit t) \<le> 3
     then Some (digits_value f (takeWhile is_digit t), k + length (takeWhile is_digit t), dropWhile is_digit t) else None)"
  using assms
proof (induction t f k rule: fraction_loop.induct)
  case (1 f k)
  then show ?case by simp
next
  case (2 c t f k)
  show ?case
  proof (cases "is_digit c \<and> k < 3")
    case True
    have "10 ^ k \<le> (10 ^ 2 :: nat)" using True by (intro power_increasing) simp_all
    then have "f \<le> 86400" using "2.prems" by simp
    note s = digit_step [OF conjunct1 [OF True] this]
    have "10 * f + digit_value c < 10 ^ (k + 1)" "k + 1 \<le> 3"
      using "2.prems" True digit_value_less [of c] by auto
    with "2.IH" True s show ?thesis by simp
  next
    case False
    with "2.prems" show ?thesis by auto
  qed
qed

lemma scale_loop_value: "k \<le> 3 \<Longrightarrow> f < 10 ^ k \<Longrightarrow> scale_loop f k = f * 10 ^ (3 - k)"
proof (induction f k rule: scale_loop.induct)
  case (1 f k)
  show ?case
  proof (cases "k < 3")
    case True
    have "f * 10 < 10 ^ (k + 1)" using "1.prems" by simp
    moreover have "10 ^ (k + 1) \<le> (10 ^ 3 :: nat)" using True by (intro power_increasing) simp_all
    ultimately have "f * 10 \<le> SIZE_MAX" by (simp add: SIZE_MAX_def)
    then have t: "size_times f 10 = f * 10" by simp
    have "3 - k = Suc (3 - (k + 1))" using True by simp
    with "1.IH" [OF True] True t \<open>f * 10 < 10 ^ (k + 1)\<close> show ?thesis
      by (subst scale_loop.simps) simp
  next
    case False
    with "1.prems" show ?thesis by (subst scale_loop.simps) simp
  qed
qed

lemma digits_value_bound: "\<forall>c \<in> set t. is_digit c \<Longrightarrow> f < 10 ^ k \<Longrightarrow> digits_value f t < 10 ^ (k + length t)"
proof (induction t arbitrary: f k)
  case (Cons c t)
  have "10 * f + digit_value c < 10 ^ (k + 1)" using Cons.prems digit_value_less [of c] by auto
  from Cons.IH [OF _ this] Cons.prems show ?case by simp
qed simp

text \<open>The text of a duration: whole seconds, and the digits after a point if there are any.\<close>

definition seconds_text :: "cstr \<Rightarrow> cstr \<Rightarrow> cstr" where
  "seconds_text w f = w @ (if f = [] then [] else CHR ''.'' # f)"

definition seconds_ms :: "cstr \<Rightarrow> cstr \<Rightarrow> nat" where
  "seconds_ms w f = 1000 * dec_value w + dec_value f * 10 ^ (3 - length f)"

definition all_digits :: "cstr \<Rightarrow> bool" where "all_digits t \<longleftrightarrow> (\<forall>c \<in> set t. is_digit c)"

lemma takeWhile_digits:
  "all_digits w \<Longrightarrow> p = [] \<or> \<not> is_digit (hd p) \<Longrightarrow> takeWhile is_digit (w @ p) = w \<and> dropWhile is_digit (w @ p) = p"
  by (cases p) (auto simp: all_digits_def takeWhile_append2 dropWhile_append2)

lemma dot_no_digit: "\<not> is_digit CHR ''.''"
  by (simp add: is_digit_def)

lemma parse_seconds_reads:
  assumes w: "all_digits w" "w \<noteq> []" and p: "p = [] \<or> \<not> is_digit (hd p)"
  shows "parse_seconds (w @ p) =
    (if p = [] then (if 1 \<le> seconds_ms w [] \<and> seconds_ms w [] \<le> 86400000 then Some (seconds_ms w []) else None)
     else if hd p \<noteq> CHR ''.'' \<or> tl p = [] then None
     else
       (let f = takeWhile is_digit (tl p) in
        if f = [] \<or> length f > 3 \<or> f \<noteq> tl p then None
        else if 1 \<le> seconds_ms w f \<and> seconds_ms w f \<le> 86400000 then Some (seconds_ms w f) else None))"
proof -
  have hd: "is_digit (hd (w @ p))" "w @ p \<noteq> []" using w by (auto simp: all_digits_def)
  note tw = takeWhile_digits [OF w(1) p]
  define v where "v = dec_value w"
  have v: "digits_value 0 (takeWhile is_digit (w @ p)) = v" using tw by (simp add: v_def dec_value_def)
  define frac where "frac = (if p \<noteq> [] \<and> hd p = CHR ''.'' then
      (if tl p = [] \<or> \<not> is_digit (hd (tl p)) then None else fraction_loop (tl p) 0 0) else Some (0, 0, p))"
  define rest where "rest = (\<lambda>whole. case frac of None \<Rightarrow> None
      | Some (fraction, digits, p) \<Rightarrow>
          if p \<noteq> [] \<or> whole > 86400 then None
          else (let fraction = scale_loop fraction digits in
            if whole = 86400 \<and> fraction \<noteq> 0 then None
            else (let result = size_plus (size_times whole 1000) fraction in if result \<ge> 1 then Some result else None)))"
  have ps: "parse_seconds (w @ p) = (case whole_loop (w @ p) 0 of None \<Rightarrow> None | Some (whole, q) \<Rightarrow> rest whole)"
  proof (cases "whole_loop (w @ p) 0")
    case None
    with hd show ?thesis by (simp add: parse_seconds_def)
  next
    case (Some wq)
    then obtain whole where wq: "whole_loop (w @ p) 0 = Some (whole, p)"
      using whole_loop_value [of "w @ p" 0] tw by (cases wq) simp
    have g: "\<not> (w @ p = [] \<or> \<not> is_digit (hd (w @ p)))" using hd by blast
    show ?thesis unfolding parse_seconds_def if_not_P [OF g] wq option.case prod.case rest_def frac_def by (rule refl)
  qed
  show ?thesis
  proof (cases "v > 86400")
    case True
    have "rest x = None" if "x > 86400" for x using that by (auto simp: rest_def split: option.splits)
    moreover have "x = v" if "whole_loop (w @ p) 0 = Some (x, q)" for x q using whole_loop_value [OF that] v by simp
    ultimately have "parse_seconds (w @ p) = None" unfolding ps using True by (auto split: option.splits)
    moreover have "seconds_ms w f > 86400000" for f using True by (simp add: seconds_ms_def v_def)
    ultimately show ?thesis by (simp add: Let_def not_le [symmetric])
  next
    case False
    have wl: "whole_loop (w @ p) 0 = Some (v, p)"
      using whole_loop_small [of 0 "w @ p"] v tw False by simp
    have fin: "(if v = 86400 \<and> x \<noteq> 0 then None
        else (let result = size_plus (size_times v 1000) x in if result \<ge> 1 then Some result else None))
      = (if 1 \<le> 1000 * v + x \<and> 1000 * v + x \<le> 86400000 then Some (1000 * v + x) else None)" if "x < 1000" for x
      using that False by (auto simp: Let_def SIZE_MAX_def mult.commute)
    have pv: "parse_seconds (w @ p) = rest v" unfolding ps wl by simp
    consider (nil) "p = []" | (other) "p \<noteq> []" "hd p \<noteq> CHR ''.'' \<or> tl p = []" | (dot) "p \<noteq> []" "hd p = CHR ''.''" "tl p \<noteq> []" by blast
    then show ?thesis
    proof cases
      case nil
      have "scale_loop 0 0 = 0" using scale_loop_value [of 0 0] by simp
      with nil fin [of 0] False show ?thesis unfolding pv rest_def frac_def by (simp add: seconds_ms_def v_def)
    next
      case other
      then have "rest v = None" by (auto simp: rest_def frac_def)
      with other show ?thesis unfolding pv by simp
    next
      case dot
      let ?f = "takeWhile is_digit (tl p)"
      have f0: "?f = [] \<longleftrightarrow> \<not> is_digit (hd (tl p))" using dot(3) by (cases "tl p") simp_all
      have fl: "fraction_loop (tl p) 0 0 = (if length ?f \<le> 3 then Some (dec_value ?f, length ?f, dropWhile is_digit (tl p)) else None)"
        using fraction_loop_value [of 0 0 "tl p"] by (simp add: dec_value_def)
      have dw: "dropWhile is_digit (tl p) = [] \<longleftrightarrow> ?f = tl p" by (metis append_Nil2 append_self_conv takeWhile_dropWhile_id)
      have dig: "\<forall>c \<in> set ?f. is_digit c" by (auto dest: set_takeWhileD)
      show ?thesis
      proof (cases "?f = [] \<or> length ?f > 3 \<or> ?f \<noteq> tl p")
        case True
        then have "rest v = None" using dot f0 fl dw by (auto simp: rest_def frac_def)
        with True dot show ?thesis unfolding pv by (simp add: Let_def)
      next
        case good: False
        have b: "dec_value ?f < 10 ^ length ?f" using digits_value_bound [OF dig, of 0 0] by (simp add: dec_value_def)
        then have "dec_value ?f * 10 ^ (3 - length ?f) < 10 ^ length ?f * 10 ^ (3 - length ?f)" by simp
        also have "\<dots> = 1000" using good by (simp flip: power_add)
        finally have small: "dec_value ?f * 10 ^ (3 - length ?f) < 1000" .
        have sc: "scale_loop (dec_value ?f) (length ?f) = dec_value ?f * 10 ^ (3 - length ?f)"
          using scale_loop_value [of "length ?f" "dec_value ?f"] good b by simp
        have "rest v = (if 1 \<le> seconds_ms w ?f \<and> seconds_ms w ?f \<le> 86400000 then Some (seconds_ms w ?f) else None)"
        proof -
          have "dropWhile is_digit (tl p) = []" using good dw by blast
          with dot good f0 fl have fr: "frac = Some (dec_value ?f, length ?f, [])" by (simp add: frac_def)
          have n: "\<not> (([] :: cstr) \<noteq> [] \<or> v > 86400)" using False by simp
          have "rest v = (let fraction = dec_value ?f * 10 ^ (3 - length ?f) in
              if v = 86400 \<and> fraction \<noteq> 0 then None
              else (let result = size_plus (size_times v 1000) fraction in if result \<ge> 1 then Some result else None))"
            unfolding rest_def fr option.case prod.case if_not_P [OF n] sc ..
          then show ?thesis using fin [OF small] unfolding Let_def seconds_ms_def v_def by (rule trans)
        qed
        with good dot show ?thesis unfolding pv by (simp add: Let_def)
      qed
    qed
  qed
qed

lemma parse_seconds_accepts:
  "parse_seconds t = Some n \<longleftrightarrow>
    (\<exists>w f. t = seconds_text w f \<and> all_digits w \<and> w \<noteq> [] \<and> all_digits f \<and> length f \<le> 3
      \<and> n = seconds_ms w f \<and> 1 \<le> n \<and> n \<le> 86400000)"
proof
  assume a: "parse_seconds t = Some n"
  let ?w = "takeWhile is_digit t" and ?p = "dropWhile is_digit t"
  have w: "all_digits ?w" by (auto simp: all_digits_def dest: set_takeWhileD)
  have ne: "?w \<noteq> []" using a by (cases t) (auto simp: parse_seconds_def split: if_splits)
  have p: "?p = [] \<or> \<not> is_digit (hd ?p)" using hd_dropWhile by blast
  from parse_seconds_reads [OF w ne p] a have r: "(if ?p = [] then (if 1 \<le> seconds_ms ?w [] \<and> seconds_ms ?w [] \<le> 86400000 then Some (seconds_ms ?w []) else None)
     else if hd ?p \<noteq> CHR ''.'' \<or> tl ?p = [] then None
     else
       (let f = takeWhile is_digit (tl ?p) in
        if f = [] \<or> length f > 3 \<or> f \<noteq> tl ?p then None
        else if 1 \<le> seconds_ms ?w f \<and> seconds_ms ?w f \<le> 86400000 then Some (seconds_ms ?w f) else None)) = Some n" by simp
  show "\<exists>w f. t = seconds_text w f \<and> all_digits w \<and> w \<noteq> [] \<and> all_digits f \<and> length f \<le> 3
      \<and> n = seconds_ms w f \<and> 1 \<le> n \<and> n \<le> 86400000"
  proof (cases "?p = []")
    case True
    then have "t = seconds_text ?w []" by (metis append_Nil2 seconds_text_def takeWhile_dropWhile_id)
    with True r w ne show ?thesis
      by (intro exI [of _ ?w] exI [of _ "[]"]) (auto simp: all_digits_def split: if_splits)
  next
    case False
    have c1: "\<not> (hd ?p \<noteq> CHR ''.'' \<or> tl ?p = [])"
    proof
      assume "hd ?p \<noteq> CHR ''.'' \<or> tl ?p = []"
      with r show False unfolding if_not_P [OF False] by simp
    qed
    have c2: "\<not> (takeWhile is_digit (tl ?p) = [] \<or> length (takeWhile is_digit (tl ?p)) > 3 \<or> takeWhile is_digit (tl ?p) \<noteq> tl ?p)"
    proof
      assume "takeWhile is_digit (tl ?p) = [] \<or> length (takeWhile is_digit (tl ?p)) > 3 \<or> takeWhile is_digit (tl ?p) \<noteq> tl ?p"
      with r show False unfolding if_not_P [OF False] if_not_P [OF c1] Let_def by simp
    qed
    then have tw: "takeWhile is_digit (tl ?p) = tl ?p" by blast
    have "(if 1 \<le> seconds_ms ?w (tl ?p) \<and> seconds_ms ?w (tl ?p) \<le> 86400000 then Some (seconds_ms ?w (tl ?p)) else None) = Some n"
      using r unfolding if_not_P [OF False] if_not_P [OF c1] Let_def if_not_P [OF c2] by (simp only: tw)
    then have f: "hd ?p = CHR ''.''" "takeWhile is_digit (tl ?p) = tl ?p" "tl ?p \<noteq> []" "length (tl ?p) \<le> 3"
      "n = seconds_ms ?w (tl ?p)" "1 \<le> n" "n \<le> 86400000"
      using c1 c2 tw by (auto split: if_splits)
    have "t = ?w @ ?p" by simp
    also have "?p = CHR ''.'' # tl ?p" using False f(1) by (metis list.collapse)
    finally have "t = seconds_text ?w (tl ?p)" using f(3) by (simp add: seconds_text_def)
    moreover have "all_digits (tl ?p)" unfolding all_digits_def using f(2) by (metis set_takeWhileD)
    ultimately show ?thesis using w ne f by (intro exI [of _ ?w] exI [of _ "tl ?p"]) simp
  qed
next
  assume "\<exists>w f. t = seconds_text w f \<and> all_digits w \<and> w \<noteq> [] \<and> all_digits f \<and> length f \<le> 3
      \<and> n = seconds_ms w f \<and> 1 \<le> n \<and> n \<le> 86400000"
  then obtain w f where d: "t = seconds_text w f" "all_digits w" "w \<noteq> []" "all_digits f" "length f \<le> 3"
      "n = seconds_ms w f" "1 \<le> n" "n \<le> 86400000" by blast
  show "parse_seconds t = Some n"
  proof (cases "f = []")
    case True
    with parse_seconds_reads [OF d(2,3), of "[]"] d show ?thesis by (simp add: seconds_text_def)
  next
    case False
    have tf: "takeWhile is_digit f = f" using d(4) by (auto simp: all_digits_def takeWhile_eq_all_conv)
    have g: "\<not> (f = [] \<or> length f > 3 \<or> f \<noteq> f)" "\<not> (CHR ''.'' \<noteq> CHR ''.'' \<or> f = [])" "CHR ''.'' # f \<noteq> []"
      using False d(5) by simp_all
    have "CHR ''.'' # f = [] \<or> \<not> is_digit (hd (CHR ''.'' # f))" using dot_no_digit by simp
    from parse_seconds_reads [OF d(2,3) this] have
      "parse_seconds (w @ CHR ''.'' # f) = (if 1 \<le> seconds_ms w f \<and> seconds_ms w f \<le> 86400000 then Some (seconds_ms w f) else None)"
      unfolding list.sel Let_def tf if_not_P [OF g(1)] if_not_P [OF g(2)] if_not_P [OF g(3)] .
    with False d show ?thesis by (simp add: seconds_text_def)
  qed
qed

section \<open>Command lines\<close>

lemma loop_both: "option_loop args True True o1 = Inr r \<longleftrightarrow> (\<exists>cmd. args = ''--'' # cmd \<and> cmd \<noteq> [] \<and> r = o1\<lparr>command := cmd\<rparr>)"
  by (subst option_loop.simps) (auto simp: Let_def split: list.splits option.splits)

lemma loop_timeout: "option_loop args True False o1 = Inr r \<longleftrightarrow>
    (\<exists>cmd. args = ''--'' # cmd \<and> cmd \<noteq> [] \<and> r = o1\<lparr>command := cmd\<rparr>)
    \<or> (\<exists>v g cmd. args = ''--grace'' # v # ''--'' # cmd \<and> parse_seconds v = Some g \<and> cmd \<noteq> []
        \<and> r = o1\<lparr>grace_ms := g, command := cmd\<rparr>)"
  by (subst option_loop.simps) (auto simp: Let_def loop_both split: list.splits option.splits)

lemma loop_grace: "option_loop args False True o1 = Inr r \<longleftrightarrow>
    (\<exists>cmd. args = ''--'' # cmd \<and> cmd \<noteq> [] \<and> r = o1\<lparr>command := cmd\<rparr>)
    \<or> (\<exists>v t cmd. args = ''--timeout'' # v # ''--'' # cmd \<and> parse_seconds v = Some t \<and> cmd \<noteq> []
        \<and> r = o1\<lparr>timeout_ms := t, has_timeout := True, command := cmd\<rparr>)"
  by (subst option_loop.simps) (auto simp: Let_def loop_both split: list.splits option.splits)

text \<open>The words of the two options, where an option that is not given has none.\<close>

definition option_words :: "cstr \<Rightarrow> cstr option \<Rightarrow> cstr list" where
  "option_words name value = (case value of None \<Rightarrow> [] | Some v \<Rightarrow> [name, v])"

definition option_value :: "nat \<Rightarrow> cstr option \<Rightarrow> nat option" where
  "option_value standard value = (case value of None \<Rightarrow> Some standard | Some v \<Rightarrow> parse_seconds v)"

definition accepted_line :: "cstr list \<Rightarrow> options \<Rightarrow> bool" where
  "accepted_line args r \<longleftrightarrow>
     (\<exists>t g cmd. cmd \<noteq> []
       \<and> (args = option_words ''--timeout'' t @ option_words ''--grace'' g @ ''--'' # cmd
          \<or> args = option_words ''--grace'' g @ option_words ''--timeout'' t @ ''--'' # cmd)
       \<and> option_value 0 t = Some (timeout_ms r) \<and> option_value 5000 g = Some (grace_ms r)
       \<and> has_timeout r = (t \<noteq> None) \<and> command r = cmd)"

lemma loop_none: "option_loop args False False default_options = Inr r \<longleftrightarrow> accepted_line args r"
proof
  assume "option_loop args False False default_options = Inr r"
  then consider cmd where "args = ''--'' # cmd" "cmd \<noteq> []" "r = default_options\<lparr>command := cmd\<rparr>"
    | v t rest where "args = ''--timeout'' # v # rest" "parse_seconds v = Some t"
        "option_loop rest True False (default_options\<lparr>timeout_ms := t, has_timeout := True\<rparr>) = Inr r"
    | v g rest where "args = ''--grace'' # v # rest" "parse_seconds v = Some g"
        "option_loop rest False True (default_options\<lparr>grace_ms := g\<rparr>) = Inr r"
    by (subst (asm) option_loop.simps) (auto simp: Let_def split: list.splits option.splits if_splits)
  then show "accepted_line args r"
  proof cases
    case 1
    then show ?thesis unfolding accepted_line_def
      by (intro exI [of _ None] exI [of _ None] exI [of _ cmd]) (simp add: option_words_def option_value_def default_options_def)
  next
    case 2
    from 2(3) [unfolded loop_timeout] show ?thesis
    proof (elim disjE exE conjE)
      fix cmd assume "rest = ''--'' # cmd" "cmd \<noteq> []"
        "r = default_options\<lparr>timeout_ms := t, has_timeout := True, command := cmd\<rparr>"
      with 2 show ?thesis unfolding accepted_line_def
        by (intro exI [of _ "Some v"] exI [of _ None] exI [of _ cmd]) (simp add: option_words_def option_value_def default_options_def)
    next
      fix u g cmd assume "rest = ''--grace'' # u # ''--'' # cmd" "parse_seconds u = Some g" "cmd \<noteq> []"
        "r = default_options\<lparr>timeout_ms := t, has_timeout := True, grace_ms := g, command := cmd\<rparr>"
      with 2 show ?thesis unfolding accepted_line_def
        by (intro exI [of _ "Some v"] exI [of _ "Some u"] exI [of _ cmd]) (simp add: option_words_def option_value_def default_options_def)
    qed
  next
    case 3
    from 3(3) [unfolded loop_grace] show ?thesis
    proof (elim disjE exE conjE)
      fix cmd assume "rest = ''--'' # cmd" "cmd \<noteq> []" "r = default_options\<lparr>grace_ms := g, command := cmd\<rparr>"
      with 3 show ?thesis unfolding accepted_line_def
        by (intro exI [of _ None] exI [of _ "Some v"] exI [of _ cmd]) (simp add: option_words_def option_value_def default_options_def)
    next
      fix u t cmd assume "rest = ''--timeout'' # u # ''--'' # cmd" "parse_seconds u = Some t" "cmd \<noteq> []"
        "r = default_options\<lparr>grace_ms := g, timeout_ms := t, has_timeout := True, command := cmd\<rparr>"
      with 3 show ?thesis unfolding accepted_line_def
        by (intro exI [of _ "Some u"] exI [of _ "Some v"] exI [of _ cmd]) (simp add: option_words_def option_value_def default_options_def)
    qed
  qed
next
  assume "accepted_line args r"
  then obtain t g cmd where a: "cmd \<noteq> []"
      "args = option_words ''--timeout'' t @ option_words ''--grace'' g @ ''--'' # cmd
        \<or> args = option_words ''--grace'' g @ option_words ''--timeout'' t @ ''--'' # cmd"
      "option_value 0 t = Some (timeout_ms r)" "option_value 5000 g = Some (grace_ms r)"
      "has_timeout r = (t \<noteq> None)" "command r = cmd"
    unfolding accepted_line_def by blast
  have r: "r = \<lparr>timeout_ms = timeout_ms r, grace_ms = grace_ms r, has_timeout = (t \<noteq> None), command = cmd\<rparr>" using a(5,6) by simp
  show "option_loop args False False default_options = Inr r"
    using a by (cases t; cases g; subst r)
      (auto simp: option_words_def option_value_def default_options_def Let_def option_loop.simps [of "_ # _"])
qed

lemma accepted_seconds:
  assumes "accepted_line args r"
  shows "1 \<le> grace_ms r \<and> grace_ms r \<le> 86400000 \<and> (has_timeout r \<longrightarrow> 1 \<le> timeout_ms r \<and> timeout_ms r \<le> 86400000)"
  using assms parse_seconds_accepts unfolding accepted_line_def option_value_def
  by (elim exE conjE) (fastforce split: option.splits)

lemma parse_options_accepts:
  "parse_options argv s = (Inr r, s1) \<longleftrightarrow> s1 = s \<and> accepted_line (drop 1 argv) r"
proof (cases "length argv = 2 \<and> (argv ! 1 = ''--help'' \<or> argv ! 1 = ''--version'')")
  case True
  then obtain a b where "argv = [a, b]" "b = ''--help'' \<or> b = ''--version''"
    by (cases argv; cases "tl argv"; cases "tl (tl argv)") auto
  moreover have "\<not> accepted_line [''--help''] r" "\<not> accepted_line [''--version''] r"
    unfolding accepted_line_def option_words_def by (auto split: option.splits simp: Cons_eq_append_conv)
  ultimately show ?thesis by (auto simp: parse_options_def)
next
  case False
  then have "parse_options argv s = (option_loop (drop 1 argv) False False default_options, s)"
    by (auto simp: parse_options_def)
  then show ?thesis using loop_none [of "drop 1 argv" r] by auto
qed

section \<open>Process records\<close>

text \<open>A number as the kernel prints it.\<close>

definition num :: "int \<Rightarrow> cstr" where
  "num i = (if i < 0 then CHR ''-'' # dec (nat (- i)) else dec (nat i))"

lemma dec_Cons: obtains c u where "dec n = c # u" and "is_digit c"
  using dec_digits [of _ n] by (cases "dec n") auto

lemma digits_of_num:
  assumes "r = [] \<or> \<not> is_digit (hd r)"
  shows "strto_digits (num i @ r) = Some (i < 0, nat \<bar>i\<bar>, r)"
proof -
  have d: "takeWhile is_digit (dec n @ r) = dec n" "dropWhile is_digit (dec n @ r) = r" for n
    using takeWhile_digits [of "dec n" r] assms dec_digits [of _ n] by (auto simp: all_digits_def)
  have nospace: "\<not> is_space c" if "is_digit c" for c using that by (auto simp: is_digit_def is_space_def)
  have w: "dropWhile is_space (dec n @ r) = dec n @ r" "strto_sign (dec n @ r) = (False, dec n @ r)" for n
  proof -
    obtain c u where c: "dec n = c # u" "is_digit c" by (rule dec_Cons)
    then have "c \<noteq> CHR ''-''" "c \<noteq> CHR ''+''" by (auto simp: is_digit_def)
    with c nospace [OF c(2)] show "dropWhile is_space (dec n @ r) = dec n @ r" "strto_sign (dec n @ r) = (False, dec n @ r)"
      by (simp_all add: strto_sign_def)
  qed
  show ?thesis
  proof (cases "i < 0")
    case True
    have "\<not> is_space CHR ''-''" by (simp add: is_space_def)
    with True show ?thesis by (simp add: strto_digits_def num_def strto_sign_def d)
  next
    case False
    then show ?thesis by (simp add: strto_digits_def num_def w d)
  qed
qed

lemma strtol10_num:
  assumes "r = [] \<or> \<not> is_digit (hd r)" and "0 \<le> i" and "i \<le> LONG_MAX"
  shows "strtol10 (num i @ r) = Some (i, r, False)"
  using digits_of_num [OF assms(1), of i] assms(2,3) by (simp add: strtol10_def LONG_MAX_def Let_def)

lemma strtoull10_num:
  assumes "r = [] \<or> \<not> is_digit (hd r)" and "\<bar>i\<bar> \<le> int ULLONG_MAX"
  shows "\<exists>v. strtoull10 (num i @ r) = Some (v, r, False) \<and> (0 \<le> i \<longrightarrow> v = nat i)"
  using digits_of_num [OF assms(1), of i] assms(2) by (auto simp: strtoull10_def ULLONG_MAX_def)

definition field_text :: "int list \<Rightarrow> cstr" where
  "field_text fs = concat (map (\<lambda>i. SP # num i) fs)"

lemma stat_fields_reads:
  assumes "fs \<noteq> []" and "\<forall>i \<in> set fs. \<bar>i\<bar> \<le> int ULLONG_MAX" and "0 \<le> last fs" and "r = [] \<or> \<not> is_digit (hd r)"
  shows "stat_fields (length fs) (field_text fs @ r) start e = (Some (nat (last fs)), 0)"
  using assms
proof (induction fs arbitrary: start e)
  case (Cons i fs)
  let ?r = "field_text fs @ r"
  have "\<not> is_digit SP" by (simp add: is_digit_def)
  then have r: "?r = [] \<or> \<not> is_digit (hd ?r)" using Cons.prems(4) by (cases fs) (simp_all add: field_text_def)
  from strtoull10_num [OF r, of i] Cons.prems(2) obtain v where v: "strtoull10 (num i @ ?r) = Some (v, ?r, False)"
    "0 \<le> i \<Longrightarrow> v = nat i" by auto
  have t: "field_text (i # fs) @ r = SP # num i @ ?r" by (simp add: field_text_def)
  show ?case
  proof (cases "fs = []")
    case True
    with Cons.prems(3) v show ?thesis by (simp add: t del: append_assoc) (simp add: field_text_def)
  next
    case False
    with Cons.IH [OF False] Cons.prems v show ?thesis by (simp add: t)
  qed
qed simp

lemma parse_stat_record_reads:
  assumes "CHR '')'' \<notin> set r" and "state \<noteq> NUL" and "r = [] \<or> \<not> is_digit (hd r)"
    and "length fs = 18" and "\<forall>i \<in> set fs. \<bar>i\<bar> \<le> int ULLONG_MAX" and "0 \<le> last fs"
    and "0 \<le> parent" and "parent \<le> INT_MAX" and "state \<noteq> CHR '')''"
  shows "parse_stat_record (name @ CHR '')'' # SP # state # SP # num parent @ field_text fs @ r) expected e =
    (Some \<lparr>ident_pid = expected, ppid = nat parent, starttime = nat (last fs), connected = False\<rparr>, 0)"
proof -
  let ?tail = "SP # state # SP # num parent @ field_text fs @ r"
  have nodot: "CHR '')'' \<notin> set (num i)" for i using dec_digits [of "CHR '')''"] by (auto simp: num_def is_digit_def)
  then have "CHR '')'' \<notin> set ?tail" using assms(1,9) by (auto simp: field_text_def)
  then have "strrchr ?tail CHR '')'' = None" unfolding strrchr_None .
  then have "strrchr (name @ CHR '')'' # ?tail) CHR '')'' = Some (length name)"
    by (induction name) simp_all
  moreover have "fs \<noteq> []" using assms(4) by auto
  then have h: "field_text fs @ r = [] \<or> \<not> is_digit (hd (field_text fs @ r))"
    by (cases fs) (simp_all add: field_text_def is_digit_def)
  have "parent \<le> LONG_MAX" using assms(8) by (simp add: INT_MAX_def LONG_MAX_def)
  note p = strtol10_num [OF h assms(7) this]
  note f = stat_fields_reads [OF \<open>fs \<noteq> []\<close> assms(5,6,3), of 0 0, unfolded assms(4)]
  ultimately show ?thesis using assms(2,7,8) p f by (simp add: parse_stat_record_def Let_def numeral_2_eq_2 numeral_3_eq_3)
qed

end
