(* ===== verification/Agentwatch_Tree.thy ===== *)
theory Agentwatch_Tree
  imports Agentwatch_Args
begin

text \<open>
  The processes below the command, as \<open>src/agentwatch.c\<close> finds and signals them: reading
  \<open>/proc/PID/stat\<close>, the bounded scan of \<open>/proc\<close> with \<open>errno\<close> as the code leaves it, the fixpoint
  that connects processes to the root, and \<open>signal_tree\<close> with the calls of \<open>kill\<close> it makes.  The
  fixpoint is the inductive relation \<open>descends\<close>.
\<close>

section \<open>The code\<close>

text \<open>
  What the kernel answers during one call of \<open>signal_tree\<close>: \<open>w_stat r pid\<close> is the process record
  in the scan (\<open>r = 0\<close>) and just before the signal (\<open>r = 1\<close>), \<open>w_kill\<close> the error number of a
  signal to a target, 0 for success.
\<close>

record proc_world =
  w_calloc :: bool
  w_opendir :: "(cstr list \<times> nat) option"
  w_stat :: "nat \<Rightarrow> nat \<Rightarrow> nat + read_answers"
  w_kill :: "int \<Rightarrow> nat"
  w_getpid :: nat
  w_getpgrp :: nat

definition ESRCH :: nat where "ESRCH = 3"

text \<open>
  The loop that repeats \<open>read\<close> of at most \<open>n\<close> bytes after an interruption: an error or the bytes,
  what later reads answer, and \<open>errno\<close>, which was \<open>e\<close>.
\<close>

fun read_retry :: "nat \<Rightarrow> nat \<Rightarrow> read_answers \<Rightarrow> (nat + char list) \<times> read_answers \<times> nat" where
  "read_retry n e (Read_interrupted a) = read_retry n EINTR a"
| "read_retry n e (Read_error x) = (Inl x, Read_error x, x)"
| "read_retry n e (Read_bytes bs a) =
     (if length bs \<le> n then (Inr bs, a, e) else (Inr (take n bs), Read_bytes (drop n bs) a, e))"
| "read_retry n e Read_eof = (Inr [], Read_eof, e)"

definition read_identity :: "proc_world \<Rightarrow> nat \<Rightarrow> nat \<Rightarrow> nat \<Rightarrow> int \<times> identity option \<times> nat" where
  "read_identity w r pid e =
     (case w_stat w r pid of
        Inl x \<Rightarrow> (if x = ENOENT then 0 else -1, None, x)
      | Inr a \<Rightarrow>
          (case read_retry PROC_RECORD_LIMIT e a of
             (Inl saved, a1, e1) \<Rightarrow> (if saved = ENOENT then 0 else -1, None, e1)
           | (Inr bytes, a1, e1) \<Rightarrow>
               (case read_retry 1 e1 a1 of
                  (Inl x, a2, e2) \<Rightarrow> (-1, None, e2)
                | (Inr extra, a2, e2) \<Rightarrow>
                    if extra \<noteq> [] \<or> bytes = [] then (-1, None, e2)
                    else
                      (case parse_stat_record (cstr_of bytes) pid e2 of
                         (None, e3) \<Rightarrow> (-1, None, e3)
                       | (Some i, e3) \<Rightarrow> (1, Some i, e3)))))"

text \<open>The loop over the entries of \<open>/proc\<close>; \<open>end_errno\<close> is set by \<open>readdir\<close> when it fails.\<close>

fun proc_entries ::
  "proc_world \<Rightarrow> cstr list \<Rightarrow> nat \<Rightarrow> nat \<Rightarrow> nat \<Rightarrow> identity list \<Rightarrow> bool \<Rightarrow> identity list \<times> bool" where
  "proc_entries w [] end_errno e inspected items uncertain =
     (items, uncertain \<or> (if end_errno \<noteq> 0 then end_errno else e) \<noteq> 0)"
| "proc_entries w (name # names) end_errno e inspected items uncertain =
     (if name = [] \<or> \<not> is_digit (hd name) then proc_entries w names end_errno e inspected items uncertain
      else if inspected + 1 > PROC_ENTRY_LIMIT then (items, True)
      else
        (case strtol10 name of
           None \<Rightarrow> proc_entries w names end_errno 0 (inspected + 1) items uncertain
         | Some (v, rest, overflow) \<Rightarrow>
             if overflow \<or> rest \<noteq> [] \<or> v \<le> 0 \<or> v > INT_MAX
             then proc_entries w names end_errno (if overflow then ERANGE else 0) (inspected + 1) items uncertain
             else if length items = IDENTITY_LIMIT then (items, True)
             else
               (case read_identity w 0 (nat v) 0 of
                  (status, found, e1) \<Rightarrow>
                    if status > 0 then proc_entries w names end_errno e1 (inspected + 1) (items @ [the found]) uncertain
                    else proc_entries w names end_errno e1 (inspected + 1) items (uncertain \<or> status < 0))))"

text \<open>One pass over the array: the entries before the current one, and those from it on.\<close>

fun connect_pass :: "nat \<Rightarrow> identity list \<Rightarrow> identity list \<Rightarrow> bool \<Rightarrow> identity list \<times> bool" where
  "connect_pass root before [] changed = (before, changed)"
| "connect_pass root before (it # after) changed =
     (if connected it then connect_pass root (before @ [it]) after changed
      else if ppid it = root then connect_pass root (before @ [it\<lparr>connected := True\<rparr>]) after True
      else if list_ex (\<lambda>j. connected j \<and> ppid it = ident_pid j) (before @ it # after)
      then connect_pass root (before @ [it\<lparr>connected := True\<rparr>]) after True
      else connect_pass root (before @ [it]) after changed)"

abbreviation unconnected :: "identity list \<Rightarrow> nat" where
  "unconnected items \<equiv> length (filter (\<lambda>i. \<not> connected i) items)"

lemma unconnected_append: "unconnected (xs @ ys) = unconnected xs + unconnected ys"
  by simp

lemma connect_pass_fewer:
  "connect_pass root before items changed = (items1, changed1) \<Longrightarrow>
    unconnected items1 \<le> unconnected before + unconnected items
    \<and> (changed1 \<and> \<not> changed \<longrightarrow> unconnected items1 < unconnected before + unconnected items)"
proof (induction root before items changed rule: connect_pass.induct)
  case (2 root before it after changed)
  show ?case
  proof (cases "connected it")
    case True
    with "2.IH"(1) "2.prems" show ?thesis by simp
  next
    case n: False
    show ?thesis
    proof (cases "ppid it = root")
      case True
      with "2.IH"(2) [OF n True] "2.prems" n show ?thesis by simp
    next
      case r: False
      show ?thesis
      proof (cases "list_ex (\<lambda>j. connected j \<and> ppid it = ident_pid j) (before @ it # after)")
        case True
        have "connect_pass root (before @ [it\<lparr>connected := True\<rparr>]) after True = (items1, changed1)"
          using "2.prems" n r True by (simp only: connect_pass.simps if_True if_False)
        from "2.IH"(3) [OF n r True this] n show ?thesis by simp
      next
        case False
        have "connect_pass root (before @ [it]) after changed = (items1, changed1)"
          using "2.prems" n r False by (simp only: connect_pass.simps if_True if_False)
        from "2.IH"(4) [OF n r False this] n show ?thesis by simp
      qed
    qed
  qed
qed simp

lemma connect_pass_shrinks: "(items1, True) = connect_pass root [] items False \<Longrightarrow> unconnected items1 < unconnected items"
  using connect_pass_fewer [of root "[]" items False items1 True] by simp

function connect_loop :: "nat \<Rightarrow> identity list \<Rightarrow> identity list" where
  "connect_loop root items =
     (case connect_pass root [] items False of
        (items1, changed) \<Rightarrow> if changed then connect_loop root items1 else items1)"
  by pat_completeness auto
termination
  by (relation "measure (\<lambda>(root, items). unconnected items)") (simp_all add: connect_pass_shrinks)

declare connect_loop.simps [simp del]

definition scan_descendants :: "proc_world \<Rightarrow> nat \<Rightarrow> bool \<Rightarrow> identity list \<times> bool" where
  "scan_descendants w root uncertain =
     (case w_opendir w of
        None \<Rightarrow> ([], True)
      | Some (names, end_errno) \<Rightarrow>
          (case proc_entries w names end_errno 0 0 [] uncertain of
             (items, uncertain1) \<Rightarrow> (connect_loop root items, uncertain1)))"

text \<open>The loop of \<open>signal_tree\<close>: result, uncertainty, and the targets of \<open>kill\<close> in order.\<close>

fun signal_items :: "proc_world \<Rightarrow> nat \<Rightarrow> identity list \<Rightarrow> bool \<Rightarrow> bool \<Rightarrow> int list \<Rightarrow> bool \<times> bool \<times> int list" where
  "signal_items w root [] ok uncertain kills = (ok, uncertain, kills)"
| "signal_items w root (it # items) ok uncertain kills =
     (if \<not> connected it \<or> ident_pid it = w_getpid w \<or> ident_pid it = root
      then signal_items w root items ok uncertain kills
      else
        (case read_identity w 1 (ident_pid it) 0 of
           (status, current, e) \<Rightarrow>
             if status = 1 \<and> starttime (the current) = starttime it then
               (let k = w_kill w (int (ident_pid it)) in
                signal_items w root items (ok \<and> \<not> (k \<noteq> 0 \<and> k \<noteq> ESRCH)) uncertain (kills @ [int (ident_pid it)]))
             else signal_items w root items ok (uncertain \<or> status < 0) kills))"

definition signal_tree :: "proc_world \<Rightarrow> nat \<Rightarrow> bool \<Rightarrow> bool \<times> bool \<times> int list" where
  "signal_tree w root uncertain =
     (if \<not> w_calloc w then (False, True, [])
      else
        (case scan_descendants w root uncertain of
           (items, uncertain1) \<Rightarrow>
             if root > 1 \<and> root \<noteq> w_getpgrp w then
               (let k = w_kill w (- int root) in
                signal_items w root items (\<not> (k \<noteq> 0 \<and> k \<noteq> ESRCH)) uncertain1 [- int root])
             else signal_items w root items True uncertain1 []))"

section \<open>Descendants\<close>

inductive descends :: "nat \<Rightarrow> identity list \<Rightarrow> identity \<Rightarrow> bool" for root items where
  child: "it \<in> set items \<Longrightarrow> ppid it = root \<Longrightarrow> descends root items it"
| below: "it \<in> set items \<Longrightarrow> descends root items j \<Longrightarrow> ppid it = ident_pid j \<Longrightarrow> descends root items it"

inductive_cases descendsE: "descends root items it"

lemma descends_in: "descends root items it \<Longrightarrow> it \<in> set items"
  by (erule descends.cases) simp_all

text \<open>An entry as the scan read it, connected only if it descends from the root; an array of these.\<close>

definition marks :: "nat \<Rightarrow> identity list \<Rightarrow> identity \<Rightarrow> identity \<Rightarrow> bool" where
  "marks root items a b \<longleftrightarrow>
     ident_pid b = ident_pid a \<and> ppid b = ppid a \<and> starttime b = starttime a
     \<and> (connected b \<longrightarrow> descends root items a)"

definition marked :: "nat \<Rightarrow> identity list \<Rightarrow> identity list \<Rightarrow> bool" where
  "marked root items items1 \<longleftrightarrow> list_all2 (marks root items) items items1"

lemma marked_connected:
  assumes "marked root items items1" and "b \<in> set items1" and "connected b"
  shows "\<exists>a. descends root items a \<and> ident_pid b = ident_pid a"
proof -
  from assms(2) obtain n where n: "n < length items1" "items1 ! n = b" by (auto simp: in_set_conv_nth)
  with assms(1) have "marks root items (items ! n) b"
    unfolding marked_def by (metis list_all2_nthD2)
  with assms(3) show ?thesis unfolding marks_def by blast
qed

lemma connect_pass_marked:
  "connect_pass root before after changed = (items1, changed1) \<Longrightarrow> marked root items (before @ after) \<Longrightarrow> marked root items items1"
proof (induction root before after changed rule: connect_pass.induct)
  case (2 root before it after changed)
  have upd: "marked root items (before @ it\<lparr>connected := True\<rparr> # after)"
    if "ppid it = root \<or> (\<exists>j \<in> set (before @ it # after). connected j \<and> ppid it = ident_pid j)"
  proof -
    from "2.prems"(2) obtain as a bs where m: "items = as @ a # bs"
      "list_all2 (marks root items) as before" "list_all2 (marks root items) bs after" "marks root items a it"
      unfolding marked_def list_all2_append2 list_all2_Cons2 by blast
    have "descends root items a"
    proof (cases "ppid it = root")
      case True
      with m(1,4) show ?thesis by (intro child) (simp_all add: marks_def)
    next
      case False
      with that obtain j where j: "j \<in> set (before @ it # after)" "connected j" "ppid it = ident_pid j" by blast
      from marked_connected [OF "2.prems"(2) j(1,2)] obtain b where "descends root items b" "ident_pid j = ident_pid b" by blast
      with m(1,4) j(3) show ?thesis by (intro below [of a items root b]) (simp_all add: marks_def)
    qed
    with m(4) have "marks root items a (it\<lparr>connected := True\<rparr>)" by (simp add: marks_def)
    with m(2,3) have "list_all2 (marks root items) (as @ a # bs) (before @ it\<lparr>connected := True\<rparr> # after)"
      by (intro list_all2_appendI list.rel_intros)
    then show ?thesis unfolding marked_def m(1) .
  qed
  show ?case
  proof (cases "connected it")
    case True
    with 2 show ?thesis by simp
  next
    case n: False
    show ?thesis
    proof (cases "ppid it = root")
      case True
      with 2 n upd show ?thesis by simp
    next
      case r: False
      show ?thesis
      proof (cases "list_ex (\<lambda>j. connected j \<and> ppid it = ident_pid j) (before @ it # after)")
        case True
        then have "\<exists>j \<in> set (before @ it # after). connected j \<and> ppid it = ident_pid j" unfolding list_ex_iff .
        from upd [OF disjI2 [OF this]] have m: "marked root items ((before @ [it\<lparr>connected := True\<rparr>]) @ after)" by simp
        have "connect_pass root (before @ [it\<lparr>connected := True\<rparr>]) after True = (items1, changed1)"
          using "2.prems"(1) n r True by (simp only: connect_pass.simps if_True if_False)
        from "2.IH"(3) [OF n r True this m] show ?thesis .
      next
        case False
        have "connect_pass root (before @ [it]) after changed = (items1, changed1)"
          using "2.prems"(1) n r False by (simp only: connect_pass.simps if_True if_False)
        from "2.IH"(4) [OF n r False this] "2.prems"(2) show ?thesis by simp
      qed
    qed
  qed
qed simp

lemma connect_pass_changed: "snd (connect_pass root before after True)"
  by (induction root before after "True" rule: connect_pass.induct) simp_all

lemma connect_pass_stable:
  "connect_pass root before after changed = (items1, False) \<Longrightarrow>
    items1 = before @ after \<and> (\<forall>it \<in> set after. \<not> connected it \<longrightarrow> ppid it \<noteq> root
      \<and> (\<forall>j \<in> set items1. connected j \<longrightarrow> ppid it \<noteq> ident_pid j))"
proof (induction root before after changed rule: connect_pass.induct)
  case (2 root before it after changed)
  show ?case
  proof (cases "connected it")
    case True
    with "2.prems" have "connect_pass root (before @ [it]) after changed = (items1, False)" by simp
    from "2.IH"(1) [OF True this] True show ?thesis by simp
  next
    case n: False
    have stay: "connect_pass root b a True \<noteq> (items1, False)" for b a
      using connect_pass_changed [of root b a] by auto
    have r: "ppid it \<noteq> root"
      using "2.prems" n stay by auto
    have l: "\<not> list_ex (\<lambda>j. connected j \<and> ppid it = ident_pid j) (before @ it # after)"
    proof
      assume "list_ex (\<lambda>j. connected j \<and> ppid it = ident_pid j) (before @ it # after)"
      with "2.prems" n r have "connect_pass root (before @ [it\<lparr>connected := True\<rparr>]) after True = (items1, False)"
        by (simp only: connect_pass.simps if_True if_False)
      with stay show False by blast
    qed
    have "connect_pass root (before @ [it]) after changed = (items1, False)"
      using "2.prems"(1) n r l by (simp only: connect_pass.simps if_True if_False)
    from "2.IH"(4) [OF n r l this] have "items1 = before @ it # after"
      "\<forall>it \<in> set after. \<not> connected it \<longrightarrow> ppid it \<noteq> root \<and> (\<forall>j \<in> set items1. connected j \<longrightarrow> ppid it \<noteq> ident_pid j)"
      by simp_all
    with r l show ?thesis unfolding list_ex_iff by auto
  qed
qed simp

lemma connect_loop_ok:
  "marked root items items0 \<Longrightarrow> marked root items (connect_loop root items0)
    \<and> (\<forall>it \<in> set (connect_loop root items0). \<not> connected it \<longrightarrow> ppid it \<noteq> root
        \<and> (\<forall>j \<in> set (connect_loop root items0). connected j \<longrightarrow> ppid it \<noteq> ident_pid j))"
proof (induction root items0 rule: connect_loop.induct)
  case (1 root items0)
  obtain items1 changed where p: "connect_pass root [] items0 False = (items1, changed)" by fastforce
  from connect_pass_marked [OF p, of items] "1.prems" have m: "marked root items items1" by simp
  show ?case
  proof (cases changed)
    case True
    have "connect_loop root items0 = connect_loop root items1"
      using p True by (subst connect_loop.simps) simp
    with "1.IH" [OF p [symmetric] True m] show ?thesis by simp
  next
    case False
    have "connect_loop root items0 = items1"
      using p False by (subst connect_loop.simps) simp
    with connect_pass_stable [of root "[]" items0 False items1] p m False show ?thesis by simp
  qed
qed

text \<open>The fixpoint marks exactly the descendants.\<close>

lemma connect_loop_descends:
  assumes "\<forall>it \<in> set items. \<not> connected it"
  shows "connect_loop root items = map (\<lambda>it. it\<lparr>connected := descends root items it\<rparr>) items"
proof -
  let ?items = "connect_loop root items"
  have "list_all2 (marks root items) items items"
    using assms by (intro list_all2_refl list.rel_refl_strong) (simp add: marks_def)
  then have "marked root items items" unfolding marked_def .
  note ok = connect_loop_ok [OF this]
  then have len: "length ?items = length items" by (auto simp: marked_def dest: list_all2_lengthD)
  from ok have at: "marks root items (items ! i) (?items ! i)" if "i < length items" for i
    using that len by (auto simp: marked_def list_all2_conv_all_nth)
  have closed: "connected it" if "it \<in> set ?items" "ppid it = root \<or> (\<exists>j \<in> set ?items. connected j \<and> ppid it = ident_pid j)" for it
    using ok that by blast
  have all: "\<forall>i < length items. items ! i = it \<longrightarrow> connected (?items ! i)" if "descends root items it" for it
    using that
  proof induction
    case (child it)
    then show ?case using at len by (auto simp: marks_def intro!: closed)
  next
    case (below it j)
    from descends_in [OF below(2)] obtain k where k: "k < length items" "items ! k = j" by (auto simp: in_set_conv_nth)
    with below(4) have c: "connected (?items ! k)" by blast
    have j: "ident_pid (?items ! k) = ident_pid j" "?items ! k \<in> set ?items"
      using at [OF k(1)] k len by (simp_all add: marks_def)
    show ?case
    proof (intro allI impI)
      fix i assume i: "i < length items" "items ! i = it"
      have "ppid (?items ! i) = ident_pid (?items ! k)" "?items ! i \<in> set ?items"
        using at [OF i(1)] i below(3) j len by (simp_all add: marks_def)
      with c j show "connected (?items ! i)" by (intro closed) blast+
    qed
  qed
  show ?thesis
  proof (rule nth_equalityI)
    fix i assume "i < length ?items"
    then have i: "i < length items" using len by simp
    have "connected (?items ! i) = descends root items (items ! i)"
      using at [OF i] all [rule_format, OF _ i refl] by (auto simp: marks_def)
    with at [OF i] i show "?items ! i = map (\<lambda>it. it\<lparr>connected := descends root items it\<rparr>) items ! i"
      by (simp add: marks_def)
  qed (simp add: len)
qed

end
