(* ===== verification/Agentwatch_Signal.thy ===== *)
theory Agentwatch_Signal
  imports Agentwatch_Tree
begin

text \<open>
  What \<open>signal_tree\<close> of \<open>src/agentwatch.c\<close> signals: the bounded scan is the list of the identities
  read, cut at its two limits, and the targets of \<open>kill\<close> are the group of the root and the
  descendants whose identity is the same when it is read again.
\<close>

section \<open>The scan\<close>

definition numeric_name :: "cstr \<Rightarrow> bool" where
  "numeric_name name \<longleftrightarrow> name \<noteq> [] \<and> is_digit (hd name)"

text \<open>The process a name of \<open>/proc\<close> stands for.\<close>

definition name_pid :: "cstr \<Rightarrow> nat option" where
  "name_pid name =
     (case strtol10 name of
        None \<Rightarrow> None
      | Some (v, rest, overflow) \<Rightarrow>
          if overflow \<or> rest \<noteq> [] \<or> v \<le> 0 \<or> v > INT_MAX then None else Some (nat v))"

definition identity_of :: "proc_world \<Rightarrow> cstr \<Rightarrow> identity option" where
  "identity_of w name =
     (case name_pid name of None \<Rightarrow> None | Some pid \<Rightarrow> fst (snd (read_identity w 0 pid 0)))"

text \<open>A name whose process could not be read for another reason than that it is gone.\<close>

definition unreadable :: "proc_world \<Rightarrow> cstr \<Rightarrow> bool" where
  "unreadable w name =
     (case name_pid name of None \<Rightarrow> False | Some pid \<Rightarrow> fst (read_identity w 0 pid 0) < 0)"

lemma parse_stat_record_ident:
  "parse_stat_record t pid e = (Some i, e1) \<Longrightarrow> ident_pid i = pid \<and> \<not> connected i"
  unfolding parse_stat_record_def Let_def
  by (auto split: option.splits prod.splits if_splits)

definition read_result_ok :: "nat \<Rightarrow> int \<times> identity option \<times> nat \<Rightarrow> bool" where
  "read_result_ok pid r \<longleftrightarrow>
     (case r of
        (status, None, e) \<Rightarrow> status = 0 \<or> status = -1
      | (status, Some i, e) \<Rightarrow> status = 1 \<and> ident_pid i = pid \<and> \<not> connected i)"

lemma read_identity_result: "read_result_ok pid (read_identity w r pid e)"
  unfolding read_identity_def
  by (auto simp: read_result_ok_def split: sum.splits prod.splits option.splits dest: parse_stat_record_ident)

lemma read_identity_cases:
  obtains (found) i e1 where "read_identity w r pid e = (1, Some i, e1)" "ident_pid i = pid" "\<not> connected i"
  | (gone) e1 where "read_identity w r pid e = (0, None, e1)"
  | (failed) e1 where "read_identity w r pid e = (-1, None, e1)"
  using read_identity_result [of pid w r e] unfolding read_result_ok_def
  by (cases "read_identity w r pid e") (auto split: option.splits)

lemma name_pid_pos: "name_pid name = Some pid \<Longrightarrow> 0 < pid"
  unfolding name_pid_def by (auto split: option.splits prod.splits if_splits)

lemma identity_of_ident:
  assumes "identity_of w name = Some i"
  shows "0 < ident_pid i \<and> \<not> connected i"
proof -
  from assms obtain pid where p: "name_pid name = Some pid" "fst (snd (read_identity w 0 pid 0)) = Some i"
    unfolding identity_of_def by (auto split: option.splits)
  from p(2) have "ident_pid i = pid \<and> \<not> connected i"
    by (cases rule: read_identity_cases [of w 0 pid 0]) simp_all
  with name_pid_pos [OF p(1)] show ?thesis by simp
qed

text \<open>One step of the loop, by what the name is.\<close>

lemma proc_entries_Cons:
  assumes "numeric_name name" and "inspected < PROC_ENTRY_LIMIT"
  shows "\<exists>e1. proc_entries w (name # names) ee e inspected items u =
     (case name_pid name of
        None \<Rightarrow> proc_entries w names ee e1 (inspected + 1) items u
      | Some pid \<Rightarrow>
          if length items = IDENTITY_LIMIT then (items, True)
          else
            (case identity_of w name of
               None \<Rightarrow> proc_entries w names ee e1 (inspected + 1) items (u \<or> unreadable w name)
             | Some i \<Rightarrow> proc_entries w names ee e1 (inspected + 1) (items @ [i]) u))"
proof (cases "name_pid name")
  case None
  then show ?thesis using assms
    by (auto simp: numeric_name_def name_pid_def split: option.splits prod.splits if_splits)
next
  case (Some pid)
  then obtain v where v: "strtol10 name = Some (v, [], False)" "\<not> v \<le> 0" "\<not> v > INT_MAX" "pid = nat v"
    by (auto simp: name_pid_def split: option.splits prod.splits if_splits)
  show ?thesis
  proof (cases "length items = IDENTITY_LIMIT")
    case True
    with Some v assms show ?thesis by (simp add: numeric_name_def)
  next
    case False
    from Some v assms False show ?thesis
      by (cases rule: read_identity_cases [of w 0 pid 0])
        (simp_all add: numeric_name_def identity_of_def unreadable_def, blast+)
  qed
qed

lemma proc_entries_skip:
  "\<not> numeric_name name \<Longrightarrow> proc_entries w (name # names) ee e inspected items u = proc_entries w names ee e inspected items u"
  by (simp add: numeric_name_def)

lemma proc_entries_full:
  "numeric_name name \<Longrightarrow> PROC_ENTRY_LIMIT \<le> inspected \<Longrightarrow> proc_entries w (name # names) ee e inspected items u = (items, True)"
  by (simp add: numeric_name_def)

lemma identity_of_None: "name_pid name = None \<Longrightarrow> identity_of w name = None \<and> \<not> unreadable w name"
  by (simp add: identity_of_def unreadable_def)

lemma identity_of_readable:
  assumes "identity_of w name = Some i"
  shows "name_pid name \<noteq> None \<and> \<not> unreadable w name"
proof -
  from assms obtain pid where p: "name_pid name = Some pid" "fst (snd (read_identity w 0 pid 0)) = Some i"
    unfolding identity_of_def by (auto split: option.splits)
  from p(2) have "\<not> fst (read_identity w 0 pid 0) < 0"
    by (cases rule: read_identity_cases [of w 0 pid 0]) simp_all
  with p(1) show ?thesis by (simp add: unreadable_def)
qed

lemma scan_entries:
  "inspected \<le> PROC_ENTRY_LIMIT \<Longrightarrow> length items \<le> IDENTITY_LIMIT \<Longrightarrow>
   fst (proc_entries w names ee e inspected items u) =
     take IDENTITY_LIMIT (items @ List.map_filter (identity_of w)
       (take (PROC_ENTRY_LIMIT - inspected) (filter numeric_name names)))"
proof (induction names arbitrary: e inspected items u)
  case Nil
  then show ?case by (simp add: map_filter_simps)
next
  case (Cons name names)
  consider "\<not> numeric_name name" | "numeric_name name" "inspected = PROC_ENTRY_LIMIT"
    | (step) "numeric_name name" "inspected < PROC_ENTRY_LIMIT" using Cons.prems by fastforce
  then show ?case
  proof cases
    case 1
    from Cons 1 show ?thesis unfolding proc_entries_skip [OF 1] by simp
  next
    case 2
    from Cons.prems 2 show ?thesis unfolding proc_entries_full [OF 2(1) eq_imp_le [OF 2(2) [symmetric]]] by (simp add: map_filter_simps)
  next
    case step
    from step(2) have k: "PROC_ENTRY_LIMIT - inspected = Suc (PROC_ENTRY_LIMIT - (inspected + 1))" by simp
    from step(2) have l: "inspected + 1 \<le> PROC_ENTRY_LIMIT" by simp
    obtain e1 where e: "proc_entries w (name # names) ee e inspected items u =
     (case name_pid name of
        None \<Rightarrow> proc_entries w names ee e1 (inspected + 1) items u
      | Some pid \<Rightarrow>
          if length items = IDENTITY_LIMIT then (items, True)
          else
            (case identity_of w name of
               None \<Rightarrow> proc_entries w names ee e1 (inspected + 1) items (u \<or> unreadable w name)
             | Some i \<Rightarrow> proc_entries w names ee e1 (inspected + 1) (items @ [i]) u))"
      using proc_entries_Cons [OF step] by blast
    have f: "take (PROC_ENTRY_LIMIT - inspected) (filter numeric_name (name # names))
        = name # take (PROC_ENTRY_LIMIT - (inspected + 1)) (filter numeric_name names)"
      unfolding k using step(1) by simp
    show ?thesis
    proof (cases "name_pid name = None")
      case True
      with Cons.IH [OF l Cons.prems(2)] identity_of_None [OF True, of w] show ?thesis
        unfolding e f by (simp add: map_filter_simps)
    next
      case False
      show ?thesis
      proof (cases "length items = IDENTITY_LIMIT")
        case True
        with False show ?thesis unfolding e by auto
      next
        case n: False
        then have m: "length (items @ [i]) \<le> IDENTITY_LIMIT" for i using Cons.prems(2) by simp
        from False n Cons.IH [OF l Cons.prems(2)] Cons.IH [OF l m] show ?thesis
          unfolding e f by (auto simp: map_filter_simps split: option.splits)
      qed
    qed
  qed
qed

text \<open>A scan that leaves no uncertainty has seen every process that could be read.\<close>

lemma scan_certain:
  "\<not> snd (proc_entries w names ee e inspected items u) \<Longrightarrow>
   \<not> u \<and> list_all (\<lambda>name. \<not> unreadable w name) (filter numeric_name names)
   \<and> fst (proc_entries w names ee e inspected items u) = items @ List.map_filter (identity_of w) (filter numeric_name names)"
proof (induction names arbitrary: e inspected items u)
  case Nil
  then show ?case by (simp add: map_filter_simps)
next
  case (Cons name names)
  consider "\<not> numeric_name name" | "numeric_name name" "inspected \<ge> PROC_ENTRY_LIMIT"
    | (step) "numeric_name name" "inspected < PROC_ENTRY_LIMIT" by fastforce
  then show ?case
  proof cases
    case 1
    have f: "filter numeric_name (name # names) = filter numeric_name names" using 1 by simp
    from Cons show ?thesis unfolding proc_entries_skip [OF 1] f by blast
  next
    case 2
    from Cons.prems show ?thesis unfolding proc_entries_full [OF 2] by simp
  next
    case step
    obtain e1 where e: "proc_entries w (name # names) ee e inspected items u =
     (case name_pid name of
        None \<Rightarrow> proc_entries w names ee e1 (inspected + 1) items u
      | Some pid \<Rightarrow>
          if length items = IDENTITY_LIMIT then (items, True)
          else
            (case identity_of w name of
               None \<Rightarrow> proc_entries w names ee e1 (inspected + 1) items (u \<or> unreadable w name)
             | Some i \<Rightarrow> proc_entries w names ee e1 (inspected + 1) (items @ [i]) u))"
      using proc_entries_Cons [OF step] by blast
    show ?thesis
    proof (cases "name_pid name")
      case None
      have p: "proc_entries w (name # names) ee e inspected items u = proc_entries w names ee e1 (inspected + 1) items u"
        unfolding e None by simp
      have f: "list_all (\<lambda>name. \<not> unreadable w name) (filter numeric_name (name # names))
            = list_all (\<lambda>name. \<not> unreadable w name) (filter numeric_name names)"
          "List.map_filter (identity_of w) (filter numeric_name (name # names))
            = List.map_filter (identity_of w) (filter numeric_name names)"
        using identity_of_None [OF None, of w] step(1) by (simp_all add: map_filter_simps)
      from Cons show ?thesis unfolding p f by blast
    next
      case (Some pid)
      from Cons.prems have n: "length items \<noteq> IDENTITY_LIMIT" unfolding e Some by auto
      show ?thesis
      proof (cases "identity_of w name")
        case None
        have p: "proc_entries w (name # names) ee e inspected items u
            = proc_entries w names ee e1 (inspected + 1) items (u \<or> unreadable w name)"
          unfolding e Some None using n by simp
        have f: "list_all (\<lambda>name. \<not> unreadable w name) (filter numeric_name (name # names))
              \<longleftrightarrow> \<not> unreadable w name \<and> list_all (\<lambda>name. \<not> unreadable w name) (filter numeric_name names)"
            "List.map_filter (identity_of w) (filter numeric_name (name # names))
              = List.map_filter (identity_of w) (filter numeric_name names)"
          using None step(1) by (simp_all add: map_filter_simps)
        from Cons show ?thesis unfolding p f by blast
      next
        case (Some i)
        have p: "proc_entries w (name # names) ee e inspected items u
            = proc_entries w names ee e1 (inspected + 1) (items @ [i]) u"
          unfolding e Some using n identity_of_readable [OF Some] by auto
        have f: "list_all (\<lambda>name. \<not> unreadable w name) (filter numeric_name (name # names))
              \<longleftrightarrow> list_all (\<lambda>name. \<not> unreadable w name) (filter numeric_name names)"
            "items @ List.map_filter (identity_of w) (filter numeric_name (name # names))
              = (items @ [i]) @ List.map_filter (identity_of w) (filter numeric_name names)"
          using Some identity_of_readable [OF Some] step(1) by (simp_all add: map_filter_simps)
        from Cons show ?thesis unfolding p f by blast
      qed
    qed
  qed
qed

section \<open>The targets\<close>

text \<open>The identities of one scan of \<open>/proc\<close>, in the order of the directory, cut at both limits.\<close>

definition scanned :: "proc_world \<Rightarrow> identity list" where
  "scanned w =
     (case w_opendir w of
        None \<Rightarrow> []
      | Some (names, e) \<Rightarrow>
          take IDENTITY_LIMIT (List.map_filter (identity_of w)
            (take PROC_ENTRY_LIMIT (filter numeric_name names))))"

text \<open>The process still is the one that was scanned.\<close>

definition same_process :: "proc_world \<Rightarrow> identity \<Rightarrow> bool" where
  "same_process w it \<longleftrightarrow>
     map_option starttime (fst (snd (read_identity w 1 (ident_pid it) 0))) = Some (starttime it)"

definition delivered :: "proc_world \<Rightarrow> int \<Rightarrow> bool" where
  "delivered w target \<longleftrightarrow> w_kill w target = 0 \<or> w_kill w target = ESRCH"

definition own_group :: "proc_world \<Rightarrow> nat \<Rightarrow> int list" where
  "own_group w root = (if root > 1 \<and> root \<noteq> w_getpgrp w then [- int root] else [])"

definition signalled :: "proc_world \<Rightarrow> nat \<Rightarrow> identity list \<Rightarrow> int list" where
  "signalled w root items =
     map (\<lambda>it. int (ident_pid it))
       (filter (\<lambda>it. connected it \<and> ident_pid it \<noteq> w_getpid w \<and> ident_pid it \<noteq> root \<and> same_process w it) items)"

lemma signal_items_targets:
  "fst (signal_items w root items ok u kills) \<longleftrightarrow> ok \<and> list_all (delivered w) (signalled w root items)"
  "snd (snd (signal_items w root items ok u kills)) = kills @ signalled w root items"
proof (induction items arbitrary: ok u kills)
  case (Cons it items)
  {
    case 1
    show ?case
      by (cases rule: read_identity_cases [of w 1 "ident_pid it" 0])
        (auto simp: Cons.IH signalled_def same_process_def delivered_def Let_def)
  next
    case 2
    show ?case
      by (cases rule: read_identity_cases [of w 1 "ident_pid it" 0])
        (auto simp: Cons.IH signalled_def same_process_def delivered_def Let_def)
  }
qed (simp_all add: signalled_def)

lemma signal_items_certain: "\<not> fst (snd (signal_items w root items ok u kills)) \<Longrightarrow> \<not> u"
proof (induction items arbitrary: ok u kills)
  case (Cons it items)
  then show ?case
    by (cases rule: read_identity_cases [of w 1 "ident_pid it" 0]) (auto simp: Let_def split: if_splits)
qed simp

lemma scanned_fresh:
  assumes "it \<in> set (scanned w)"
  shows "0 < ident_pid it \<and> \<not> connected it"
proof -
  from assms obtain name where "identity_of w name = Some it"
    unfolding scanned_def List.map_filter_def by (force split: option.splits dest!: in_set_takeD)
  then show ?thesis by (rule identity_of_ident)
qed

lemma connect_loop_Nil [simp]: "connect_loop root [] = []"
  by (simp add: connect_loop.simps)

lemma scan_descendants_scanned:
  "fst (scan_descendants w root u) = map (\<lambda>it. it\<lparr>connected := descends root (scanned w) it\<rparr>) (scanned w)"
proof (cases "w_opendir w")
  case None
  then show ?thesis by (simp add: scan_descendants_def scanned_def)
next
  case (Some ne)
  obtain names e where ne: "ne = (names, e)" by fastforce
  obtain items1 u1 where p: "proc_entries w names e 0 0 [] u = (items1, u1)" by fastforce
  have "fst (proc_entries w names e 0 0 [] u) = scanned w"
    using scan_entries [of 0 "[]" w names e 0 u] Some ne by (simp add: scanned_def)
  with Some ne connect_loop_descends [of "scanned w" root] scanned_fresh [of _ w] show ?thesis
    by (simp add: scan_descendants_def p)
qed

text \<open>The targets of \<open>signal_tree\<close>: the group, then the descendants that still are themselves.\<close>

definition tree_targets :: "proc_world \<Rightarrow> nat \<Rightarrow> int list" where
  "tree_targets w root =
     own_group w root
     @ map (\<lambda>it. int (ident_pid it))
         (filter (\<lambda>it. descends root (scanned w) it \<and> ident_pid it \<noteq> w_getpid w \<and> ident_pid it \<noteq> root
            \<and> same_process w it) (scanned w))"

lemma same_process_connected [simp]: "same_process w (it\<lparr>connected := c\<rparr>) = same_process w it"
  by (simp add: same_process_def)

lemma signalled_scanned:
  "signalled w root (map (\<lambda>it. it\<lparr>connected := descends root (scanned w) it\<rparr>) (scanned w)) =
     map (\<lambda>it. int (ident_pid it))
         (filter (\<lambda>it. descends root (scanned w) it \<and> ident_pid it \<noteq> w_getpid w \<and> ident_pid it \<noteq> root
            \<and> same_process w it) (scanned w))"
  unfolding signalled_def by (simp add: filter_map o_def)

lemma signal_tree_targets:
  assumes "w_calloc w"
  shows "fst (signal_tree w root u) \<longleftrightarrow> list_all (delivered w) (tree_targets w root)"
    and "snd (snd (signal_tree w root u)) = tree_targets w root"
proof -
  obtain items u1 where s: "scan_descendants w root u = (items, u1)" by fastforce
  from scan_descendants_scanned [of w root u] s
  have i: "items = map (\<lambda>it. it\<lparr>connected := descends root (scanned w) it\<rparr>) (scanned w)" by simp
  show "fst (signal_tree w root u) \<longleftrightarrow> list_all (delivered w) (tree_targets w root)"
    using assms unfolding signal_tree_def tree_targets_def s own_group_def
    by (simp add: Let_def signal_items_targets delivered_def i signalled_scanned)
  show "snd (snd (signal_tree w root u)) = tree_targets w root"
    using assms unfolding signal_tree_def tree_targets_def s own_group_def
    by (simp add: Let_def signal_items_targets i signalled_scanned)
qed

text \<open>No target is the caller's own group, process 1's group or every process.\<close>

lemma tree_targets_safe:
  "list_all (\<lambda>k. 0 < k \<and> k \<noteq> int (w_getpid w) \<and> k \<noteq> int root
     \<or> k = - int root \<and> 1 < root \<and> root \<noteq> w_getpgrp w) (tree_targets w root)"
  unfolding tree_targets_def own_group_def
  by (auto simp: list_all_iff dest: scanned_fresh)

section \<open>A concrete tree\<close>

text \<open>The command is process 100, with a child 101 and its child 102, listed before it.\<close>

definition stat_line :: "int \<Rightarrow> cstr" where
  "stat_line parent = ''1 (sh'' @ CHR '')'' # SP # CHR ''S'' # SP # num parent @ field_text (replicate 17 0 @ [7]) @ []"

lemma stat_line_reads:
  "0 \<le> parent \<Longrightarrow> parent \<le> 1000 \<Longrightarrow> parse_stat_record (stat_line parent) pid e =
     (Some \<lparr>ident_pid = pid, ppid = nat parent, starttime = 7, connected = False\<rparr>, 0)"
  unfolding stat_line_def
  using parse_stat_record_reads [of "[]" "CHR ''S''" "replicate 17 0 @ [7]" parent "''1 (sh''" pid e]
  by (simp add: INT_MAX_def ULLONG_MAX_def)

lemma stat_line_texts: "stat_line 100 = ''1 (sh) S 100 0 0 0 0 0 0 0 0 0 0 0 0 0 0 0 0 0 7''"
 "stat_line 101 = ''1 (sh) S 101 0 0 0 0 0 0 0 0 0 0 0 0 0 0 0 0 0 7''"
 "stat_line 1 = ''1 (sh) S 1 0 0 0 0 0 0 0 0 0 0 0 0 0 0 0 0 0 7''"
  by code_simp+

definition forest :: proc_world where
  "forest = \<lparr>w_calloc = True, w_opendir = Some ([''1'', ''self'', ''100'', ''102'', ''101'', ''103''], 0),
     w_stat = \<lambda>r pid. Inr (Read_bytes (stat_line (if pid = 102 then 101 else if pid = 101 then 100 else 1)) Read_eof),
     w_kill = \<lambda>target. 0, w_getpid = 50, w_getpgrp = 50\<rparr>"

lemma forest_read: "read_identity forest r pid e =
   (1, Some \<lparr>ident_pid = pid, ppid = if pid = 102 then 101 else if pid = 101 then 100 else 1, starttime = 7, connected = False\<rparr>, 0)"
proof -
  have c: "cstr_of (stat_line p) = stat_line p" "length (stat_line p) \<le> 4096" "stat_line p \<noteq> []" if "p \<in> {1, 100, 101}" for p
    using that by (auto simp: stat_line_texts cstr_of_def)
  show ?thesis
    using c[of 1] c[of 100] c[of 101]
    by (simp add: stat_line_reads read_identity_def forest_def PROC_RECORD_LIMIT_def)
qed

lemma forest_names: "name_pid ''1'' = Some 1" "name_pid ''100'' = Some 100" "name_pid ''101'' = Some 101" "name_pid ''102'' = Some 102" "name_pid ''103'' = Some 103"
  by code_simp+

abbreviation process_entry :: "nat \<Rightarrow> nat \<Rightarrow> identity" where
  "process_entry p q \<equiv> \<lparr>ident_pid = p, ppid = q, starttime = 7, connected = False\<rparr>"

lemma forest_scanned: "scanned forest = [process_entry 1 1, process_entry 100 1, process_entry 102 101, process_entry 101 100, process_entry 103 1]"
proof -
  have n: "numeric_name ''1''" "\<not> numeric_name ''self''" "numeric_name ''100''" "numeric_name ''101''"
    "numeric_name ''102''" "numeric_name ''103''" by code_simp+
  have o: "w_opendir forest = Some ([''1'', ''self'', ''100'', ''102'', ''101'', ''103''], 0)" by (simp add: forest_def)
  show ?thesis
    by (simp add: scanned_def o n PROC_ENTRY_LIMIT_def IDENTITY_LIMIT_def map_filter_simps identity_of_def forest_names forest_read)
qed

lemma forest_connected: "connect_loop 100 (scanned forest) = [process_entry 1 1, process_entry 100 1, (process_entry 102 101)\<lparr>connected := True\<rparr>, (process_entry 101 100)\<lparr>connected := True\<rparr>, process_entry 103 1]"
  unfolding forest_scanned by code_simp

lemma forest_kills: "snd (snd (signal_tree forest 100 False)) = [-100, 102, 101]"
proof -
  have "signalled forest 100 (connect_loop 100 (scanned forest)) = [102, 101]"
    unfolding forest_connected by (simp add: signalled_def same_process_def forest_read) (simp add: forest_def)
  moreover have "connect_loop 100 (scanned forest) = map (\<lambda>it. it\<lparr>connected := descends 100 (scanned forest) it\<rparr>) (scanned forest)"
    by (rule connect_loop_descends) (simp add: forest_scanned)
  ultimately have "tree_targets forest 100 = [-100, 102, 101]"
    unfolding tree_targets_def by (simp add: signalled_scanned own_group_def forest_def)
  with signal_tree_targets(2) [of forest 100 False] show ?thesis by (simp add: forest_def)
qed

lemma forest_kernel: "w_calloc forest" "delivered forest target"
  by (simp_all add: forest_def delivered_def)

end
