(* ===== verification/Agentwatch_Loop.thy ===== *)
theory Agentwatch_Loop
  imports Agentwatch_Tree
begin

text \<open>
  The supervision of the command in \<open>src/agentwatch.c\<close>: signal handlers and the wake pipe, the
  start of the command with the pipe that reports a failed \<open>execvp\<close>, the loop that reaps,
  escalates and waits, and the exit status.  One turn of the loop is \<open>turn\<close>, a function of what
  the kernel answers during it (\<open>tick\<close>); \<open>supervise_loop\<close> runs it over a list of ticks and is
  \<open>None\<close> when the loop still runs after the last one.
\<close>

section \<open>The state\<close>

definition SIGHUP :: nat where "SIGHUP = 1"
definition SIGINT :: nat where "SIGINT = 2"
definition SIGKILL :: nat where "SIGKILL = 9"
definition SIGPIPE :: nat where "SIGPIPE = 13"
definition SIGTERM :: nat where "SIGTERM = 15"
definition SIGCHLD :: nat where "SIGCHLD = 17"
definition ECHILD :: nat where "ECHILD = 10"

text \<open>
  The two global variables, \<open>errno\<close>, and the local variables of \<open>supervise\<close> that its loop
  changes.  \<open>wake_bytes\<close> counts the bytes in the wake pipe; \<open>sent\<close> records each round of signals
  with the clock of its turn and the targets of \<open>kill\<close>.
\<close>

record watch =
  first_interrupt :: nat
  wake_open :: bool
  wake_bytes :: nat
  sys_errno :: nat
  cleanup_deadline :: nat
  terminating :: bool
  killed :: bool
  direct_done :: bool
  no_children :: bool
  timed_out :: bool
  internal :: bool
  uncertain :: bool
  direct_status :: nat
  sent :: "(nat \<times> nat \<times> int list) list"

definition initial_watch :: watch where
  "initial_watch =
     \<lparr>first_interrupt = 0, wake_open = True, wake_bytes = 0, sys_errno = 0, cleanup_deadline = 0,
      terminating = False, killed = False, direct_done = False, no_children = False,
      timed_out = False, internal = False, uncertain = False, direct_status = 0, sent = []\<rparr>"

section \<open>Signals\<close>

text \<open>A delivered signal and the error number of the \<open>write\<close> in its handler, 0 when it succeeds.\<close>

type_synonym delivery = "nat \<times> nat"

definition wake_handler :: "delivery \<Rightarrow> watch \<Rightarrow> watch" where
  "wake_handler d st =
     (case d of
        (signum, write_errno) \<Rightarrow>
          (let saved = sys_errno st;
               st = (if signum \<noteq> SIGCHLD \<and> first_interrupt st = 0 then st\<lparr>first_interrupt := signum\<rparr> else st);
               st = (if wake_open st
                     then (if write_errno = 0 then st\<lparr>wake_bytes := wake_bytes st + 1\<rparr> else st\<lparr>sys_errno := write_errno\<rparr>)
                     else st)
           in st\<lparr>sys_errno := saved\<rparr>))"

definition deliver :: "delivery list \<Rightarrow> watch \<Rightarrow> watch" where
  "deliver ds st = fold wake_handler ds st"

datatype disposition = Wake_handler | Ignore_signal

text \<open>The loop over the signals: what was installed, and whether every \<open>sigaction\<close> succeeded.\<close>

fun install_loop :: "(nat \<Rightarrow> bool) \<Rightarrow> nat list \<Rightarrow> (nat \<times> disposition) list \<Rightarrow> bool \<times> (nat \<times> disposition) list" where
  "install_loop sigaction [] done_so_far = (True, done_so_far)"
| "install_loop sigaction (s # signals) done_so_far =
     (if sigaction s then install_loop sigaction signals (done_so_far @ [(s, Wake_handler)]) else (False, done_so_far))"

definition install_handlers :: "bool \<Rightarrow> (nat \<Rightarrow> bool) \<Rightarrow> bool \<times> (nat \<times> disposition) list" where
  "install_handlers pipe_ok sigaction =
     (if \<not> pipe_ok then (False, [])
      else
        (case install_loop sigaction [SIGINT, SIGTERM, SIGHUP, SIGCHLD] [] of
           (ok, installed) \<Rightarrow>
             if \<not> ok then (False, installed)
             else if \<not> sigaction SIGPIPE then (False, installed)
             else (True, installed @ [(SIGPIPE, Ignore_signal)])))"

section \<open>The child\<close>

text \<open>The four bytes of an \<open>int\<close>, least significant first.\<close>

definition int_bytes :: "nat \<Rightarrow> char list" where
  "int_bytes e =
     map (\<lambda>b. char_of (b :: nat)) [e mod 256, e div 256 mod 256, e div 65536 mod 256, e div 16777216 mod 256]"

text \<open>
  The bytes that reach the pipe.  An answer of \<open>write\<close> is an error number or the number of bytes
  taken, at most those offered; \<open>write\<close> takes everything once no answer is left.
\<close>

fun child_report_errno :: "char list \<Rightarrow> (nat + nat) list \<Rightarrow> char list" where
  "child_report_errno [] answers = []"
| "child_report_errno (b # bs) [] = b # bs"
| "child_report_errno (b # bs) (Inl e # answers) =
     (if e = EINTR then child_report_errno (b # bs) answers else [])"
| "child_report_errno (b # bs) (Inr amount # answers) =
     (if amount > 0 then take amount (b # bs) @ child_report_errno (drop amount (b # bs)) answers else [])"

text \<open>
  Error numbers of \<open>setpgid\<close> and \<open>execvp\<close>, 0 when they succeed, and the answers of \<open>write\<close>.
  The result is the report and the exit status, \<open>None\<close> once the command has replaced the child.
\<close>

record child_world =
  cw_setpgid :: nat
  cw_execvp :: nat
  cw_write :: "(nat + nat) list"

definition child_side :: "child_world \<Rightarrow> char list \<times> int option" where
  "child_side c =
     (if cw_setpgid c \<noteq> 0 then (child_report_errno (int_bytes (cw_setpgid c)) (cw_write c), Some 127)
      else if cw_execvp c \<noteq> 0 then (child_report_errno (int_bytes (cw_execvp c)) (cw_write c), Some 127)
      else ([], None))"

section \<open>One turn of the loop\<close>

datatype wait_answer = Reaped nat nat | Wait_none | Wait_error nat

text \<open>
  The answers of one turn: the signals delivered before its test of \<open>first_interrupt\<close>, the calls of
  \<open>waitpid\<close> (then no child has changed state), the clock, the processes, and the error number of
  \<open>poll\<close>.
\<close>

record tick =
  t_signals :: "delivery list"
  t_waits :: "wait_answer list"
  t_clock :: "(int \<times> nat) option"
  t_proc :: proc_world
  t_poll :: nat

fun reap :: "nat \<Rightarrow> wait_answer list \<Rightarrow> watch \<Rightarrow> watch \<times> wait_answer" where
  "reap child [] st = (st, Wait_none)"
| "reap child (Reaped waited status # answers) st =
     reap child answers
       (if waited = child \<and> \<not> direct_done st then st\<lparr>direct_done := True, direct_status := status\<rparr> else st)"
| "reap child (Wait_none # answers) st = (st, Wait_none)"
| "reap child (Wait_error e # answers) st =
     (if e = EINTR then reap child answers st else (st, Wait_error e))"

text \<open>What the loop reads of \<open>supervise\<close> and never changes.\<close>

record supervision =
  su_options :: options
  su_child :: nat
  su_start :: nat
  su_deadline :: nat
  su_start_failed :: bool

definition set_terminating :: "supervision \<Rightarrow> nat \<Rightarrow> watch \<Rightarrow> watch" where
  "set_terminating su now st =
     (let st = (if first_interrupt st \<noteq> 0 \<and> \<not> terminating st then st\<lparr>terminating := True\<rparr> else st);
          st = (if has_timeout (su_options su) \<and> now \<ge> su_deadline su \<and> \<not> terminating st
                then st\<lparr>timed_out := True, terminating := True\<rparr> else st)
      in if (su_start_failed su \<or> internal st) \<and> \<not> terminating st then st\<lparr>terminating := True\<rparr> else st)"

definition signal_round :: "proc_world \<Rightarrow> nat \<Rightarrow> nat \<Rightarrow> nat \<Rightarrow> watch \<Rightarrow> watch" where
  "signal_round w child signum now st =
     (case signal_tree w child (uncertain st) of
        (ok, uncertain1, kills) \<Rightarrow>
          st\<lparr>uncertain := uncertain1, internal := internal st \<or> \<not> ok, sent := sent st @ [(signum, now, kills)]\<rparr>)"

definition next_deadline :: "nat \<Rightarrow> nat \<Rightarrow> watch \<Rightarrow> watch" where
  "next_deadline now delay st =
     (case add_ms now delay of
        None \<Rightarrow> st\<lparr>internal := True\<rparr>
      | Some d \<Rightarrow> st\<lparr>cleanup_deadline := d\<rparr>)"

text \<open>The escalation; the second component says that the loop is left.\<close>

definition escalate :: "supervision \<Rightarrow> proc_world \<Rightarrow> nat \<Rightarrow> watch \<Rightarrow> watch \<times> bool" where
  "escalate su w now st =
     (if terminating st \<and> cleanup_deadline st = 0 then
        (next_deadline now (grace_ms (su_options su)) (signal_round w (su_child su) SIGTERM now st), False)
      else if terminating st \<and> \<not> killed st \<and> now \<ge> cleanup_deadline st then
        (next_deadline now FINAL_REAP_MS ((signal_round w (su_child su) SIGKILL now st)\<lparr>killed := True\<rparr>), False)
      else if killed st \<and> now \<ge> cleanup_deadline st then (st\<lparr>internal := True\<rparr>, True)
      else (st, False))"

text \<open>The wait at the end: a sleep, or \<open>poll\<close> and the loop that empties the pipe.\<close>

definition wait_for_wake :: "nat \<Rightarrow> watch \<Rightarrow> watch" where
  "wait_for_wake poll_errno st =
     (if \<not> terminating st \<and> direct_done st then st
      else
        (let st = (if poll_errno \<noteq> 0 \<and> poll_errno \<noteq> EINTR then st\<lparr>internal := True\<rparr> else st) in
         if poll_errno = 0 \<and> wake_bytes st > 0 then st\<lparr>wake_bytes := 0\<rparr> else st))"

definition turn :: "supervision \<Rightarrow> tick \<Rightarrow> watch \<Rightarrow> watch \<times> bool" where
  "turn su tk st =
     (case reap (su_child su) (t_waits tk) (deliver (t_signals tk) st) of
        (st1, waited) \<Rightarrow>
          if waited = Wait_error ECHILD then (st1\<lparr>no_children := True\<rparr>, True)
          else
            (let st2 = (if waited \<noteq> Wait_none then st1\<lparr>internal := True\<rparr> else st1);
                 (st3, now) = (case monotonic_ms (t_clock tk) of
                                 None \<Rightarrow> (st2\<lparr>internal := True\<rparr>, su_start su)
                               | Some now \<Rightarrow> (st2, now));
                 (st4, left) = escalate su (t_proc tk) now (set_terminating su now st3)
             in if left then (st4, True) else (wait_for_wake (t_poll tk) st4, False)))"

fun supervise_loop :: "supervision \<Rightarrow> tick list \<Rightarrow> watch \<Rightarrow> watch option" where
  "supervise_loop su [] st = None"
| "supervise_loop su (tk # tks) st =
     (case turn su tk st of (st1, left) \<Rightarrow> if left then Some st1 else supervise_loop su tks st1)"

section \<open>The exit status\<close>

text \<open>The macros of \<open>sys/wait.h\<close>.\<close>

definition WIFEXITED :: "nat \<Rightarrow> bool" where "WIFEXITED s \<longleftrightarrow> s mod 128 = 0"
definition WEXITSTATUS :: "nat \<Rightarrow> int" where "WEXITSTATUS s = int (s div 256 mod 256)"
definition WIFSIGNALED :: "nat \<Rightarrow> bool" where "WIFSIGNALED s \<longleftrightarrow> 0 < s mod 128 \<and> s mod 128 < 127"
definition WTERMSIG :: "nat \<Rightarrow> int" where "WTERMSIG s = int (s mod 128)"

definition exit_report :: "supervision \<Rightarrow> watch \<Rightarrow> io \<Rightarrow> int \<times> io" where
  "exit_report su st s =
     (if first_interrupt st \<noteq> 0 then (128 + int (first_interrupt st), diagnostic ''INTERRUPTED'' None s)
      else if su_start_failed su then (127, escaped_command (hd (command (su_options su))) s)
      else if timed_out st then (124, diagnostic ''TIMEOUT'' None s)
      else if internal st \<or> uncertain st \<and> \<not> no_children st then (125, diagnostic ''INTERNAL_FAILURE'' None s)
      else if WIFEXITED (direct_status st) then (WEXITSTATUS (direct_status st), s)
      else if WIFSIGNALED (direct_status st) then (128 + WTERMSIG (direct_status st), s)
      else (125, diagnostic ''INTERNAL_FAILURE'' None s))"

section \<open>The whole supervision\<close>

text \<open>
  The answers before the loop: the pipes, \<open>sigaction\<close>, \<open>prctl\<close>, the clock, \<open>fork\<close>, \<open>setpgid\<close>
  in the parent (an error number or 0) and the reads of the report of the child; \<open>sw_late\<close> are the
  signals after the last turn, before the status is chosen.
\<close>

record start_world =
  sw_wake_pipe :: bool
  sw_sigaction :: "nat \<Rightarrow> bool"
  sw_subreaper :: bool
  sw_exec_pipe :: bool
  sw_clock :: "(int \<times> nat) option"
  sw_fork :: "nat option"
  sw_setpgid :: nat
  sw_report :: read_answers
  sw_late :: "delivery list"

definition report_size :: nat where "report_size = 4"

text \<open>Whether the start failed: \<open>setpgid\<close>, or the report is complete or cannot be read.\<close>

definition start_result :: "start_world \<Rightarrow> bool" where
  "start_result sw =
     (if sw_setpgid sw \<noteq> 0 \<and> sw_setpgid sw \<noteq> EACCES \<and> sw_setpgid sw \<noteq> ESRCH then True
      else
        (case read_retry report_size 0 (sw_report sw) of
           (Inl e, rest) \<Rightarrow> True
         | (Inr bytes, rest) \<Rightarrow> length bytes = report_size))"

definition start_deadline :: "start_world \<Rightarrow> options \<Rightarrow> (nat \<times> nat) option" where
  "start_deadline sw opts =
     (case monotonic_ms (sw_clock sw) of
        None \<Rightarrow> None
      | Some start \<Rightarrow>
          if has_timeout opts then map_option (\<lambda>deadline. (start, deadline)) (add_ms start (timeout_ms opts))
          else Some (start, 0))"

definition close_wake :: "watch \<Rightarrow> watch" where
  "close_wake st = st\<lparr>wake_bytes := 0\<rparr>"

definition supervise :: "start_world \<Rightarrow> tick list \<Rightarrow> options \<Rightarrow> io \<Rightarrow> ((int \<times> io) \<times> watch) option" where
  "supervise sw tks opts s =
     (if \<not> fst (install_handlers (sw_wake_pipe sw) (sw_sigaction sw)) then
        Some ((125, diagnostic ''SIGNAL_SETUP_FAILURE'' None s), initial_watch)
      else if \<not> sw_subreaper sw then
        Some ((125, diagnostic ''SUBREAPER_SETUP_FAILURE'' None s), initial_watch)
      else if \<not> sw_exec_pipe sw then
        Some ((127, diagnostic ''COMMAND_START_FAILURE'' None s), initial_watch)
      else
        (case start_deadline sw opts of
           None \<Rightarrow> Some ((125, diagnostic ''INTERNAL_FAILURE'' None s), initial_watch)
         | Some (start, deadline) \<Rightarrow>
             (case sw_fork sw of
                None \<Rightarrow> Some ((127, diagnostic ''COMMAND_START_FAILURE'' None s), initial_watch)
              | Some child \<Rightarrow>
                  (let su = \<lparr>su_options = opts, su_child = child, su_start = start, su_deadline = deadline,
                             su_start_failed = start_result sw\<rparr>
                   in case supervise_loop su tks initial_watch of
                        None \<Rightarrow> None
                      | Some st \<Rightarrow>
                          (let st1 = deliver (sw_late sw) (close_wake st)
                           in Some (exit_report su st1 s, st1))))))"

text \<open>The program: \<open>Inl\<close> is the answer before anything is started.\<close>

definition main :: "start_world \<Rightarrow> tick list \<Rightarrow> cstr list \<Rightarrow> io \<Rightarrow> ((int \<times> io) \<times> watch) option" where
  "main sw tks argv s =
     (case parse_options argv s of
        (Inl parsed, s1) \<Rightarrow>
          if parsed > 0 then Some ((0, s1), initial_watch)
          else Some ((2, diagnostic ''INVALID_ARGUMENTS'' None s1), initial_watch)
      | (Inr opts, s1) \<Rightarrow> supervise sw tks opts s1)"

end
