(* ===== verification/Agentwatch_Invariant.thy ===== *)
theory Agentwatch_Invariant
  imports Agentwatch_Loop
begin

text \<open>
  What each part of a turn of \<open>supervise\<close> changes, the relation \<open>steps\<close> of the states the loop goes
  through, and the invariant of the escalation from \<open>SIGTERM\<close> to \<open>SIGKILL\<close>.
\<close>

section \<open>What the parts change\<close>

text \<open>The first signal of a list that counts as an interruption, 0 if there is none.\<close>

definition interrupt_of :: "delivery list \<Rightarrow> nat" where
  "interrupt_of ds =
     (case filter (\<lambda>(signum, e). signum \<noteq> SIGCHLD \<and> signum \<noteq> 0) ds of [] \<Rightarrow> 0 | d # ds \<Rightarrow> fst d)"

lemma wake_handler_first:
  "first_interrupt (wake_handler d st) =
     (if first_interrupt st = 0 \<and> fst d \<noteq> SIGCHLD then fst d else first_interrupt st)"
  by (cases d) (simp add: wake_handler_def Let_def)

lemma wake_handler_fields [simp]:
  "sys_errno (wake_handler d st) = sys_errno st" "cleanup_deadline (wake_handler d st) = cleanup_deadline st"
  "terminating (wake_handler d st) = terminating st" "killed (wake_handler d st) = killed st"
  "direct_done (wake_handler d st) = direct_done st" "no_children (wake_handler d st) = no_children st"
  "timed_out (wake_handler d st) = timed_out st" "internal (wake_handler d st) = internal st"
  "uncertain (wake_handler d st) = uncertain st" "direct_status (wake_handler d st) = direct_status st"
  "sent (wake_handler d st) = sent st"
  by (simp_all add: wake_handler_def Let_def split: prod.splits)

lemma deliver_simps [simp]: "deliver [] st = st" "deliver (d # ds) st = deliver ds (wake_handler d st)"
  by (simp_all add: deliver_def)

lemma deliver_fields [simp]:
  "sys_errno (deliver ds st) = sys_errno st" "cleanup_deadline (deliver ds st) = cleanup_deadline st"
  "terminating (deliver ds st) = terminating st" "killed (deliver ds st) = killed st"
  "direct_done (deliver ds st) = direct_done st" "no_children (deliver ds st) = no_children st"
  "timed_out (deliver ds st) = timed_out st" "internal (deliver ds st) = internal st"
  "uncertain (deliver ds st) = uncertain st" "direct_status (deliver ds st) = direct_status st"
  "sent (deliver ds st) = sent st"
  by (induction ds arbitrary: st) simp_all

text \<open>The first interruption wins, whatever follows.\<close>

lemma deliver_first:
  "first_interrupt (deliver ds st) = (if first_interrupt st = 0 then interrupt_of ds else first_interrupt st)"
  by (induction ds arbitrary: st) (auto simp: interrupt_of_def wake_handler_first SIGCHLD_def)

text \<open>The status of the first answer for the child, and answers that do not end the inner loop.\<close>

fun child_status :: "nat \<Rightarrow> wait_answer list \<Rightarrow> nat option" where
  "child_status child [] = None"
| "child_status child (Reaped waited status # answers) =
     (if waited = child then Some status else child_status child answers)"
| "child_status child (a # answers) = child_status child answers"

fun harmless :: "wait_answer \<Rightarrow> bool" where
  "harmless (Reaped waited status) \<longleftrightarrow> True"
| "harmless Wait_none \<longleftrightarrow> False"
| "harmless (Wait_error e) \<longleftrightarrow> e = EINTR"

lemma reap_fields:
  "reap child answers st = (st1, a) \<Longrightarrow>
     first_interrupt st1 = first_interrupt st \<and> cleanup_deadline st1 = cleanup_deadline st
     \<and> terminating st1 = terminating st \<and> killed st1 = killed st \<and> no_children st1 = no_children st
     \<and> timed_out st1 = timed_out st \<and> internal st1 = internal st \<and> uncertain st1 = uncertain st
     \<and> sent st1 = sent st"
  by (induction child answers st rule: reap.induct) (auto split: if_splits)

lemma reap_harmless:
  "list_all harmless answers \<Longrightarrow> reap child (answers @ rest) st = reap child rest (fst (reap child answers st))"
  by (induction child answers st rule: reap.induct) simp_all

lemma reap_child:
  "list_all harmless answers \<Longrightarrow>
     direct_done (fst (reap child answers st)) = (direct_done st \<or> child_status child answers \<noteq> None)
     \<and> direct_status (fst (reap child answers st))
        = (if direct_done st then direct_status st
           else case child_status child answers of None \<Rightarrow> direct_status st | Some s \<Rightarrow> s)
     \<and> snd (reap child answers st) = Wait_none"
  by (induction child answers st rule: reap.induct) auto

lemma set_terminating_fields [simp]:
  "first_interrupt (set_terminating su now st) = first_interrupt st"
  "cleanup_deadline (set_terminating su now st) = cleanup_deadline st"
  "killed (set_terminating su now st) = killed st" "direct_done (set_terminating su now st) = direct_done st"
  "no_children (set_terminating su now st) = no_children st" "internal (set_terminating su now st) = internal st"
  "uncertain (set_terminating su now st) = uncertain st" "sent (set_terminating su now st) = sent st"
  "direct_status (set_terminating su now st) = direct_status st"
  by (simp_all add: set_terminating_def Let_def)

lemma set_terminating_terminating:
  "terminating (set_terminating su now st) \<longleftrightarrow>
     terminating st \<or> first_interrupt st \<noteq> 0 \<or> has_timeout (su_options su) \<and> su_deadline su \<le> now
     \<or> su_start_failed su \<or> internal st"
  by (auto simp: set_terminating_def Let_def)

lemma set_terminating_timed_out:
  "timed_out (set_terminating su now st) \<longleftrightarrow>
     timed_out st \<or> \<not> terminating st \<and> first_interrupt st = 0 \<and> has_timeout (su_options su) \<and> su_deadline su \<le> now"
  by (simp add: set_terminating_def Let_def) auto

lemma signal_round_fields [simp]:
  "first_interrupt (signal_round w child signum now st) = first_interrupt st"
  "cleanup_deadline (signal_round w child signum now st) = cleanup_deadline st"
  "terminating (signal_round w child signum now st) = terminating st"
  "killed (signal_round w child signum now st) = killed st"
  "direct_done (signal_round w child signum now st) = direct_done st"
  "no_children (signal_round w child signum now st) = no_children st"
  "timed_out (signal_round w child signum now st) = timed_out st"
  "direct_status (signal_round w child signum now st) = direct_status st"
  "sent (signal_round w child signum now st) =
     sent st @ [(signum, now, snd (snd (signal_tree w child (uncertain st))))]"
  by (simp_all add: signal_round_def split: prod.splits)

lemma signal_round_internal: "internal st \<Longrightarrow> internal (signal_round w child signum now st)"
  by (simp add: signal_round_def split: prod.splits)

lemma next_deadline_fields [simp]:
  "first_interrupt (next_deadline now delay st) = first_interrupt st"
  "terminating (next_deadline now delay st) = terminating st"
  "killed (next_deadline now delay st) = killed st" "direct_done (next_deadline now delay st) = direct_done st"
  "no_children (next_deadline now delay st) = no_children st" "timed_out (next_deadline now delay st) = timed_out st"
  "uncertain (next_deadline now delay st) = uncertain st" "direct_status (next_deadline now delay st) = direct_status st"
  "sent (next_deadline now delay st) = sent st"
  by (simp_all add: next_deadline_def split: option.splits)

lemma next_deadline_fits:
  assumes "now + delay \<le> UINT64_MAX"
  shows "next_deadline now delay st = st\<lparr>cleanup_deadline := now + delay\<rparr>"
proof -
  from assms have "\<not> now > UINT64_MAX - delay" by simp
  then show ?thesis by (simp add: next_deadline_def add_ms_def)
qed

lemma next_deadline_internal: "internal st \<Longrightarrow> internal (next_deadline now delay st)"
  by (simp add: next_deadline_def split: option.splits)

lemma wait_for_wake_fields [simp]:
  "first_interrupt (wait_for_wake e st) = first_interrupt st" "cleanup_deadline (wait_for_wake e st) = cleanup_deadline st"
  "terminating (wait_for_wake e st) = terminating st" "killed (wait_for_wake e st) = killed st"
  "direct_done (wait_for_wake e st) = direct_done st" "no_children (wait_for_wake e st) = no_children st"
  "timed_out (wait_for_wake e st) = timed_out st" "uncertain (wait_for_wake e st) = uncertain st"
  "direct_status (wait_for_wake e st) = direct_status st" "sent (wait_for_wake e st) = sent st"
  by (simp_all add: wait_for_wake_def Let_def)

lemma wait_for_wake_internal:
  "internal (wait_for_wake e st) \<longleftrightarrow>
     internal st \<or> e \<noteq> 0 \<and> e \<noteq> EINTR \<and> \<not> (\<not> terminating st \<and> direct_done st)"
  by (simp add: wait_for_wake_def Let_def)

section \<open>A turn\<close>

definition tick_now :: "supervision \<Rightarrow> tick \<Rightarrow> nat" where
  "tick_now su tk = (case monotonic_ms (t_clock tk) of None \<Rightarrow> su_start su | Some now \<Rightarrow> now)"

text \<open>The state after the reaping and the clock, as far as the escalation depends on it.\<close>

definition observed :: "tick \<Rightarrow> watch \<Rightarrow> watch \<Rightarrow> bool" where
  "observed tk st st1 \<longleftrightarrow>
     first_interrupt st1 = (if first_interrupt st = 0 then interrupt_of (t_signals tk) else first_interrupt st)
     \<and> cleanup_deadline st1 = cleanup_deadline st \<and> terminating st1 = terminating st \<and> killed st1 = killed st
     \<and> no_children st1 = no_children st \<and> timed_out st1 = timed_out st \<and> uncertain st1 = uncertain st
     \<and> sent st1 = sent st \<and> (internal st \<longrightarrow> internal st1)"

lemma turn_cases:
  assumes "turn su tk st = (st', left)"
  obtains (ended) st1 where "left" "observed tk st st1" "st' = st1\<lparr>no_children := True\<rparr>"
  | (left) st1 where "left" "observed tk st st1"
      "escalate su (t_proc tk) (tick_now su tk) (set_terminating su (tick_now su tk) st1) = (st', True)"
  | (went) st1 st4 where "\<not> left" "observed tk st st1"
      "escalate su (t_proc tk) (tick_now su tk) (set_terminating su (tick_now su tk) st1) = (st4, False)"
      "st' = wait_for_wake (t_poll tk) st4"
proof -
  obtain st1 waited where r: "reap (su_child su) (t_waits tk) (deliver (t_signals tk) st) = (st1, waited)" by fastforce
  from reap_fields [OF r] have o1: "observed tk st st1" by (simp add: observed_def deliver_first)
  show ?thesis
  proof (cases "waited = Wait_error ECHILD")
    case True
    with assms r o1 ended show ?thesis by (simp add: turn_def)
  next
    case False
    define st2 where "st2 = (if waited \<noteq> Wait_none then st1\<lparr>internal := True\<rparr> else st1)"
    define st3 where "st3 = (if monotonic_ms (t_clock tk) = None then st2\<lparr>internal := True\<rparr> else st2)"
    obtain st4 l where e: "escalate su (t_proc tk) (tick_now su tk) (set_terminating su (tick_now su tk) st3) = (st4, l)"
      by fastforce
    have o3: "observed tk st st3" using o1 by (simp add: observed_def st3_def st2_def)
    have "turn su tk st = (if l then (st4, True) else (wait_for_wake (t_poll tk) st4, False))"
      using e r False
      by (cases "monotonic_ms (t_clock tk)")
        (simp_all add: turn_def Let_def st3_def st2_def tick_now_def cong: if_cong split del: if_split)
    with assms e o3 left went show ?thesis by (cases l) auto
  qed
qed

section \<open>The escalation\<close>

text \<open>The rounds of signals that were sent, with the cleanup deadline they leave.\<close>

fun round_state :: "nat \<Rightarrow> (nat \<times> nat \<times> int list) list \<Rightarrow> bool \<Rightarrow> nat \<Rightarrow> bool" where
  "round_state grace [(s, t, ks)] is_killed d \<longleftrightarrow> \<not> is_killed \<and> s = SIGTERM \<and> d = t + grace"
| "round_state grace [(s, t, ks), (s1, t1, ks1)] is_killed d \<longleftrightarrow>
     is_killed \<and> s = SIGTERM \<and> s1 = SIGKILL \<and> t + grace \<le> t1 \<and> d = t1 + FINAL_REAP_MS"
| "round_state grace _ is_killed d \<longleftrightarrow> False"

definition phase :: "supervision \<Rightarrow> watch \<Rightarrow> bool" where
  "phase su st \<longleftrightarrow>
     (if terminating st
      then cleanup_deadline st \<noteq> 0
        \<and> round_state (grace_ms (su_options su)) (sent st) (killed st) (cleanup_deadline st)
        \<and> (first_interrupt st \<noteq> 0 \<or> timed_out st \<or> su_start_failed su \<or> internal st)
      else sent st = [] \<and> cleanup_deadline st = 0 \<and> \<not> killed st)
     \<and> (timed_out st \<longrightarrow> has_timeout (su_options su) \<and> sent st \<noteq> [] \<and> su_deadline su \<le> fst (snd (hd (sent st))))"

definition clock_fits :: "supervision \<Rightarrow> tick \<Rightarrow> bool" where
  "clock_fits su tk \<longleftrightarrow>
     tick_now su tk + grace_ms (su_options su) \<le> UINT64_MAX \<and> tick_now su tk + FINAL_REAP_MS \<le> UINT64_MAX"

lemma round_state_cases:
  assumes "round_state g rs k d"
  obtains (one) t ks where "rs = [(SIGTERM, t, ks)]" "\<not> k" "d = t + g"
  | (two) t ks t1 ks1 where "rs = [(SIGTERM, t, ks), (SIGKILL, t1, ks1)]" "k" "t + g \<le> t1" "d = t1 + FINAL_REAP_MS"
  using assms by (cases "(g, rs, k, d)" rule: round_state.cases) auto

text \<open>The first turn in which the supervisor terminates sends the first round.\<close>

lemma phase_escalate:
  assumes "phase su st" and "observed tk st st1" and "0 < grace_ms (su_options su)"
    and "now + grace_ms (su_options su) \<le> UINT64_MAX" and "now + FINAL_REAP_MS \<le> UINT64_MAX"
    and "escalate su w now (set_terminating su now st1) = (st4, left)"
  shows "phase su st4"
proof (cases "terminating st")
  case True
  with assms(1,2) have ph: "terminating st1" "cleanup_deadline st1 \<noteq> 0"
    "round_state (grace_ms (su_options su)) (sent st1) (killed st1) (cleanup_deadline st1)"
    "first_interrupt st1 \<noteq> 0 \<or> timed_out st1 \<or> su_start_failed su \<or> internal st1"
    "timed_out st1 \<longrightarrow> has_timeout (su_options su) \<and> sent st1 \<noteq> [] \<and> su_deadline su \<le> fst (snd (hd (sent st1)))"
    by (auto simp: phase_def observed_def)
  have s: "set_terminating su now st1 = st1" using ph(1) by (simp add: set_terminating_def)
  from ph(3) show ?thesis
  proof (cases rule: round_state_cases)
    case (one t ks)
    show ?thesis
    proof (cases "cleanup_deadline st1 \<le> now")
      case True
      then have "st4 = (signal_round w (su_child su) SIGKILL now st1)\<lparr>killed := True, cleanup_deadline := now + FINAL_REAP_MS\<rparr>"
        using assms(5,6) ph(1,2) one(2) unfolding s by (simp add: escalate_def next_deadline_fits)
      with ph one True show ?thesis
        by (auto simp: phase_def FINAL_REAP_MS_def intro: signal_round_internal)
    next
      case False
      with assms(6) ph one(2) have "st4 = st1" unfolding s by (simp add: escalate_def)
      with ph show ?thesis by (simp add: phase_def)
    qed
  next
    case (two t ks t1 ks1)
    with assms(6) ph have "st4 = st1 \<or> st4 = st1\<lparr>internal := True\<rparr>" unfolding s by (auto simp: escalate_def split: if_splits)
    with ph show ?thesis by (auto simp: phase_def)
  qed
next
  case False
  with assms(1,2) have ph: "\<not> terminating st1" "sent st1 = []" "cleanup_deadline st1 = 0" "\<not> killed st1" "\<not> timed_out st1"
    by (auto simp: phase_def observed_def)
  let ?st = "set_terminating su now st1"
  show ?thesis
  proof (cases "terminating ?st")
    case True
    then have "st4 = (signal_round w (su_child su) SIGTERM now ?st)\<lparr>cleanup_deadline := now + grace_ms (su_options su)\<rparr>"
      using assms(4,6) ph by (simp add: escalate_def next_deadline_fits)
    moreover have "first_interrupt st1 \<noteq> 0 \<or> timed_out ?st \<or> su_start_failed su \<or> internal st1"
      using True ph(1) by (auto simp: set_terminating_terminating set_terminating_timed_out)
    moreover have "timed_out ?st \<longrightarrow> has_timeout (su_options su) \<and> su_deadline su \<le> now"
      using ph(5) by (auto simp: set_terminating_timed_out)
    ultimately show ?thesis using assms(3) ph True
      by (auto simp: phase_def intro: signal_round_internal)
  next
    case False
    with assms(6) ph have "st4 = ?st" by (simp add: escalate_def)
    with False ph show ?thesis by (auto simp: phase_def set_terminating_timed_out set_terminating_terminating)
  qed
qed

lemma phase_wait: "phase su st \<Longrightarrow> phase su (wait_for_wake e st)"
  unfolding phase_def by (auto simp: wait_for_wake_internal)

lemma phase_observed: "phase su st \<Longrightarrow> observed tk st st1 \<Longrightarrow> phase su (st1\<lparr>no_children := True\<rparr>)"
  unfolding phase_def observed_def by (auto split: if_splits)

lemma phase_turn:
  assumes "phase su st" and "0 < grace_ms (su_options su)" and "clock_fits su tk" and "turn su tk st = (st1, left)"
  shows "phase su st1"
  using assms(4)
proof (cases rule: turn_cases)
  case (ended st2)
  with assms(1) show ?thesis by (simp add: phase_observed)
next
  case (left st2)
  show ?thesis
    using assms(3) by (intro phase_escalate [OF assms(1) left(2) assms(2) _ _ left(3)]) (simp_all add: clock_fits_def)
next
  case (went st2 st4)
  have "phase su st4"
    using assms(3) by (intro phase_escalate [OF assms(1) went(2) assms(2) _ _ went(3)]) (simp_all add: clock_fits_def)
  with went(4) show ?thesis by (simp add: phase_wait)
qed

lemma phase_initial: "phase su initial_watch"
  by (simp add: phase_def initial_watch_def)

end
