(* ===== verification/Agentwatch.thy ===== *)
theory Agentwatch
  imports Agentwatch_Signal Agentwatch_Invariant
begin

text \<open>
  The properties of \<open>src/agentwatch.c\<close>: the command line, the targets of the signals, the
  escalation and its end, the run without disturbance, the first interruption, the report of a
  failed start, and what becomes of an incomplete view of \<open>/proc\<close>.
\<close>

section \<open>The states of the loop\<close>

text \<open>The loop goes through the ticks without being left.\<close>

inductive steps :: "supervision \<Rightarrow> watch \<Rightarrow> tick list \<Rightarrow> watch \<Rightarrow> bool" for su where
  none: "steps su st [] st"
| again: "turn su tk st = (st1, False) \<Longrightarrow> steps su st1 tks st2 \<Longrightarrow> steps su st (tk # tks) st2"

inductive_simps steps_Nil [simp]: "steps su st [] st2"
inductive_simps steps_Cons: "steps su st (tk # tks) st2"

lemma loop_append:
  "(\<exists>st1. supervise_loop su (xs @ tks) st = Some st1)
   \<or> (\<exists>st1. steps su st xs st1 \<and> supervise_loop su (xs @ tks) st = supervise_loop su tks st1)"
proof (induction xs arbitrary: st)
  case (Cons x xs)
  obtain st1 l where t: "turn su x st = (st1, l)" by fastforce
  show ?case
  proof (cases l)
    case True
    with t show ?thesis by simp
  next
    case False
    with t Cons.IH [of st1] show ?thesis by (simp add: steps_Cons)
  qed
qed simp

lemma loop_last:
  "supervise_loop su tks st = Some st2 \<Longrightarrow>
     \<exists>pre tk post st1. tks = pre @ tk # post \<and> steps su st pre st1 \<and> turn su tk st1 = (st2, True)"
proof (induction tks arbitrary: st)
  case (Cons x xs)
  obtain st1 l where t: "turn su x st = (st1, l)" by fastforce
  show ?case
  proof (cases l)
    case True
    with t Cons.prems have "x # xs = [] @ x # xs \<and> steps su st [] st \<and> turn su x st = (st2, True)" by simp
    then show ?thesis by blast
  next
    case False
    with t Cons.prems have "supervise_loop su xs st1 = Some st2" by simp
    from Cons.IH [OF this] obtain pre tk post sta where
      p: "xs = pre @ tk # post" "steps su st1 pre sta" "turn su tk sta = (st2, True)" by blast
    with t False have "x # xs = (x # pre) @ tk # post" "steps su st (x # pre) sta" by (simp_all add: steps_Cons)
    with p(3) show ?thesis by blast
  qed
qed simp

section \<open>The escalation and its end\<close>

lemma steps_phase:
  "steps su st tks st1 \<Longrightarrow> phase su st \<Longrightarrow> 0 < grace_ms (su_options su) \<Longrightarrow> list_all (clock_fits su) tks \<Longrightarrow> phase su st1"
  by (induction rule: steps.induct) (auto dest: phase_turn)

lemma sent_escalate:
  "escalate su w now st = (st1, left) \<Longrightarrow> \<exists>rs. sent st1 = sent st @ rs \<and> list_all (\<lambda>r. fst (snd r) = now) rs"
  unfolding escalate_def by (auto split: if_splits)

lemma sent_turn:
  assumes "turn su tk st = (st1, left)"
  shows "\<exists>rs. sent st1 = sent st @ rs \<and> list_all (\<lambda>r. fst (snd r) = tick_now su tk) rs"
  using assms
proof (cases rule: turn_cases)
  case (ended st2)
  then show ?thesis by (intro exI [of _ "[]"]) (simp add: observed_def)
next
  case (left st2)
  from sent_escalate [OF left(3)] left(2) show ?thesis by (simp add: observed_def)
next
  case (went st2 st4)
  from sent_escalate [OF went(3)] went(2,4) show ?thesis by (simp add: observed_def)
qed

lemma sent_steps:
  "steps su st tks st1 \<Longrightarrow> list_all (\<lambda>tk. tick_now su tk \<le> n) tks \<Longrightarrow>
     \<exists>rs. sent st1 = sent st @ rs \<and> list_all (\<lambda>r. fst (snd r) \<le> n) rs"
proof (induction rule: steps.induct)
  case (again tk st st1 tks st2)
  from sent_turn [OF again.hyps(1)] again.prems obtain r1 where
    r1: "sent st1 = sent st @ r1" "list_all (\<lambda>r. fst (snd r) \<le> n) r1" by (auto simp: list_all_iff)
  from again.IH again.prems obtain r2 where
    r2: "sent st2 = sent st1 @ r2" "list_all (\<lambda>r. fst (snd r) \<le> n) r2" by auto
  from r1 r2 have "sent st2 = sent st @ (r1 @ r2)" "list_all (\<lambda>r. fst (snd r) \<le> n) (r1 @ r2)" by simp_all
  then show ?case by blast
qed simp

lemma turn_terminating:
  assumes "turn su tk st = (st1, False)"
    and "terminating st \<or> interrupt_of (t_signals tk) \<noteq> 0 \<or> su_start_failed su
      \<or> has_timeout (su_options su) \<and> su_deadline su \<le> tick_now su tk"
  shows "terminating st1"
  using assms(1)
proof (cases rule: turn_cases)
  case (went st2 st4)
  from went(2) assms(2) have "terminating (set_terminating su (tick_now su tk) st2)"
    by (auto simp: set_terminating_terminating observed_def)
  with went(3,4) show ?thesis by (auto simp: escalate_def split: if_splits)
qed simp_all

lemma steps_terminating: "steps su st tks st1 \<Longrightarrow> terminating st \<Longrightarrow> terminating st1"
  by (induction rule: steps.induct) (auto dest: turn_terminating)

lemma turn_kills:
  assumes "turn su tk st = (st1, False)" and "terminating st" and "cleanup_deadline st \<noteq> 0"
    and "killed st \<or> cleanup_deadline st \<le> tick_now su tk"
  shows "killed st1"
  using assms(1)
proof (cases rule: turn_cases)
  case (went st2 st4)
  from went(2) assms(2) have "set_terminating su (tick_now su tk) st2 = st2" by (simp add: set_terminating_def observed_def)
  with went assms show ?thesis by (auto simp: escalate_def observed_def split: if_splits)
qed simp_all

lemma turn_killed:
  assumes "turn su tk st = (st1, left)" and "terminating st" and "killed st" and "cleanup_deadline st \<noteq> 0"
  shows "killed st1 \<and> cleanup_deadline st1 = cleanup_deadline st \<and> terminating st1"
    and "cleanup_deadline st \<le> tick_now su tk \<Longrightarrow> left"
proof -
  have s: "set_terminating su (tick_now su tk) st2 = st2" if "observed tk st st2" for st2
    using that assms(2) by (simp add: set_terminating_def observed_def)
  from assms(1) show "killed st1 \<and> cleanup_deadline st1 = cleanup_deadline st \<and> terminating st1"
    by (cases rule: turn_cases) (use s assms in \<open>auto simp: escalate_def observed_def split: if_splits\<close>)
  from assms(1) show "cleanup_deadline st \<le> tick_now su tk \<Longrightarrow> left"
    by (cases rule: turn_cases) (use s assms in \<open>auto simp: escalate_def observed_def split: if_splits\<close>)
qed

lemma steps_killed:
  "steps su st tks st1 \<Longrightarrow> terminating st \<Longrightarrow> killed st \<Longrightarrow> cleanup_deadline st \<noteq> 0 \<Longrightarrow>
     killed st1 \<and> cleanup_deadline st1 = cleanup_deadline st \<and> terminating st1"
proof (induction rule: steps.induct)
  case (again tk st st1 tks st2)
  from turn_killed(1) [OF again.hyps(1) again.prems] again show ?case by simp
qed simp

text \<open>
  After the tick \<open>a\<close> the first round has been sent, after \<open>b\<close>, a grace period later, the second, and
  the loop is left by \<open>c\<close>, the time for the final reaping later.
\<close>

lemma loop_ends:
  assumes grace: "0 < grace_ms (su_options su)"
    and fits: "list_all (clock_fits su) (xs @ a # ys @ b # zs)"
    and before_a: "list_all (\<lambda>tk. tick_now su tk \<le> tick_now su a) xs"
    and before_b: "list_all (\<lambda>tk. tick_now su tk \<le> tick_now su b) (xs @ a # ys)"
    and due: "interrupt_of (t_signals a) \<noteq> 0 \<or> su_start_failed su
      \<or> has_timeout (su_options su) \<and> su_deadline su \<le> tick_now su a"
    and waited: "tick_now su a + grace_ms (su_options su) \<le> tick_now su b"
      "tick_now su b + FINAL_REAP_MS \<le> tick_now su c"
  shows "\<exists>st. supervise_loop su (xs @ a # ys @ b # zs @ c # tks) initial_watch = Some st"
proof (rule ccontr)
  assume none: "\<not> ?thesis"
  have on: "\<exists>st1. steps su st l st1 \<and> supervise_loop su (l @ t) st = supervise_loop su t st1"
    if "\<not> (\<exists>st1. supervise_loop su (l @ t) st = Some st1)" for l t st
    using that loop_append [of su l t st] by metis
  from on [of "xs @ [a]" "ys @ b # zs @ c # tks" initial_watch] none obtain sa where
    sa: "steps su initial_watch (xs @ [a]) sa" "\<not> (\<exists>st. supervise_loop su (ys @ b # zs @ c # tks) sa = Some st)" by auto
  from on [of "ys" "b # zs @ c # tks" sa] sa(2) obtain sy where
    sy: "steps su sa ys sy" "\<not> (\<exists>st. supervise_loop su (b # zs @ c # tks) sy = Some st)" by auto
  from on [of "[b]" "zs @ c # tks" sy] sy(2) obtain sb where
    sb: "turn su b sy = (sb, False)" "\<not> (\<exists>st. supervise_loop su (zs @ c # tks) sb = Some st)"
    by (auto simp: steps_Cons split: prod.splits)
  from on [of "zs" "c # tks" sb] sb(2) obtain sz where
    sz: "steps su sb zs sz" "\<not> (\<exists>st. supervise_loop su (c # tks) sz = Some st)" by auto
  from on [of "[c]" tks sz] sz(2) obtain sc where sc: "turn su c sz = (sc, False)"
    by (auto simp: steps_Cons split: prod.splits)
  from steps_phase [OF sa(1) phase_initial grace] fits have pa: "phase su sa" by simp
  from steps_phase [OF sy(1) pa grace] fits have py: "phase su sy" by simp
  from phase_turn [OF py grace _ sb(1)] fits have pb: "phase su sb" by simp
  have ta: "terminating sa"
  proof -
    have "steps su st (l @ [t]) st1 \<Longrightarrow> \<exists>st2. turn su t st2 = (st1, False)" for st l t st1
      by (induction l arbitrary: st) (auto simp: steps_Cons)
    from this [OF sa(1)] obtain s2 where "turn su a s2 = (sa, False)" by blast
    with turn_terminating [OF this] due show ?thesis by blast
  qed
  from steps_terminating [OF sy(1) ta] have ty: "terminating sy" .
  from sent_steps [OF sa(1), of "tick_now su a"] before_a have ra: "list_all (\<lambda>r. fst (snd r) \<le> tick_now su a) (sent sa)"
    by (auto simp: initial_watch_def)
  from sent_steps [OF sy(1), of "tick_now su b"] before_b obtain rs where rs: "sent sy = sent sa @ rs" by auto
  from pa ta have "sent sa \<noteq> []" by (auto simp: phase_def)
  with ra rs have first: "sent sy \<noteq> []" "fst (snd (hd (sent sy))) \<le> tick_now su a"
    by (auto simp: list_all_iff)
  from py ty have rd: "round_state (grace_ms (su_options su)) (sent sy) (killed sy) (cleanup_deadline sy)" "cleanup_deadline sy \<noteq> 0"
    by (simp_all add: phase_def)
  have "killed sy \<or> cleanup_deadline sy \<le> tick_now su b"
    using rd(1) by (cases rule: round_state_cases) (use first waited in auto)
  from turn_kills [OF sb(1) ty rd(2) this] have kb: "killed sb" .
  from sent_turn [OF sb(1)] obtain rb where
    rb: "sent sb = sent sy @ rb" "list_all (\<lambda>r. fst (snd r) = tick_now su b) rb" by blast
  from rb(2) have "list_all (\<lambda>r. fst (snd r) \<le> tick_now su b) rb" by (rule list.pred_mono_strong) simp
  with rb(1) sent_steps [OF sa(1), of "tick_now su b"] sent_steps [OF sy(1), of "tick_now su b"] before_b
  have rb: "list_all (\<lambda>r. fst (snd r) \<le> tick_now su b) (sent sb)"
    by (auto simp: initial_watch_def)
  from turn_terminating [OF sb(1)] ty have tb: "terminating sb" by blast
  with pb have rdb: "round_state (grace_ms (su_options su)) (sent sb) (killed sb) (cleanup_deadline sb)" "cleanup_deadline sb \<noteq> 0"
    by (simp_all add: phase_def)
  from rdb(1) have "cleanup_deadline sb \<le> tick_now su b + FINAL_REAP_MS"
    by (cases rule: round_state_cases) (use kb rb in auto)
  with steps_killed [OF sz(1) tb kb rdb(2)] waited(2) turn_killed(2) [OF sc] rdb(2) show False by simp
qed

section \<open>A run without disturbance\<close>

definition quiet_tick :: "supervision \<Rightarrow> tick \<Rightarrow> bool" where
  "quiet_tick su tk \<longleftrightarrow>
     interrupt_of (t_signals tk) = 0 \<and> list_all harmless (t_waits tk) \<and> monotonic_ms (t_clock tk) \<noteq> None
     \<and> \<not> (has_timeout (su_options su) \<and> su_deadline su \<le> tick_now su tk)
     \<and> (t_poll tk = 0 \<or> t_poll tk = EINTR)"

definition calm :: "watch \<Rightarrow> bool" where
  "calm st \<longleftrightarrow>
     first_interrupt st = 0 \<and> cleanup_deadline st = 0 \<and> \<not> terminating st \<and> \<not> killed st \<and> \<not> timed_out st
     \<and> \<not> internal st \<and> \<not> uncertain st \<and> sent st = []"

definition known_status :: "nat option \<Rightarrow> watch \<Rightarrow> bool" where
  "known_status found st \<longleftrightarrow>
     (case found of None \<Rightarrow> \<not> direct_done st | Some s \<Rightarrow> direct_done st \<and> direct_status st = s)"

lemma child_status_append:
  "child_status child (xs @ ys) = (case child_status child xs of None \<Rightarrow> child_status child ys | Some s \<Rightarrow> Some s)"
  by (induction child xs rule: child_status.induct) auto

lemma reap_calm:
  assumes "list_all harmless answers" and "calm st" and "known_status found st" and "interrupt_of ds = 0"
  shows "calm (fst (reap child answers (deliver ds st)))"
    and "known_status (case found of None \<Rightarrow> child_status child answers | Some s \<Rightarrow> Some s)
      (fst (reap child answers (deliver ds st)))"
    and "snd (reap child answers (deliver ds st)) = Wait_none"
proof -
  obtain st1 a where r: "reap child answers (deliver ds st) = (st1, a)" by fastforce
  from reap_fields [OF r] assms(2,4) show "calm (fst (reap child answers (deliver ds st)))"
    by (simp add: r calm_def deliver_first)
  from reap_child [OF assms(1), of child "deliver ds st"] assms(3)
  show "known_status (case found of None \<Rightarrow> child_status child answers | Some s \<Rightarrow> Some s)
      (fst (reap child answers (deliver ds st)))" "snd (reap child answers (deliver ds st)) = Wait_none"
    by (auto simp: known_status_def split: option.splits)
qed

lemma quiet_turn:
  assumes "quiet_tick su tk" and "\<not> su_start_failed su" and "calm st" and "known_status found st"
  shows "\<exists>st1. turn su tk st = (st1, False) \<and> calm st1
    \<and> known_status (case found of None \<Rightarrow> child_status (su_child su) (t_waits tk) | Some s \<Rightarrow> Some s) st1"
proof -
  obtain st1 a where r: "reap (su_child su) (t_waits tk) (deliver (t_signals tk) st) = (st1, a)" by fastforce
  from assms(1) obtain now where now: "monotonic_ms (t_clock tk) = Some now" "tick_now su tk = now"
    by (auto simp: quiet_tick_def tick_now_def)
  from assms(1) have h: "list_all harmless (t_waits tk)" "interrupt_of (t_signals tk) = 0"
    "t_poll tk = 0 \<or> t_poll tk = EINTR" "\<not> (has_timeout (su_options su) \<and> su_deadline su \<le> now)"
    using now(2) by (auto simp: quiet_tick_def)
  from reap_calm [OF h(1) assms(3,4) h(2), of "su_child su"] r
  have c: "calm st1" "known_status (case found of None \<Rightarrow> child_status (su_child su) (t_waits tk) | Some s \<Rightarrow> Some s) st1"
    "a = Wait_none" by simp_all
  have s: "set_terminating su now st1 = st1" using c(1) h(4) assms(2) by (simp add: set_terminating_def calm_def)
  have "turn su tk st = (wait_for_wake (t_poll tk) st1, False)"
    using r c(1,3) now(1) by (simp add: turn_def s escalate_def calm_def)
  moreover have "calm (wait_for_wake (t_poll tk) st1)"
    using c(1) h(3) by (auto simp: calm_def wait_for_wake_internal)
  moreover have "known_status f (wait_for_wake (t_poll tk) st1) = known_status f st1" for f
    by (simp add: known_status_def split: option.splits)
  ultimately show ?thesis using c(2) by simp
qed

lemma quiet_loop:
  assumes "\<not> su_start_failed su" and "list_all harmless ws" and "t_waits z = ws @ [Wait_error ECHILD]"
    and "interrupt_of (t_signals z) = 0"
  shows "list_all (quiet_tick su) qs \<Longrightarrow> calm st \<Longrightarrow> known_status found st \<Longrightarrow>
    \<exists>st1. supervise_loop su (qs @ z # tks) st = Some st1 \<and> calm st1
      \<and> known_status (case found of None \<Rightarrow> child_status (su_child su) (concat (map t_waits qs) @ ws) | Some s \<Rightarrow> Some s) st1"
proof (induction qs arbitrary: st found)
  case Nil
  obtain st1 a where r: "reap (su_child su) ws (deliver (t_signals z) st) = (st1, a)" by fastforce
  from reap_calm [OF assms(2) Nil.prems(2,3) assms(4), of "su_child su"] r
  have c: "calm st1" "known_status (case found of None \<Rightarrow> child_status (su_child su) ws | Some s \<Rightarrow> Some s) st1" by simp_all
  have "turn su z st = (st1\<lparr>no_children := True\<rparr>, True)"
    using reap_harmless [OF assms(2), of "su_child su" "[Wait_error ECHILD]" "deliver (t_signals z) st"] r assms(3)
    by (simp add: turn_def ECHILD_def EINTR_def)
  with c show ?case by (simp add: calm_def known_status_def split: option.splits)
next
  case (Cons q qs)
  then have q: "quiet_tick su q" by simp
  from quiet_turn [OF q assms(1) Cons.prems(2,3)] obtain st1 where
    t: "turn su q st = (st1, False)" "calm st1"
    "known_status (case found of None \<Rightarrow> child_status (su_child su) (t_waits q) | Some s \<Rightarrow> Some s) st1" by blast
  from Cons.IH [OF _ t(2,3)] Cons.prems(1) t(1) show ?case
    by (auto simp: child_status_append split: option.splits)
qed

section \<open>The first interruption\<close>

lemma interrupt_of_append: "interrupt_of (xs @ ys) = (if interrupt_of xs = 0 then interrupt_of ys else interrupt_of xs)"
  by (induction xs) (auto simp: interrupt_of_def)

lemma escalate_first: "first_interrupt (fst (escalate su w now st)) = first_interrupt st"
  by (simp add: escalate_def)

lemma turn_first:
  assumes "turn su tk st = (st1, left)"
  shows "first_interrupt st1 = (if first_interrupt st = 0 then interrupt_of (t_signals tk) else first_interrupt st)"
  using assms
proof (cases rule: turn_cases)
  case (ended st2)
  then show ?thesis by (simp add: observed_def)
next
  case (left st2)
  with escalate_first [of su "t_proc tk" "tick_now su tk" "set_terminating su (tick_now su tk) st2"]
  show ?thesis by (simp add: observed_def)
next
  case (went st2 st4)
  with escalate_first [of su "t_proc tk" "tick_now su tk" "set_terminating su (tick_now su tk) st2"]
  show ?thesis by (simp add: observed_def)
qed

lemma loop_first:
  "supervise_loop su tks st = Some st1 \<Longrightarrow>
     \<exists>k. first_interrupt st1 =
       (if first_interrupt st = 0 then interrupt_of (concat (map t_signals (take k tks))) else first_interrupt st)"
proof (induction tks arbitrary: st)
  case (Cons tk tks)
  obtain st2 l where t: "turn su tk st = (st2, l)" by fastforce
  note f = turn_first [OF t]
  show ?case
  proof (cases l)
    case True
    with t Cons.prems f show ?thesis by (intro exI [of _ 1]) simp
  next
    case False
    with t Cons.prems have "supervise_loop su tks st2 = Some st1" by simp
    from Cons.IH [OF this] obtain k where
      "first_interrupt st1 = (if first_interrupt st2 = 0 then interrupt_of (concat (map t_signals (take k tks))) else first_interrupt st2)"
      by blast
    with f show ?thesis by (intro exI [of _ "Suc k"]) (auto simp: interrupt_of_append)
  qed
qed simp

section \<open>The report of a failed start\<close>

lemma child_report_complete:
  "bs \<noteq> [] \<Longrightarrow> list_all (\<lambda>a. a = Inl EINTR) answers \<Longrightarrow> child_report_errno bs answers = bs"
  by (induction bs answers rule: child_report_errno.induct) auto

lemma length_int_bytes: "length (int_bytes e) = report_size"
  by (simp add: int_bytes_def report_size_def)

lemma read_retry_interrupted:
  "fst (read_retry n e ((Read_interrupted ^^ k) a)) = fst (read_retry n (if k = 0 then e else EINTR) a)"
  by (induction k arbitrary: e) simp_all

lemma read_retry_errno: "fst (read_retry n e a) = fst (read_retry n e1 a)"
  by (induction n e a arbitrary: e1 rule: read_retry.induct) auto

section \<open>The supervised run\<close>

text \<open>What the loop is given once every step of the start has succeeded.\<close>

definition started :: "start_world \<Rightarrow> options \<Rightarrow> supervision \<Rightarrow> bool" where
  "started sw opts su \<longleftrightarrow>
     fst (install_handlers (sw_wake_pipe sw) (sw_sigaction sw)) \<and> sw_subreaper sw \<and> sw_exec_pipe sw
     \<and> start_deadline sw opts = Some (su_start su, su_deadline su) \<and> sw_fork sw = Some (su_child su)
     \<and> su_options su = opts \<and> su_start_failed su = start_result sw"

lemma main_started:
  assumes "parse_options argv s = (Inr opts, s1)" and "started sw opts su"
  shows "main sw tks argv s =
    (case supervise_loop su tks initial_watch of
       None \<Rightarrow> None
     | Some st \<Rightarrow>
         (let st1 = deliver (sw_late sw) (close_wake st) in Some (exit_report su st1 s, st1)))"
proof -
  from assms(1) have s: "s1 = s" by (simp add: parse_options_accepts)
  from assms(2) have su: "\<lparr>su_options = opts, su_child = su_child su, su_start = su_start su, su_deadline = su_deadline su,
      su_start_failed = start_result sw\<rparr> = su" by (cases su) (simp add: started_def)
  from assms show ?thesis unfolding started_def main_def supervise_def s
    by (simp add: su)
qed

lemma close_wake_fields [simp]:
  "first_interrupt (close_wake st) = first_interrupt st" "timed_out (close_wake st) = timed_out st"
  "internal (close_wake st) = internal st" "uncertain (close_wake st) = uncertain st"
  "no_children (close_wake st) = no_children st" "direct_status (close_wake st) = direct_status st"
  "sent (close_wake st) = sent st" "direct_done (close_wake st) = direct_done st"
  by (simp_all add: close_wake_def)

definition exit_code :: "nat \<Rightarrow> int" where
  "exit_code status =
     (if status mod 128 = 0 then int (status div 256 mod 256) else 128 + int (status mod 128))"

lemma exit_report_calm:
  assumes "calm st" and "\<not> su_start_failed su" and "direct_status st mod 128 \<noteq> 127"
  shows "exit_report su st s = (exit_code (direct_status st), s)"
proof -
  have "direct_status st mod 128 < 127" using assms(3) mod_less_divisor [of 128 "direct_status st"] by linarith
  then show ?thesis using assms(1,2)
    by (simp add: exit_report_def exit_code_def WIFEXITED_def WEXITSTATUS_def WIFSIGNALED_def WTERMSIG_def calm_def)
qed

section \<open>A concrete run\<close>

definition example_argv :: "cstr list" where
  "example_argv = [''agentwatch'', ''--'', ''true'']"

definition example_start :: start_world where
  "example_start =
     \<lparr>sw_wake_pipe = True, sw_sigaction = \<lambda>signum. True, sw_subreaper = True, sw_exec_pipe = True,
      sw_clock = Some (1, 0), sw_fork = Some 100, sw_setpgid = 0, sw_report = Read_eof, sw_late = []\<rparr>"

definition example_supervision :: supervision where
  "example_supervision =
     \<lparr>su_options = default_options\<lparr>command := [''true'']\<rparr>, su_child = 100, su_start = 1000, su_deadline = 0,
      su_start_failed = False\<rparr>"

definition example_proc :: proc_world where
  "example_proc =
     \<lparr>w_calloc = True, w_opendir = Some ([], 0), w_stat = \<lambda>r pid. Inl ENOENT, w_kill = \<lambda>target. 0,
      w_getpid = 50, w_getpgrp = 50\<rparr>"

definition tick_at :: "nat \<Rightarrow> delivery list \<Rightarrow> wait_answer list \<Rightarrow> tick" where
  "tick_at seconds signals waits =
     \<lparr>t_signals = signals, t_waits = waits, t_clock = Some (int seconds, 0), t_proc = example_proc, t_poll = 0\<rparr>"

lemma example_parsed: "parse_options example_argv s = (Inr (default_options\<lparr>command := [''true'']\<rparr>), s)"
  by (simp add: parse_options_def example_argv_def option_loop.simps)

lemma example_monotonic: "seconds < 1000000 \<Longrightarrow> monotonic_ms (Some (int seconds, 0)) = Some (seconds * 1000)"
  by (simp add: monotonic_ms_def UINT64_MAX_def)

lemma example_started: "started example_start (default_options\<lparr>command := [''true'']\<rparr>) example_supervision"
  using example_monotonic [of 1]
  by (simp add: started_def example_start_def example_supervision_def install_handlers_def start_deadline_def
      start_result_def report_size_def default_options_def)

lemma example_now: "seconds < 1000000 \<Longrightarrow> tick_now example_supervision (tick_at seconds signals waits) = seconds * 1000"
  by (simp add: tick_now_def tick_at_def example_monotonic)

lemma example_fields:
  "grace_ms (su_options example_supervision) = 5000" "\<not> has_timeout (su_options example_supervision)"
  "su_child example_supervision = 100" "\<not> su_start_failed example_supervision"
  by (simp_all add: example_supervision_def default_options_def)

lemma example_fits: "seconds < 1000000 \<Longrightarrow> clock_fits example_supervision (tick_at seconds signals waits)"
  by (simp add: clock_fits_def example_now example_fields UINT64_MAX_def FINAL_REAP_MS_def)

lemma example_tree: "signal_tree example_proc 100 u = (True, u, [-100])"
  by (simp add: signal_tree_def scan_descendants_def example_proc_def)

text \<open>An interruption at two seconds, after which the command ends with signal 15.\<close>

definition example_ticks :: "tick list" where
  "example_ticks = [tick_at 2 [(SIGINT, 0)] [], tick_at 3 [(SIGCHLD, 0)] [Reaped 100 15, Wait_error ECHILD]]"

lemma example_loop:
  "supervise_loop example_supervision example_ticks initial_watch =
     Some (initial_watch\<lparr>first_interrupt := SIGINT, wake_bytes := 1, terminating := True, cleanup_deadline := 7000,
       direct_done := True, direct_status := 15, no_children := True, sent := [(SIGTERM, 2000, [-100])]\<rparr>)"
  using example_monotonic [of 2]
  by (simp add: example_ticks_def tick_at_def turn_def wake_handler_def Let_def escalate_def set_terminating_def
      signal_round_def next_deadline_def add_ms_def wait_for_wake_def example_tree initial_watch_def
      example_supervision_def default_options_def SIGINT_def SIGCHLD_def SIGTERM_def ECHILD_def EINTR_def UINT64_MAX_def)

section \<open>Properties\<close>

text \<open>
  C40. A command line is accepted exactly when it gives each option at most once with a duration
  and names a command after \<open>--\<close>; a duration is accepted exactly when it is written with digits
  and at most three digits after a point and is 1 to 86,400,000 milliseconds, its value.
\<close>

theorem agentwatch_arguments:
  "(parse_options argv s = (Inr r, s1) \<longleftrightarrow> s1 = s \<and> accepted_line (drop 1 argv) r)
   \<and> (parse_seconds t = Some n \<longleftrightarrow>
      (\<exists>w f. t = seconds_text w f \<and> all_digits w \<and> w \<noteq> [] \<and> all_digits f \<and> length f \<le> 3
        \<and> n = seconds_ms w f \<and> 1 \<le> n \<and> n \<le> 86400000))"
  by (intro conjI parse_options_accepts parse_seconds_accepts)

definition complete_scan :: "proc_world \<Rightarrow> bool" where
  "complete_scan w \<longleftrightarrow>
     (case w_opendir w of
        None \<Rightarrow> False
      | Some (names, e) \<Rightarrow>
          scanned w = List.map_filter (identity_of w) (filter numeric_name names)
          \<and> list_all (\<lambda>name. \<not> unreadable w name) (filter numeric_name names))"

lemma signal_tree_certain:
  assumes "\<not> fst (snd (signal_tree w root u))"
  shows "complete_scan w"
proof -
  have c: "w_calloc w" by (rule ccontr) (use assms in \<open>simp add: signal_tree_def\<close>)
  obtain items u1 where s: "scan_descendants w root u = (items, u1)" by fastforce
  from assms c have u1: "\<not> u1"
    by (auto simp: signal_tree_def s Let_def dest!: signal_items_certain split: if_splits)
  with s obtain names e where o: "w_opendir w = Some (names, e)" "\<not> snd (proc_entries w names e 0 0 [] u)"
    by (auto simp: scan_descendants_def split: option.splits prod.splits)
  from scan_certain [OF o(2)] scan_entries [of 0 "[]" w names e 0 u] o(1) show ?thesis
    by (simp add: complete_scan_def scanned_def)
qed

text \<open>
  C36. A round of signals goes to the group of the command, unless that is the group of the
  supervisor, and then to exactly the scanned processes that descend from the command along the
  parents read and whose start time is the same when it is read again, never to the supervisor, to
  process group 0 or to every process.  It succeeds exactly when every signal is delivered or its
  process is gone.  At most 4096 processes are tracked, and a round leaves no uncertainty only when
  its scan saw every process.
\<close>

theorem signal_tree_correct:
  "snd (snd (signal_tree w root u)) = (if w_calloc w then tree_targets w root else [])
   \<and> (fst (signal_tree w root u) \<longleftrightarrow> w_calloc w \<and> list_all (delivered w) (tree_targets w root))
   \<and> list_all (\<lambda>k. 0 < k \<and> k \<noteq> int (w_getpid w) \<and> k \<noteq> int root
        \<or> k = - int root \<and> 1 < root \<and> root \<noteq> w_getpgrp w) (tree_targets w root)
   \<and> length (scanned w) \<le> 4096
   \<and> (fst (snd (signal_tree w root u)) \<or> complete_scan w)"
proof (intro conjI)
  show "snd (snd (signal_tree w root u)) = (if w_calloc w then tree_targets w root else [])"
    using signal_tree_targets(2) [of w root u] by (simp add: signal_tree_def)
  show "fst (signal_tree w root u) \<longleftrightarrow> w_calloc w \<and> list_all (delivered w) (tree_targets w root)"
    using signal_tree_targets(1) [of w root u] by (auto simp: signal_tree_def)
  show "length (scanned w) \<le> 4096"
    by (simp add: scanned_def IDENTITY_LIMIT_def split: option.splits prod.splits)
qed (use tree_targets_safe signal_tree_certain in blast)+

theorem signal_tree_correct_witness:
  "snd (snd (signal_tree forest 100 False)) = [-100, 102, 101] \<and> fst (signal_tree forest 100 False)
   \<and> length (scanned forest) \<le> 4096"
  using signal_tree_correct [of forest 100 False] forest_kills
  by (simp add: forest_kernel list_all_iff)

text \<open>
  C35. At every moment and at the end nothing was signalled, or one round of \<open>SIGTERM\<close>, or that and
  one round of \<open>SIGKILL\<close> at least the grace period later.  Nothing is signalled without an
  interruption, a timeout, a failed start or an internal failure, and a timeout is noticed only at
  or after the deadline, with a round at that clock.
\<close>

theorem escalation_rounds:
  assumes "0 < grace_ms (su_options su)" and "list_all (clock_fits su) tks"
    and "steps su initial_watch tks st \<or> supervise_loop su tks initial_watch = Some st"
  shows "(sent st = [] \<or> (\<exists>t ks. sent st = [(SIGTERM, t, ks)])
      \<or> (\<exists>t ks t1 ks1. sent st = [(SIGTERM, t, ks), (SIGKILL, t1, ks1)] \<and> t + grace_ms (su_options su) \<le> t1))
    \<and> (sent st \<noteq> [] \<longrightarrow> first_interrupt st \<noteq> 0 \<or> timed_out st \<or> su_start_failed su \<or> internal st)
    \<and> (timed_out st \<longrightarrow> has_timeout (su_options su) \<and> sent st \<noteq> [] \<and> su_deadline su \<le> fst (snd (hd (sent st))))"
proof -
  have "phase su st"
    using assms(3)
  proof
    assume "steps su initial_watch tks st"
    from steps_phase [OF this phase_initial assms(1,2)] show ?thesis .
  next
    assume "supervise_loop su tks initial_watch = Some st"
    from loop_last [OF this] obtain pre tk post st1 where
      p: "tks = pre @ tk # post" "steps su initial_watch pre st1" "turn su tk st1 = (st, True)" by blast
    from assms(2) have c: "list_all (clock_fits su) pre" "clock_fits su tk" by (simp_all add: p(1))
    from phase_turn [OF steps_phase [OF p(2) phase_initial assms(1) c(1)] assms(1) c(2) p(3)] show ?thesis .
  qed
  then show ?thesis unfolding phase_def
    by (cases "terminating st") (auto elim: round_state_cases)
qed

theorem escalation_rounds_witness:
  "\<exists>st. supervise_loop example_supervision example_ticks initial_watch = Some st
    \<and> sent st = [(SIGTERM, 2000, [-100])]
    \<and> (sent st = [] \<or> (\<exists>t ks. sent st = [(SIGTERM, t, ks)])
      \<or> (\<exists>t ks t1 ks1. sent st = [(SIGTERM, t, ks), (SIGKILL, t1, ks1)] \<and> t + 5000 \<le> t1))"
proof -
  have g: "0 < grace_ms (su_options example_supervision)" by (simp add: example_fields)
  have f: "list_all (clock_fits example_supervision) example_ticks"
    by (simp add: example_ticks_def example_fits)
  from escalation_rounds [OF g f disjI2 [OF example_loop]] example_loop show ?thesis by auto
qed

lemma parsed_grace: "parse_options argv s = (Inr opts, s1) \<Longrightarrow> 0 < grace_ms opts"
  unfolding parse_options_accepts using accepted_seconds by fastforce

text \<open>
  C34. The supervision ends, whatever the processes do: the loop is left by a turn \<open>c\<close> at which the
  two seconds for the final reaping are over since a turn \<open>b\<close> at which the grace period was over
  since a turn \<open>a\<close> that saw an interruption, the deadline or a failed start.  An internal failure as
  the first reason is not covered; a clock that fails reads as the time of the start.
\<close>

theorem supervision_ends:
  assumes "parse_options argv s = (Inr opts, s1)" and "started sw opts su"
    and "list_all (clock_fits su) (xs @ a # ys @ b # zs)"
    and "list_all (\<lambda>tk. tick_now su tk \<le> tick_now su a) xs"
    and "list_all (\<lambda>tk. tick_now su tk \<le> tick_now su b) (xs @ a # ys)"
    and "interrupt_of (t_signals a) \<noteq> 0 \<or> su_start_failed su
      \<or> has_timeout opts \<and> su_deadline su \<le> tick_now su a"
    and "tick_now su a + grace_ms opts \<le> tick_now su b"
    and "tick_now su b + FINAL_REAP_MS \<le> tick_now su c"
  shows "\<exists>status s2 w. main sw (xs @ a # ys @ b # zs @ c # tks) argv s = Some ((status, s2), w)"
proof -
  from assms(2) have o: "su_options su = opts" by (simp add: started_def)
  from parsed_grace [OF assms(1)] have g: "0 < grace_ms (su_options su)" by (simp add: o)
  from loop_ends [OF g assms(3-5) assms(6-8) [folded o], of tks] obtain st where
    "supervise_loop su (xs @ a # ys @ b # zs @ c # tks) initial_watch = Some st" by blast
  then show ?thesis unfolding main_started [OF assms(1,2)] by (simp add: Let_def split_paired_Ex)
qed

theorem supervision_ends_witness:
  "\<exists>status s2 w. main example_start [tick_at 2 [(SIGINT, 0)] [], tick_at 7 [] [], tick_at 9 [] []] example_argv clear_io
     = Some ((status, s2), w)"
  using supervision_ends [OF example_parsed example_started, of "[]" "tick_at 2 [(SIGINT, 0)] []" "[]"
      "tick_at 7 [] []" "[]" "tick_at 9 [] []" "[]" clear_io]
  by (simp add: example_fits example_now default_options_def FINAL_REAP_MS_def)
    (simp add: tick_at_def interrupt_of_def SIGINT_def SIGCHLD_def)

text \<open>
  C37. When the command starts and nothing interrupts, no deadline passes and no call fails until
  \<open>waitpid\<close> reports that no child is left, the supervisor signals nothing, writes nothing and exits
  with the status of the command: its exit code, or 128 and the signal that ended it.
\<close>

theorem undisturbed_run:
  assumes "parse_options argv s = (Inr opts, s1)" and "started sw opts su" and "\<not> su_start_failed su"
    and "list_all (quiet_tick su) qs" and "list_all harmless ws" and "t_waits z = ws @ [Wait_error ECHILD]"
    and "interrupt_of (t_signals z) = 0" and "interrupt_of (sw_late sw) = 0"
    and "child_status (su_child su) (concat (map t_waits qs) @ ws) = Some status" and "status mod 128 \<noteq> 127"
  shows "\<exists>w. main sw (qs @ z # tks) argv s = Some ((exit_code status, s), w) \<and> sent w = []"
proof -
  have "calm initial_watch" "known_status None initial_watch"
    by (simp_all add: calm_def known_status_def initial_watch_def)
  from quiet_loop [OF assms(3,5,6,7,4) this] assms(9) obtain st where
    st: "supervise_loop su (qs @ z # tks) initial_watch = Some st" "calm st" "direct_status st = status"
    by (auto simp: known_status_def)
  let ?st = "deliver (sw_late sw) (close_wake st)"
  have "terminating (close_wake st) = terminating st" "killed (close_wake st) = killed st"
    "cleanup_deadline (close_wake st) = cleanup_deadline st" by (simp_all add: close_wake_def)
  with st(2) assms(8) have c: "calm ?st" by (simp add: calm_def deliver_first)
  from exit_report_calm [OF c assms(3), of s] st(3) assms(10)
  have "exit_report su ?st s = (exit_code status, s)" by simp
  with st(1) c show ?thesis unfolding main_started [OF assms(1,2)] by (simp add: Let_def calm_def)
qed

theorem undisturbed_run_witness:
  "\<exists>w. main example_start [tick_at 2 [(SIGCHLD, 0)] [Reaped 70 0, Reaped 100 768], tick_at 3 [] [Wait_error ECHILD]]
     example_argv clear_io = Some ((3, clear_io), w) \<and> sent w = []"
proof -
  have q: "list_all (quiet_tick example_supervision) [tick_at 2 [(SIGCHLD, 0)] [Reaped 70 0, Reaped 100 768]]"
    using example_monotonic [of 2]
    by (simp add: quiet_tick_def example_fields) (simp add: tick_at_def interrupt_of_def)
  have w: "t_waits (tick_at 3 [] [Wait_error ECHILD]) = [] @ [Wait_error ECHILD]" by (simp add: tick_at_def)
  have i: "interrupt_of (t_signals (tick_at 3 [] [Wait_error ECHILD])) = 0" "interrupt_of (sw_late example_start) = 0"
    by (simp_all add: tick_at_def example_start_def interrupt_of_def)
  have c: "child_status (su_child example_supervision)
      (concat (map t_waits [tick_at 2 [(SIGCHLD, 0)] [Reaped 70 0, Reaped 100 768]]) @ []) = Some 768"
    by (simp add: tick_at_def example_fields)
  from undisturbed_run [OF example_parsed [of clear_io] example_started example_fields(4) q _ w i c, of "[]"]
  show ?thesis by (simp add: exit_code_def)
qed

lemma loop_left: "supervise_loop su tks st = Some st1 \<Longrightarrow> no_children st1 \<or> internal st1"
proof -
  assume "supervise_loop su tks st = Some st1"
  from loop_last [OF this] obtain tk st2 where "turn su tk st2 = (st1, True)" by blast
  then show ?thesis by (cases rule: turn_cases) (auto simp: escalate_def split: if_splits)
qed

lemma exit_report_status:
  assumes "no_children st \<or> internal st"
  shows "exit_report su st s =
      (if first_interrupt st \<noteq> 0 then (128 + int (first_interrupt st), diagnostic ''INTERRUPTED'' None s)
       else if su_start_failed su then (127, escaped_command (hd (command (su_options su))) s)
       else if timed_out st then (124, diagnostic ''TIMEOUT'' None s)
       else if internal st \<or> direct_status st mod 128 = 127 then (125, diagnostic ''INTERNAL_FAILURE'' None s)
       else (exit_code (direct_status st), s))"
proof -
  have "direct_status st mod 128 < 128" by simp
  then have "WIFSIGNALED (direct_status st) \<longleftrightarrow> direct_status st mod 128 \<noteq> 0 \<and> direct_status st mod 128 \<noteq> 127"
    unfolding WIFSIGNALED_def by linarith
  then show ?thesis using assms
    by (auto simp: exit_report_def exit_code_def WIFEXITED_def WEXITSTATUS_def WTERMSIG_def)
qed

text \<open>
  C38. Once the command was forked, the exit status follows the first interruption among the signals
  delivered: 128 and its number.  Without one a failed start gives 127, then a deadline 124, then an
  internal failure 125, then the status of the command.  Two choices of the code differ from its
  contract: an interruption that comes after the failed start, even after the loop, still decides
  where the contract gives the failed start precedence, and an incomplete view of the processes
  never changes the status, because the loop is left only with no child or an internal failure.
\<close>

theorem status_precedence:
  assumes "parse_options argv s = (Inr opts, s1)" and "started sw opts su"
    and "main sw tks argv s = Some ((status, s2), w)"
  shows "\<exists>k. first_interrupt w = interrupt_of (concat (map t_signals (take k tks)) @ sw_late sw)
    \<and> (status, s2) =
      (if first_interrupt w \<noteq> 0 then (128 + int (first_interrupt w), diagnostic ''INTERRUPTED'' None s)
       else if start_result sw then (127, escaped_command (hd (command opts)) s)
       else if timed_out w then (124, diagnostic ''TIMEOUT'' None s)
       else if internal w \<or> direct_status w mod 128 = 127 then (125, diagnostic ''INTERNAL_FAILURE'' None s)
       else (exit_code (direct_status w), s))"
proof -
  from assms(3) obtain st where st: "supervise_loop su tks initial_watch = Some st"
    "w = deliver (sw_late sw) (close_wake st)" "exit_report su w s = (status, s2)"
    unfolding main_started [OF assms(1,2)] by (auto simp: Let_def split: option.splits)
  from loop_first [OF st(1)] obtain k where
    k: "first_interrupt st = interrupt_of (concat (map t_signals (take k tks)))" by (auto simp: initial_watch_def)
  then have f: "first_interrupt w = interrupt_of (concat (map t_signals (take k tks)) @ sw_late sw)"
    by (simp add: st(2) deliver_first interrupt_of_append)
  have "no_children w \<or> internal w" using loop_left [OF st(1)] by (simp add: st(2))
  note e = exit_report_status [OF this, of su s, unfolded st(3)]
  from assms(2) have o: "su_options su = opts" "su_start_failed su = start_result sw" by (simp_all add: started_def)
  from f e show ?thesis unfolding o by blast
qed

theorem status_precedence_witness:
  "\<exists>w. main example_start example_ticks example_argv clear_io
      = Some ((130, diagnostic ''INTERRUPTED'' None clear_io), w)
    \<and> (\<exists>k. first_interrupt w = interrupt_of (concat (map t_signals (take k example_ticks)) @ sw_late example_start))"
proof -
  obtain w where m: "main example_start example_ticks example_argv clear_io
      = Some ((130, diagnostic ''INTERRUPTED'' None clear_io), w)"
    unfolding main_started [OF example_parsed example_started] example_loop
    by (simp add: Let_def example_start_def exit_report_def SIGINT_def)
  from status_precedence [OF example_parsed example_started m] m show ?thesis by blast
qed

text \<open>
  C39. When \<open>setpgid\<close> in the parent succeeds or finds the child gone or already running, and the
  writes of the child and the reads of the parent are only ever interrupted, the start is reported
  as failed exactly when the child exits without running the command, because its own \<open>setpgid\<close> or
  \<open>execvp\<close> fails.
\<close>

theorem failed_start_reported:
  assumes "list_all (\<lambda>a. a = Inl EINTR) (cw_write c)"
    and "sw_report sw = (Read_interrupted ^^ k)
      (if fst (child_side c) = [] then Read_eof else Read_bytes (fst (child_side c)) Read_eof)"
    and "sw_setpgid sw = 0 \<or> sw_setpgid sw = EACCES \<or> sw_setpgid sw = ESRCH"
  shows "start_result sw \<longleftrightarrow> snd (child_side c) = Some 127"
proof -
  have ne: "int_bytes e \<noteq> []" for e by (simp add: int_bytes_def)
  obtain r rest where r: "read_retry report_size 0 (sw_report sw) = (r, rest)"
    by (cases "read_retry report_size 0 (sw_report sw)")
  have "r = Inr (fst (child_side c))"
    using arg_cong [OF r, of fst] unfolding assms(2) read_retry_interrupted
    by (auto simp: child_side_def child_report_complete [OF ne assms(1)] length_int_bytes split: if_splits)
  then have "start_result sw \<longleftrightarrow> length (fst (child_side c)) = report_size"
    using assms(3) r by (auto simp: start_result_def)
  then show ?thesis
    by (auto simp: child_side_def child_report_complete [OF ne assms(1)] length_int_bytes) (simp_all add: report_size_def)
qed

theorem failed_start_reported_witness:
  "start_result (example_start\<lparr>sw_report := Read_interrupted (Read_bytes (int_bytes ENOENT) Read_eof)\<rparr>)"
proof -
  let ?c = "\<lparr>cw_setpgid = 0, cw_execvp = ENOENT, cw_write = [Inl EINTR]\<rparr>"
  have c: "child_side ?c = (int_bytes ENOENT, Some 127)"
    by (simp add: child_side_def ENOENT_def int_bytes_def)
  have n: "int_bytes ENOENT \<noteq> []" by (simp add: int_bytes_def)
  show ?thesis
    using failed_start_reported [of ?c "example_start\<lparr>sw_report := Read_interrupted (Read_bytes (int_bytes ENOENT) Read_eof)\<rparr>" 1] c n
    by (simp add: example_start_def)
qed

end
