(* ===== verification/Spec2Isabelle.thy ===== *)
theory Spec2Isabelle
  imports Sysdiff_Diff Snslice Permguard Treehash Pathaudit Openunlink Agentwatch
begin

text \<open>
  A verification of the seven utilities of this repository, each one C file under \<open>src/\<close>.  The
  programs share no code and no state; they share habits, and so do their models.

  \<^bold>\<open>The common ground.\<close>  \<open>Prelude\<close> has the bytes, C strings, \<open>size_t\<close> arithmetic with its wrap-around
  (\<open>size_plus\<close>, \<open>size_times\<close>) and the string functions.  \<open>Runtime\<close> has the C library as explicit
  state: a record \<open>io\<close> of the two output streams, \<open>errno\<close> and the allocator, where a stream takes a
  bounded or unbounded number of bytes and an allocation may fail, so that every theorem about all
  states \<open>s\<close> of that record is a theorem about all write and memory faults.  \<open>Posix\<close> has mode words,
  error numbers, and the answers of \<open>open\<close> and \<open>read\<close>, which a signal may interrupt finitely often.
  \<open>Numbers\<close>, \<open>Lines\<close>, \<open>Escaping\<close> and \<open>Quoting\<close> hold decimal numerals, the cut into lines, and the
  contract of the escapings: the locales \<open>byte_escape\<close> and \<open>quoted_printer\<close> prove once that escaped
  text is printable, splits uniquely and reads back, and every utility interprets them with its own
  loop.  \<open>Probing\<close> is linear probing in a table of a power of two slots.

  \<^bold>\<open>What the outside answers.\<close>  System calls are arguments, and only \<open>src/\<close> decides what is done with
  the answers.  Streams, reads, writes, allocations and closes are scripts: successive calls may answer
  differently and fail at any point.  The metadata calls of \<open>permguard\<close>, of the descriptors in
  \<open>openunlink\<close> and of the processes in \<open>agentwatch\<close> are numbered by call, so that two looks at the same
  object may differ.  The file system of \<open>treehash\<close> (record \<open>tree_os\<close>) and of \<open>pathaudit\<close> (record
  \<open>audit_os\<close>) answers as a function of the path: the theorems on these two programs are about a file
  system that does not change during the run, with any errors in it.

  \<^bold>\<open>\<open>src/sysdiff.c\<close>\<close> compares two snapshots of key=value lines.  \<open>Sysdiff_Text\<close> is its output side,
  \<open>Sysdiff_Parse\<close> its reader with three limits, \<open>Sysdiff_Spec\<close> says what a well-formed snapshot is
  without the reader, \<open>Sysdiff_Correct\<close> shows that the parser accepts exactly these and that no fault
  lets it accept another, \<open>Sysdiff_Diff\<close> that the records written are the difference of the maps.

  \<^bold>\<open>\<open>src/snslice.c\<close>\<close> cuts a stream into files at record boundaries.  \<open>Snslice_Code\<close> is the program on a
  record of descriptors and a directory of files, \<open>Snslice_Spec\<close> the chunks a stream should give,
  \<open>Snslice_Correct\<close> the refinement, \<open>Snslice\<close> what success and failure leave in the directory.

  \<^bold>\<open>\<open>src/permguard.c\<close>\<close> (\<open>Permguard\<close>) reports permission hazards of its operands.

  \<^bold>\<open>\<open>src/treehash.c\<close>\<close> hashes a directory tree.  \<open>Sha256\<close> is the embedded hash on 32-bit words,
  \<open>Treehash_Merkle\<close> the pairing loop, \<open>Treehash_Ignore\<close> the ignore rules, \<open>Treehash_Walk\<close> the walk with
  the chain of ancestors, \<open>Treehash_Correct\<close> its refinement of a listing, \<open>Treehash\<close> the command line.
  The recursion of the walk ends because the code refuses directories at depth \<open>TREEHASH_MAX_DEPTH\<close>;
  the listing it refines has the same bound.  \<open>Treehash_Ignore\<close> also says what it means that a rule
  hides a path, without the code, and \<open>Treehash\<close> which files a tree has, as an inductive relation.

  \<^bold>\<open>\<open>src/pathaudit.c\<close>\<close> audits a search path.  \<open>Pathaudit_Output\<close> prints, \<open>Pathaudit_Path\<close> loads \<open>PATH\<close>,
  \<open>Pathaudit_Findings\<close> classifies a component and its chain of parents, \<open>Pathaudit_Index\<close> has the winner
  and shadow tables (locale \<open>keyed_table\<close>), \<open>Pathaudit_Audit\<close> the explicit mode, \<open>Pathaudit_Match\<close> and
  \<open>Pathaudit_Command\<close> the search for one command, \<open>Pathaudit_Scan\<close> the whole path, \<open>Pathaudit_Owners\<close>
  the deduplication, \<open>Pathaudit\<close> the command line.  Its loops that need not be structural have proofs
  that they end, so that no mode is partial.

  \<^bold>\<open>\<open>src/openunlink.c\<close>\<close> lists the unlinked files a process holds open.  \<open>Openunlink_Code\<close> is the program,
  \<open>Openunlink_Look\<close> its numbers (locale \<open>canonical_numeral\<close>), line buffer and the three looks at a
  descriptor, \<open>Openunlink\<close> the scan and the ownership of descriptors and buffers.

  \<^bold>\<open>\<open>src/agentwatch.c\<close>\<close> supervises one command.  \<open>Agentwatch_Parse\<close> has durations, options, clock
  arithmetic and the records of \<open>/proc\<close>, \<open>Agentwatch_Args\<close> what they accept, \<open>Agentwatch_Tree\<close> the scan,
  the fixpoint over parents and \<open>signal_tree\<close>, \<open>Agentwatch_Signal\<close> that its targets are the descendants
  (inductive relation \<open>descends\<close>), \<open>Agentwatch_Loop\<close> handlers, start, loop and status,
  \<open>Agentwatch_Invariant\<close> the escalation, \<open>Agentwatch\<close> the properties.  A turn of the loop is a function
  of a \<open>tick\<close>, the answers of the kernel during it; a run is a list of ticks, so that all schedules of
  children, signals and clock are covered, and a loop that still runs is \<open>None\<close>.  A signal is delivered
  before the test of a turn or after the last turn; the handler touches nothing else the loop reads.

  \<^bold>\<open>The properties\<close> are, for each program: nothing is reported by a status that says success unless
  the whole report is correct, complete and flushed, whatever fails (soundness); the report and the
  status are exactly the specified ones when nothing fails (exactness); what the program owns is given
  back; what it prints can be read back; its loops end.

  \<^bold>\<open>Not modelled\<close>: the test seams of \<open>openunlink.c\<close> and \<open>agentwatch.c\<close>, which are compiled only for
  tests; \<open>signal(SIGPIPE, SIG_IGN)\<close> where the source ignores its result; the effects of a failing
  \<open>close\<close> of a descriptor that was only read; locales other than C; the scripts in Python, the tests and
  the documents.  Where a comment or a document of the repository says another thing than the code, the
  model follows the code.
\<close>

end
